(* ===== verification/Prelude.thy ===== *)
theory Prelude
  imports Main "HOL-Library.Word" "HOL-Library.Monad_Syntax"
begin

text \<open>
  Shared vocabulary of the development.

  \<^item> C memory: a typed heap is a partial map from addresses to structs; a field read or
    write of an address outside the map is undefined behaviour in C and is \<open>None\<close> here
    (\<open>load\<close>, \<open>store\<close>). Functions that dereference pointers return \<open>option\<close>, so a theorem
    that such a function returns \<open>Some\<close> is also a memory-safety statement.
  \<^item> \<open>wp\<close>: total correctness of an \<open>option\<close> computation (it returns, and its result
    satisfies the postcondition), with rules for \<open>bind\<close>.
  \<^item> machine integers: \<open>u32\<close>, \<open>u64\<close>, \<open>u8\<close>.
  \<^item> a locale for state machines given by a step relation: an invariant that holds at the
    start and is kept by every step holds in every reachable state.
\<close>

type_synonym u8 = "8 word"
type_synonym u32 = "32 word"
type_synonym u64 = "64 word"

text \<open>An address; 0 is \<open>NULL\<close>, which no heap ever maps.\<close>

type_synonym ptr = nat

abbreviation (input) NULL :: ptr where
  "NULL \<equiv> 0"

subsection \<open>Field access through pointers\<close>

definition load :: "('p \<rightharpoonup> 'n) \<Rightarrow> 'p \<Rightarrow> ('n \<Rightarrow> 'f) \<Rightarrow> 'f option" where
  "load h p f = map_option f (h p)"

definition store :: "('p \<rightharpoonup> 'n) \<Rightarrow> 'p \<Rightarrow> ('n \<Rightarrow> 'n) \<Rightarrow> ('p \<rightharpoonup> 'n) option" where
  "store h p u = map_option (\<lambda>n. h(p \<mapsto> u n)) (h p)"

lemma load_Some [simp]: "h p = Some n \<Longrightarrow> load h p f = Some (f n)"
  by (simp add: load_def)

lemma load_None [simp]: "h p = None \<Longrightarrow> load h p f = None"
  by (simp add: load_def)

lemma store_Some [simp]: "h p = Some n \<Longrightarrow> store h p u = Some (h(p \<mapsto> u n))"
  by (simp add: store_def)

lemma store_None [simp]: "h p = None \<Longrightarrow> store h p u = None"
  by (simp add: store_def)

subsection \<open>Total correctness of computations that may fault\<close>

definition wp :: "'a option \<Rightarrow> ('a \<Rightarrow> bool) \<Rightarrow> bool" where
  "wp m P \<longleftrightarrow> (\<exists>x. m = Some x \<and> P x)"

named_theorems wp_rules \<open>introduction rules for \<open>wp\<close>, one per construct or operation\<close>

lemma wp_Some [simp]: "wp (Some x) P = P x"
  by (simp add: wp_def)

lemma wp_None [simp]: "\<not> wp None P"
  by (simp add: wp_def)

lemma wp_bind: "wp (Option.bind m f) P = wp m (\<lambda>x. wp (f x) P)"
  by (cases m) (simp_all add: wp_def)

lemma wp_bindI [wp_rules]: "wp m (\<lambda>x. wp (f x) P) \<Longrightarrow> wp (Option.bind m f) P"
  by (simp add: wp_bind)

lemma wp_ifI [wp_rules]: "(b \<Longrightarrow> wp m P) \<Longrightarrow> (\<not> b \<Longrightarrow> wp m' P) \<Longrightarrow> wp (if b then m else m') P"
  by simp

lemma wp_loadI [wp_rules]: "h p = Some n \<Longrightarrow> P (f n) \<Longrightarrow> wp (load h p f) P"
  by simp

lemma wp_storeI [wp_rules]: "h p = Some n \<Longrightarrow> P (h(p \<mapsto> u n)) \<Longrightarrow> wp (store h p u) P"
  by simp

lemma wp_mono: "wp m P \<Longrightarrow> (\<And>x. m = Some x \<Longrightarrow> P x \<Longrightarrow> Q x) \<Longrightarrow> wp m Q"
  by (auto simp: wp_def)

lemma wpD: "wp m P \<Longrightarrow> \<exists>x. m = Some x \<and> P x"
  by (simp add: wp_def)

lemma wpE: "wp m P \<Longrightarrow> (\<And>x. m = Some x \<Longrightarrow> P x \<Longrightarrow> R) \<Longrightarrow> R"
  by (auto simp: wp_def)

subsection \<open>State machines\<close>

text \<open>
  A component whose behaviour is a step relation over a state shares this contract: an
  initial predicate, a step relation and an invariant kept by every step.
\<close>

locale invariant_machine =
  fixes start :: "'s \<Rightarrow> bool"
    and step :: "'s \<Rightarrow> 's \<Rightarrow> bool"
    and inv :: "'s \<Rightarrow> bool"
  assumes inv_start: "start s \<Longrightarrow> inv s"
    and inv_step: "inv s \<Longrightarrow> step s t \<Longrightarrow> inv t"
begin

lemma inv_run: "step\<^sup>*\<^sup>* s t \<Longrightarrow> inv s \<Longrightarrow> inv t"
  by (induction rule: rtranclp_induct) (auto intro: inv_step)

lemma inv_reachable: "start s \<Longrightarrow> step\<^sup>*\<^sup>* s t \<Longrightarrow> inv t"
  by (blast intro: inv_start inv_run)

end

end
