(* ===== verification/RB_Tree.thy ===== *)
theory RB_Tree
  imports Prelude
begin

text \<open>
  Red-black trees as values, the counterpart of the pointer implementation of
  \<open>src/libconhash/util_rbtree.c\<close>, the algorithm of Cormen et al. with parent pointers.

  The C loops hold a pointer to a node in the middle of the tree and move it towards the
  root. The value-level counterpart is a zipper: a focus subtree and the list of frames from
  the focus up to the root. \<open>ins_fix\<close> and \<open>del_fix\<close> are the two fix-up loops on zippers; the
  theories of the implementations show that the heap code computes them, this theory that
  they keep the contents and establish the red-black invariants.
\<close>

subsection \<open>Trees and contexts\<close>

datatype color = Red | Black

datatype 'a rbt = Lf | Nd color "'a rbt" 'a "'a rbt"

text \<open>\<open>FL c x r\<close>: the focus is the left child of \<open>x\<close>; \<open>FR c l x\<close>: its right child.\<close>

datatype 'a frame = FL color 'a "'a rbt" | FR color "'a rbt" 'a

fun plug1 :: "'a frame \<Rightarrow> 'a rbt \<Rightarrow> 'a rbt" where
  "plug1 (FL c x r) t = Nd c t x r"
| "plug1 (FR c l x) t = Nd c l x t"

fun plug :: "'a frame list \<Rightarrow> 'a rbt \<Rightarrow> 'a rbt" where
  "plug [] t = t"
| "plug (f # fs) t = plug fs (plug1 f t)"

fun inorder :: "'a rbt \<Rightarrow> 'a list" where
  "inorder Lf = []"
| "inorder (Nd c l x r) = inorder l @ x # inorder r"

fun frame_color :: "'a frame \<Rightarrow> color" where
  "frame_color (FL c x r) = c"
| "frame_color (FR c l x) = c"

fun frame_elem :: "'a frame \<Rightarrow> 'a" where
  "frame_elem (FL c x r) = x"
| "frame_elem (FR c l x) = x"

fun before :: "'a frame list \<Rightarrow> 'a list" where
  "before [] = []"
| "before (FL c x r # fs) = before fs"
| "before (FR c l x # fs) = before fs @ inorder l @ [x]"

fun after :: "'a frame list \<Rightarrow> 'a list" where
  "after [] = []"
| "after (FL c x r # fs) = x # inorder r @ after fs"
| "after (FR c l x # fs) = after fs"

fun is_red :: "'a rbt \<Rightarrow> bool" where
  "is_red (Nd Red l x r) = True"
| "is_red t = False"

fun paint :: "color \<Rightarrow> 'a rbt \<Rightarrow> 'a rbt" where
  "paint c Lf = Lf"
| "paint c (Nd d l x r) = Nd c l x r"

lemma color_neq [simp]: "c \<noteq> Red \<longleftrightarrow> c = Black" "c \<noteq> Black \<longleftrightarrow> c = Red"
  by (cases c; simp)+

lemma is_red_Nd [simp]: "is_red (Nd c l x r) \<longleftrightarrow> c = Red"
  by (cases c) simp_all

lemma is_red_paint [simp]: "\<not> is_red (paint Black t)"
  by (cases t) simp_all

lemma inorder_paint [simp]: "inorder (paint c t) = inorder t"
  by (cases t) simp_all

lemma paint_Lf_iff [simp]: "paint c t = Lf \<longleftrightarrow> t = Lf"
  by (cases t) simp_all

lemma is_redE: "is_red t \<Longrightarrow> (\<And>l x r. t = Nd Red l x r \<Longrightarrow> P) \<Longrightarrow> P"
  by (cases t) auto

lemma inorder_plug: "inorder (plug fs t) = before fs @ inorder t @ after fs"
proof (induction fs arbitrary: t)
  case (Cons f fs)
  then show ?case by (cases f) simp_all
qed simp

lemma plug_append: "plug (fs @ gs) t = plug gs (plug fs t)"
  by (induction fs arbitrary: t) simp_all

lemma plug_Lf_iff [simp]: "plug fs t = Lf \<longleftrightarrow> fs = [] \<and> t = Lf"
proof (induction fs arbitrary: t)
  case (Cons f fs)
  then show ?case by (cases f) simp_all
qed simp

lemma plug_eq_inorder:
  "inorder t = inorder t' \<Longrightarrow> inorder (plug fs t) = inorder (plug fs t')"
  by (simp add: inorder_plug)

subsection \<open>The red-black invariants\<close>

fun bheight :: "'a rbt \<Rightarrow> nat" where
  "bheight Lf = 0"
| "bheight (Nd c l x r) = (if c = Black then Suc (bheight l) else bheight l)"

fun invc :: "'a rbt \<Rightarrow> bool" where
  "invc Lf = True"
| "invc (Nd c l x r) = ((c = Red \<longrightarrow> \<not> is_red l \<and> \<not> is_red r) \<and> invc l \<and> invc r)"

fun invh :: "'a rbt \<Rightarrow> bool" where
  "invh Lf = True"
| "invh (Nd c l x r) = (bheight l = bheight r \<and> invh l \<and> invh r)"

definition rbt :: "'a rbt \<Rightarrow> bool" where
  "rbt t \<longleftrightarrow> invc t \<and> invh t \<and> \<not> is_red t"

text \<open>\<open>good n t\<close>: a red-black tree (its root of any colour) of black height \<open>n\<close>.\<close>

definition good :: "nat \<Rightarrow> 'a rbt \<Rightarrow> bool" where
  "good n t \<longleftrightarrow> invc t \<and> invh t \<and> bheight t = n"

lemma good_Lf [simp]: "good n Lf \<longleftrightarrow> n = 0"
  by (auto simp: good_def)

lemma good_Red [simp]:
  "good n (Nd Red l x r) \<longleftrightarrow> good n l \<and> good n r \<and> \<not> is_red l \<and> \<not> is_red r"
  by (auto simp: good_def)

lemma good_Black [simp]:
  "good n (Nd Black l x r) \<longleftrightarrow> (\<exists>m. n = Suc m \<and> good m l \<and> good m r)"
  by (auto simp: good_def)

lemma good_Nd: "good n (Nd c l x r) \<longleftrightarrow>
  (case c of Red \<Rightarrow> good n l \<and> good n r \<and> \<not> is_red l \<and> \<not> is_red r
           | Black \<Rightarrow> (\<exists>m. n = Suc m \<and> good m l \<and> good m r))"
  by (cases c) simp_all

lemma rbt_good: "rbt t \<longleftrightarrow> (\<exists>n. good n t) \<and> \<not> is_red t"
  by (auto simp: rbt_def good_def)

lemma good_unique: "good n t \<Longrightarrow> good m t \<Longrightarrow> n = m"
  by (simp add: good_def)

lemma good_paint_Black: "good n t \<Longrightarrow> \<exists>m. good m (paint Black t)"
proof (cases t)
  case (Nd c l x r)
  assume "good n t"
  with Nd show ?thesis by (cases c) auto
qed simp

lemma rbt_paint_Black: "good n t \<Longrightarrow> rbt (paint Black t)"
  using good_paint_Black [of n t] by (simp add: rbt_good)

text \<open>
  \<open>cinv fs n\<close>: plugging a tree of black height \<open>n\<close> into the context gives a red-black tree,
  but for the colour of the root of what is plugged; \<open>top_black\<close> says the plugged tree may
  be red.
\<close>

fun top_black :: "'a frame list \<Rightarrow> bool" where
  "top_black [] = True"
| "top_black (f # fs) = (frame_color f = Black)"

fun cinv :: "'a frame list \<Rightarrow> nat \<Rightarrow> bool" where
  "cinv [] n = True"
| "cinv (FL c x r # fs) n = (good n r \<and>
     (if c = Red then \<not> is_red r \<and> fs \<noteq> [] \<and> top_black fs \<and> cinv fs n else cinv fs (Suc n)))"
| "cinv (FR c l x # fs) n = (good n l \<and>
     (if c = Red then \<not> is_red l \<and> fs \<noteq> [] \<and> top_black fs \<and> cinv fs n else cinv fs (Suc n)))"

lemma good_plug:
  assumes "cinv fs n" "good n t" "is_red t \<Longrightarrow> fs \<noteq> [] \<and> top_black fs"
  shows "rbt (plug fs t)"
  using assms
proof (induction fs arbitrary: n t)
  case Nil
  then show ?case by (auto simp: rbt_good)
next
  case (Cons f fs)
  show ?case
  proof (cases f)
    case (FL c x r)
    with Cons show ?thesis by (cases c) (auto intro!: Cons.IH split: if_splits)
  next
    case (FR c l x)
    with Cons show ?thesis by (cases c) (auto intro!: Cons.IH split: if_splits)
  qed
qed

text \<open>Conversely, every position of a red-black tree has such a context.\<close>

lemma plug_cinv:
  assumes "rbt (plug fs t)"
  shows "\<exists>n. cinv fs n \<and> good n t \<and> (is_red t \<longrightarrow> fs \<noteq> [] \<and> top_black fs)"
  using assms
proof (induction fs arbitrary: t)
  case Nil
  then show ?case by (auto simp: rbt_good)
next
  case (Cons f fs)
  then have "rbt (plug fs (plug1 f t))" by simp
  from Cons.IH [OF this] obtain n where
    "cinv fs n" "good n (plug1 f t)"
    "is_red (plug1 f t) \<longrightarrow> fs \<noteq> [] \<and> top_black fs" by blast
  then show ?case by (cases f) (auto simp: good_Nd split: color.splits)
qed

subsection \<open>The insertion fix-up\<close>

text \<open>
  The loop of \<open>rbtree_insert_fixup\<close> and \<open>rb_insert_color\<close>: the focus is red; while its
  parent is red, either recolour (red uncle) and continue at the grandparent, or rotate
  (black uncle), after which the parent of the focus is black and the loop ends.
\<close>

fun ins_rot :: "'a frame \<Rightarrow> color \<Rightarrow> 'a frame \<Rightarrow> 'a rbt \<Rightarrow> 'a rbt" where
  "ins_rot (FL pc p s) tc (FL gc g u) t = Nd Black t p (Nd Red s g u)"
| "ins_rot (FR pc s p) tc (FL gc g u) (Nd c l x r) = Nd Black (Nd pc s p l) x (Nd Red r g u)"
| "ins_rot (FR pc s p) tc (FR gc u g) t = Nd Black (Nd Red u g s) p t"
| "ins_rot (FL pc p s) tc (FR gc u g) (Nd c l x r) = Nd Black (Nd Red u g l) x (Nd pc r p s)"
| "ins_rot f tc g t = plug [f, g] t"

fun sibling :: "'a frame \<Rightarrow> 'a rbt" where
  "sibling (FL c x r) = r"
| "sibling (FR c l x) = l"

fun recolor :: "'a frame \<Rightarrow> 'a frame \<Rightarrow> 'a rbt \<Rightarrow> 'a rbt" where
  "recolor f (FL gc g u) t = Nd Red (paint Black (plug1 f t)) g (paint Black u)"
| "recolor f (FR gc u g) t = Nd Red (paint Black u) g (paint Black (plug1 f t))"

fun ins_fix :: "'a frame list \<Rightarrow> 'a rbt \<Rightarrow> 'a rbt" where
  "ins_fix (f # g # fs) t =
     (if frame_color f = Red then
        (if is_red (sibling g) then ins_fix fs (recolor f g t)
         else plug fs (ins_rot f Red g t))
      else plug (f # g # fs) t)"
| "ins_fix fs t = plug fs t"

lemma inorder_ins_rot [simp]:
  "t \<noteq> Lf \<Longrightarrow> inorder (ins_rot f tc g t) = inorder (plug [f, g] t)"
  by (induction f tc g t rule: ins_rot.induct) auto

lemma inorder_recolor [simp]: "inorder (recolor f g t) = inorder (plug [f, g] t)"
  by (cases g; cases f) simp_all

lemma recolor_neq_Lf [simp]: "recolor f g t \<noteq> Lf"
  by (cases g) simp_all

lemma inorder_ins_fix: "t \<noteq> Lf \<Longrightarrow> inorder (ins_fix fs t) = inorder (plug fs t)"
proof (induction fs t rule: ins_fix.induct)
  case (1 f g fs t)
  then show ?case by (auto simp: inorder_plug)
qed (auto simp: inorder_plug)

text \<open>The invariant of the loop: only the edge between the focus and its parent may be red-red.\<close>

lemma ins_fix_rbt:
  assumes "cinv fs n" "good n t" "is_red t"
  shows "rbt (paint Black (ins_fix fs t))"
  using assms
proof (induction fs t arbitrary: n rule: ins_fix.induct [case_names grand root single])
  case (grand f g fs t)
  from grand.prems(3) obtain l x r where t: "t = Nd Red l x r" by (rule is_redE)
  show ?case
  proof (cases "frame_color f = Red")
    case False
    then have "rbt (plug (f # g # fs) t)"
      by (intro good_plug [OF grand.prems(1,2)]) simp
    with False show ?thesis
      by (simp add: rbt_good) (meson good_paint_Black)
  next
    case f: True
    with grand.prems(1) have g: "frame_color g = Black" by (cases f) simp_all
    show ?thesis
    proof (cases "is_red (sibling g)")
      case True
      then obtain ul ux ur where u: "sibling g = Nd Red ul ux ur" by (rule is_redE)
      have "cinv fs (Suc n)" "good (Suc n) (recolor f g t)" "is_red (recolor f g t)"
        using grand.prems(1,2) f g u by (cases f; cases g; simp)+
      from grand.IH [OF f True this] f True show ?thesis by simp
    next
      case False
      have "rbt (plug fs (ins_rot f Red g t))"
      proof (rule good_plug)
        show "cinv fs (Suc n)" "good (Suc n) (ins_rot f Red g t)"
          using grand.prems(1,2) f g False t by (cases f; cases g; auto)+
        show "is_red (ins_rot f Red g t) \<Longrightarrow> fs \<noteq> [] \<and> top_black fs"
          using t by (cases f; cases g) simp_all
      qed
      with f False show ?thesis by (simp add: rbt_good) (meson good_paint_Black)
    qed
  qed
next
  case (root t)
  then show ?case by (auto dest: good_paint_Black simp: rbt_good)
next
  case (single f t)
  then have "rbt (plug [f] t)" by (intro good_plug [OF single(1,2)]) (cases f; auto split: if_splits)+
  then show ?case by (simp add: rbt_good) (meson good_paint_Black)
qed

subsection \<open>The deletion fix-up\<close>

text \<open>
  The focus is one black short of its sibling. A step at a black sibling either ends the
  loop with a finished subtree (\<open>Inr\<close>) or recolours the sibling and passes the deficit on to
  the parent (\<open>Inl\<close>).
\<close>

fun del_stepL :: "color \<Rightarrow> 'a rbt \<Rightarrow> 'a \<Rightarrow> 'a rbt \<Rightarrow> 'a rbt + 'a rbt" where
  "del_stepL pc t p Lf = Inl (Nd pc t p Lf)"
| "del_stepL pc t p (Nd wc wl w wr) =
     (if \<not> is_red wl \<and> \<not> is_red wr then Inl (Nd pc t p (Nd Red wl w wr))
      else if \<not> is_red wr then
        (case wl of
           Lf \<Rightarrow> Inl (Nd pc t p (Nd wc wl w wr))
         | Nd yc a y b \<Rightarrow> Inr (Nd pc (Nd Black t p a) y (Nd Black b w wr)))
      else Inr (Nd pc (Nd Black t p wl) w (paint Black wr)))"

fun del_stepR :: "color \<Rightarrow> 'a rbt \<Rightarrow> 'a \<Rightarrow> 'a rbt \<Rightarrow> 'a rbt + 'a rbt" where
  "del_stepR pc Lf p t = Inl (Nd pc Lf p t)"
| "del_stepR pc (Nd wc wl w wr) p t =
     (if \<not> is_red wl \<and> \<not> is_red wr then Inl (Nd pc (Nd Red wl w wr) p t)
      else if \<not> is_red wl then
        (case wr of
           Lf \<Rightarrow> Inl (Nd pc (Nd wc wl w wr) p t)
         | Nd yc a y b \<Rightarrow> Inr (Nd pc (Nd Black wl w a) y (Nd Black b p t)))
      else Inr (Nd pc (paint Black wl) w (Nd Black wr p t)))"

text \<open>
  With a red sibling the parent is rotated below it first; the deficit then sits under a red
  parent, so the step that follows is the last one.
\<close>

definition del_last :: "'a frame list \<Rightarrow> 'a rbt + 'a rbt \<Rightarrow> 'a rbt" where
  "del_last fs s = (case s of Inl t \<Rightarrow> plug fs (paint Black t) | Inr t \<Rightarrow> paint Black (plug fs t))"

fun del_fix :: "'a frame list \<Rightarrow> 'a rbt \<Rightarrow> 'a rbt" where
  "del_fix [] t = paint Black t"
| "del_fix (f # fs) t =
     (if is_red t then plug (f # fs) (paint Black t)
      else case f of
        FL pc p w \<Rightarrow>
          (case w of
             Nd Red wl x wr \<Rightarrow> del_last (FL Black x wr # fs) (del_stepL Red t p wl)
           | _ \<Rightarrow> (case del_stepL pc t p w of
                     Inl t' \<Rightarrow> del_fix fs t'
                   | Inr t' \<Rightarrow> paint Black (plug fs t')))
      | FR pc w p \<Rightarrow>
          (case w of
             Nd Red wl x wr \<Rightarrow> del_last (FR Black wl x # fs) (del_stepR Red wr p t)
           | _ \<Rightarrow> (case del_stepR pc w p t of
                     Inl t' \<Rightarrow> del_fix fs t'
                   | Inr t' \<Rightarrow> paint Black (plug fs t'))))"

definition sum_val :: "'a + 'a \<Rightarrow> 'a" where
  "sum_val s = (case s of Inl x \<Rightarrow> x | Inr x \<Rightarrow> x)"

lemma sum_val_simps [simp]: "sum_val (Inl x) = x" "sum_val (Inr x) = x"
  by (simp_all add: sum_val_def)

lemma inorder_del_stepL:
  "inorder (sum_val (del_stepL pc t p w)) = inorder t @ p # inorder w"
  by (cases w) (auto split: rbt.split)

lemma inorder_del_stepR:
  "inorder (sum_val (del_stepR pc w p t)) = inorder w @ p # inorder t"
  by (cases w) (auto split: rbt.split)

lemma inorder_del_last [simp]:
  "inorder (del_last fs s) = before fs @ inorder (sum_val s) @ after fs"
  by (cases s) (simp_all add: del_last_def inorder_plug)

lemma inorder_del_fix: "inorder (del_fix fs t) = inorder (plug fs t)"
proof (induction fs arbitrary: t)
  case (Cons f fs)
  show ?case
  proof (cases f)
    case (FL pc p w)
    with inorder_del_stepL [of pc t p w] show ?thesis
      by (auto simp: Cons.IH inorder_plug inorder_del_stepL split: rbt.split color.split sum.split)
  next
    case (FR pc w p)
    with inorder_del_stepR [of pc w p t] show ?thesis
      by (auto simp: Cons.IH inorder_plug inorder_del_stepR split: rbt.split color.split sum.split)
  qed
qed simp

text \<open>
  The step at a black sibling restores the black height of the parent's position (\<open>Inr\<close>) or
  leaves it one short (\<open>Inl\<close>), and never puts a red root where it was black.
\<close>

lemma del_stepL_good:
  assumes "good n t" "good (Suc n) w" "\<not> is_red w" "\<not> is_red t"
  shows "case del_stepL pc t p w of
      Inl t' \<Rightarrow> (\<exists>m. good m (paint Black t')) \<and>
        (if pc = Red then good (Suc n) (paint Black t') else good (Suc n) t') \<and> (is_red t' \<longleftrightarrow> pc = Red)
    | Inr t' \<Rightarrow> (if pc = Red then good (Suc n) t' else good (Suc (Suc n)) t') \<and> (is_red t' \<longleftrightarrow> pc = Red)"
  using assms by (cases w; cases pc) (auto split: rbt.split elim!: is_redE)

lemma del_stepR_good:
  assumes "good n t" "good (Suc n) w" "\<not> is_red w" "\<not> is_red t"
  shows "case del_stepR pc w p t of
      Inl t' \<Rightarrow> (\<exists>m. good m (paint Black t')) \<and>
        (if pc = Red then good (Suc n) (paint Black t') else good (Suc n) t') \<and> (is_red t' \<longleftrightarrow> pc = Red)
    | Inr t' \<Rightarrow> (if pc = Red then good (Suc n) t' else good (Suc (Suc n)) t') \<and> (is_red t' \<longleftrightarrow> pc = Red)"
  using assms by (cases w; cases pc) (auto split: rbt.split elim!: is_redE)

text \<open>The invariant of the loop: the focus lacks one black node, or is red and can be painted.\<close>

definition deficit :: "nat \<Rightarrow> 'a rbt \<Rightarrow> bool" where
  "deficit n t \<longleftrightarrow> (if is_red t then good (Suc n) (paint Black t) else good n t)"

lemma good_deficit: "good n t \<Longrightarrow> deficit n t"
  by (cases t) (auto simp: deficit_def)

lemma rbt_paint_same: "rbt t \<Longrightarrow> rbt (paint Black t)"
  by (auto simp: rbt_good dest: good_paint_Black)

lemma del_last_rbt:
  assumes "cinv fs (Suc n)" "fs \<noteq> []" "top_black fs"
    and "case s of Inl t \<Rightarrow> good (Suc n) (paint Black t) | Inr t \<Rightarrow> good (Suc n) t"
  shows "rbt (del_last fs s)"
proof (cases s)
  case (Inl t)
  with assms good_plug [of fs "Suc n" "paint Black t"] show ?thesis by (simp add: del_last_def)
next
  case (Inr t)
  with assms good_plug [of fs "Suc n" t] show ?thesis by (simp add: del_last_def rbt_paint_same)
qed

text \<open>What a step at a black sibling establishes at the parent's position.\<close>

definition step_ok :: "nat \<Rightarrow> color \<Rightarrow> 'a rbt + 'a rbt \<Rightarrow> bool" where
  "step_ok n pc s \<longleftrightarrow> (case s of
      Inl t \<Rightarrow> deficit (if pc = Red then n else Suc n) t
    | Inr t \<Rightarrow> good (if pc = Red then Suc n else Suc (Suc n)) t \<and> (is_red t \<longleftrightarrow> pc = Red))"

lemma del_step_ok:
  assumes "good n t" "good (Suc n) w" "\<not> is_red w" "\<not> is_red t"
  shows "step_ok n pc (del_stepL pc t p w)" "step_ok n pc (del_stepR pc w p t)"
  using del_stepL_good [OF assms, of pc p] del_stepR_good [OF assms, of pc p]
  by (auto simp: step_ok_def deficit_def split: sum.splits if_splits)

lemma step_ok_last:
  assumes "step_ok n Red s" "cinv fs (Suc n)" "fs \<noteq> []" "top_black fs" "\<And>t. s = Inl t \<Longrightarrow> is_red t"
  shows "rbt (del_last fs s)"
  using assms by (intro del_last_rbt [of _ n]) (auto simp: step_ok_def deficit_def split: sum.splits)

lemma step_ok_next:
  assumes "step_ok n pc s"
    and "cinv fs (if pc = Red then Suc n else Suc (Suc n))" "pc = Red \<Longrightarrow> fs \<noteq> [] \<and> top_black fs"
    and "\<And>m t. cinv fs (Suc m) \<Longrightarrow> deficit m t \<Longrightarrow> rbt (del_fix fs t)"
  shows "rbt (case s of Inl t \<Rightarrow> del_fix fs t | Inr t \<Rightarrow> paint Black (plug fs t))"
proof (cases s)
  case (Inl t)
  with assms(1,2) assms(4) [of "if pc = Red then n else Suc n" t] show ?thesis
    by (auto simp: step_ok_def split: if_splits)
next
  case (Inr t)
  then have "rbt (plug fs t)"
    using assms(1-3) by (intro good_plug [of _ "if pc = Red then Suc n else Suc (Suc n)"])
      (auto simp: step_ok_def split: if_splits)
  with Inr show ?thesis by (simp add: rbt_paint_same)
qed

lemma del_step_Inl_red:
  "del_stepL Red t p w = Inl u \<Longrightarrow> is_red u" "del_stepR Red w p t = Inl u \<Longrightarrow> is_red u"
  by (cases w; auto split: if_splits rbt.splits)+

lemma del_fix_rbt:
  assumes "cinv fs (Suc n)" "deficit n t"
  shows "rbt (del_fix fs t)"
  using assms
proof (induction fs arbitrary: n t)
  case Nil
  then show ?case by (cases "is_red t") (auto simp: deficit_def rbt_good dest: good_paint_Black)
next
  case (Cons f fs)
  show ?case
  proof (cases "is_red t")
    case True
    with Cons.prems have "rbt (plug (f # fs) (paint Black t))"
      by (intro good_plug [of _ "Suc n"]) (auto simp: deficit_def)
    with True show ?thesis by simp
  next
    case False
    with Cons.prems have t: "good n t" by (simp add: deficit_def)
    have cont: "rbt (case s of Inl t \<Rightarrow> del_fix fs t | Inr t \<Rightarrow> paint Black (plug fs t))"
      if "step_ok n (frame_color f) s" for s
      using Cons.prems(1) by (intro step_ok_next [OF that _ _ Cons.IH]) (cases f; auto split: if_splits)+
    show ?thesis
    proof (cases f)
      case (FL pc p w)
      show ?thesis
      proof (cases "is_red w")
        case True
        then obtain wl x wr where w: "w = Nd Red wl x wr" by (rule is_redE)
        have "rbt (del_last (FL Black x wr # fs) (del_stepL Red t p wl))"
          using Cons.prems(1) FL w
          by (intro step_ok_last [OF del_step_ok(1) [OF t _ _ False]] del_step_Inl_red(1))
            (auto split: if_splits)
        with FL w False show ?thesis by simp
      next
        case nr: False
        from FL Cons.prems(1) cont [of "del_stepL pc t p w"] del_step_ok(1) [OF t _ nr False]
        show ?thesis using FL False nr by (auto split: rbt.split color.split)
      qed
    next
      case (FR pc w p)
      show ?thesis
      proof (cases "is_red w")
        case True
        then obtain wl x wr where w: "w = Nd Red wl x wr" by (rule is_redE)
        have "rbt (del_last (FR Black wl x # fs) (del_stepR Red wr p t))"
          using Cons.prems(1) FR w
          by (intro step_ok_last [OF del_step_ok(2) [OF t _ _ False]] del_step_Inl_red(2))
            (auto split: if_splits)
        with FR w False show ?thesis by simp
      next
        case nr: False
        from FR Cons.prems(1) cont [of "del_stepR pc w p t"] del_step_ok(2) [OF t _ nr False]
        show ?thesis using FR False nr by (auto split: rbt.split color.split)
      qed
    qed
  qed
qed

subsection \<open>Whole-tree operations\<close>

text \<open>
  The descent of the search and insertion loops: \<open>go y\<close> decides to go left at the element
  \<open>y\<close> (the new key is smaller).
\<close>

fun descend :: "('a \<Rightarrow> bool) \<Rightarrow> 'a frame list \<Rightarrow> 'a rbt \<Rightarrow> 'a frame list" where
  "descend go fs Lf = fs"
| "descend go fs (Nd c l y r) =
     (if go y then descend go (FL c y r # fs) l else descend go (FR c l y # fs) r)"

lemma plug_descend [simp]: "plug (descend go fs t) Lf = plug fs t"
  by (induction go fs t rule: descend.induct) simp_all

lemma descend_split:
  assumes "sorted_wrt (\<lambda>a b. go a \<longrightarrow> go b) (inorder t)"
    and "\<forall>y \<in> set (before fs). \<not> go y" "\<forall>y \<in> set (after fs). go y"
  shows "(\<forall>y \<in> set (before (descend go fs t)). \<not> go y) \<and> (\<forall>y \<in> set (after (descend go fs t)). go y)"
  using assms
proof (induction go fs t rule: descend.induct)
  case (2 go fs c l y r)
  from "2.prems"(1) have le: "\<forall>a \<in> set (inorder l). go a \<longrightarrow> go y" "\<forall>b \<in> set (inorder r). go y \<longrightarrow> go b"
    "sorted_wrt (\<lambda>a b. go a \<longrightarrow> go b) (inorder l)" "sorted_wrt (\<lambda>a b. go a \<longrightarrow> go b) (inorder r)"
    unfolding inorder.simps sorted_wrt_append sorted_wrt.simps list.set by blast+
  show ?case
  proof (cases "go y")
    case True
    with le have "\<forall>z \<in> set (after (FL c y r # fs)). go z" 
      using "2.prems"(3) unfolding after.simps set_append list.set by blast
    then have "(\<forall>z \<in> set (before (descend go (FL c y r # fs) l)). \<not> go z) \<and>
        (\<forall>z \<in> set (after (descend go (FL c y r # fs) l)). go z)"
      using "2.prems"(2) by (intro "2.IH"(1) [OF True le(3)]) (simp_all only: before.simps)
    then show ?thesis unfolding descend.simps if_P [OF True] .
  next
    case False
    with le have "\<forall>z \<in> set (before (FR c l y # fs)). \<not> go z" 
      using "2.prems"(2) unfolding before.simps set_append list.set by blast
    then have "(\<forall>z \<in> set (before (descend go (FR c l y # fs) r)). \<not> go z) \<and>
        (\<forall>z \<in> set (after (descend go (FR c l y # fs) r)). go z)"
      using "2.prems"(3) by (intro "2.IH"(2) [OF False le(4)]) (simp_all only: after.simps)
    then show ?thesis unfolding descend.simps if_not_P [OF False] .
  qed
qed simp

definition rb_insert :: "('a \<Rightarrow> bool) \<Rightarrow> 'a \<Rightarrow> 'a rbt \<Rightarrow> 'a rbt" where
  "rb_insert go x t = paint Black (ins_fix (descend go [] t) (Nd Red Lf x Lf))"

lemma rb_insert_rbt: "rbt t \<Longrightarrow> rbt (rb_insert go x t)"
proof -
  assume "rbt t"
  then have "rbt (plug (descend go [] t) Lf)" by simp
  from plug_cinv [OF this] have "cinv (descend go [] t) 0" by auto
  then show ?thesis unfolding rb_insert_def by (rule ins_fix_rbt) simp_all
qed

lemma inorder_rb_insert:
  assumes "sorted_wrt (\<lambda>a b. go a \<longrightarrow> go b) (inorder t)"
  shows "inorder (rb_insert go x t) =
    takeWhile (\<lambda>y. \<not> go y) (inorder t) @ x # dropWhile (\<lambda>y. \<not> go y) (inorder t)"
proof -
  let ?fs = "descend go [] t"
  have sp: "\<forall>y \<in> set (before ?fs). \<not> go y" "\<forall>y \<in> set (after ?fs). go y"
    using descend_split [OF assms, of "[]"] by simp_all
  have "inorder t = before ?fs @ after ?fs"
    using plug_descend [of go "[]" t] inorder_plug [of ?fs Lf] by simp
  moreover have "takeWhile (\<lambda>y. \<not> go y) (after ?fs) = []" "dropWhile (\<lambda>y. \<not> go y) (after ?fs) = after ?fs"
    using sp(2) by (cases "after ?fs"; simp)+
  ultimately show ?thesis
    using sp(1) by (simp add: rb_insert_def inorder_ins_fix inorder_plug)
qed

text \<open>Deletion: the leftmost node of the right subtree takes the deleted node's place.\<close>

fun split_min :: "'a frame list \<Rightarrow> color \<Rightarrow> 'a rbt \<Rightarrow> 'a \<Rightarrow> 'a rbt \<Rightarrow> 'a frame list \<times> color \<times> 'a \<times> 'a rbt" where
  "split_min fs c Lf x r = (fs, c, x, r)"
| "split_min fs c (Nd c' l' x' r') x r = split_min (FL c x r # fs) c' l' x' r'"

definition rb_delete_at :: "'a frame list \<Rightarrow> color \<Rightarrow> 'a rbt \<Rightarrow> 'a \<Rightarrow> 'a rbt \<Rightarrow> 'a rbt" where
  "rb_delete_at fs c l x r =
     (let remove = (\<lambda>c fs t. if c = Black then del_fix fs t else plug fs t)
      in case r of
           Lf \<Rightarrow> remove c fs l
         | Nd rc rl y rr \<Rightarrow>
             (if l = Lf then remove c fs r
              else case split_min [] rc rl y rr of (ms, mc, m, mr) \<Rightarrow>
                remove mc (ms @ FR c l m # fs) mr))"

lemma split_min_plug:
  "split_min fs c l x r = (ms, mc, m, mr) \<Longrightarrow> plug ms (Nd mc Lf m mr) = plug fs (Nd c l x r)"
  by (induction fs c l x r rule: split_min.induct) auto

lemma split_min_before:
  "split_min fs c l x r = (ms, mc, m, mr) \<Longrightarrow> before ms = before fs"
  by (induction fs c l x r rule: split_min.induct) auto

lemma rbt_plug_elem: "rbt (plug fs (Nd c l x r)) \<longleftrightarrow> rbt (plug fs (Nd c l y r))"
proof -
  have "rbt (plug fs (Nd c l x r)) \<Longrightarrow> rbt (plug fs (Nd c l y r))" for x y
    by (drule plug_cinv) (auto intro!: good_plug simp: good_Nd split: color.splits)
  then show ?thesis by blast
qed

lemma remove_rbt:
  assumes "rbt (plug fs (Nd c l x r))" "l = Lf \<or> r = Lf" "t = (if l = Lf then r else l)"
  shows "rbt (if c = Black then del_fix fs t else plug fs t)"
proof -
  from plug_cinv [OF assms(1)] obtain n where
    n: "cinv fs n" "good n (Nd c l x r)" "c = Red \<longrightarrow> fs \<noteq> [] \<and> top_black fs" by auto
  show ?thesis
  proof (cases c)
    case Red
    with n assms(2,3) show ?thesis by (auto intro!: good_plug split: if_splits)
  next
    case Black
    with n obtain m where m: "n = Suc m" "good m l" "good m r" by auto
    with assms(2,3) have "good m t" by (auto split: if_splits)
    with Black n(1) m(1) show ?thesis by (auto intro: del_fix_rbt good_deficit)
  qed
qed

lemma rb_delete_at_rbt:
  assumes "rbt (plug fs (Nd c l x r))"
  shows "rbt (rb_delete_at fs c l x r)"
proof (cases "l = Lf \<or> r = Lf")
  case True
  with remove_rbt [OF assms True refl] show ?thesis
    by (auto simp: rb_delete_at_def Let_def split: rbt.split)
next
  case False
  then obtain rc rl y rr where r: "r = Nd rc rl y rr" by (cases r) auto
  obtain ms mc m mr where sp: "split_min [] rc rl y rr = (ms, mc, m, mr)" by (metis prod.exhaust)
  have "plug (ms @ FR c l m # fs) (Nd mc Lf m mr) = plug fs (Nd c l m r)"
    using split_min_plug [OF sp] r by (simp add: plug_append)
  with assms have "rbt (plug (ms @ FR c l m # fs) (Nd mc Lf m mr))"
    using rbt_plug_elem by metis
  from remove_rbt [OF this, of mr] False r sp show ?thesis
    by (simp add: rb_delete_at_def Let_def)
qed

lemma inorder_rb_delete_at:
  "inorder (rb_delete_at fs c l x r) = before fs @ inorder l @ inorder r @ after fs"
proof (cases "l = Lf \<or> r = Lf")
  case True
  then show ?thesis
    by (auto simp: rb_delete_at_def Let_def inorder_del_fix inorder_plug split: rbt.split)
next
  case False
  then obtain rc rl y rr where r: "r = Nd rc rl y rr" by (cases r) auto
  obtain ms mc m mr where sp: "split_min [] rc rl y rr = (ms, mc, m, mr)" by (metis prod.exhaust)
  have "inorder r = m # inorder mr @ after ms"
    using arg_cong [OF split_min_plug [OF sp], of inorder] split_min_before [OF sp] r
    by (simp add: inorder_plug)
  moreover have "before (ms @ FR c l m # fs) = before fs @ inorder l @ [m]"
    "after (ms @ FR c l m # fs) = after ms @ after fs"
  proof -
    have "before (ms @ gs) = before gs @ before ms" "after (ms @ gs) = after ms @ after gs" for gs
      by (induction ms rule: before.induct; simp)+
    with split_min_before [OF sp] show "before (ms @ FR c l m # fs) = before fs @ inorder l @ [m]"
      "after (ms @ FR c l m # fs) = after ms @ after fs" by simp_all
  qed
  ultimately show ?thesis
    using False r sp by (auto simp: rb_delete_at_def Let_def inorder_del_fix inorder_plug)
qed

end
