(* ===== verification/Util_Rbtree.thy ===== *)
theory Util_Rbtree
  imports RB_Tree
begin

text \<open>
  \<open>src/libconhash/util_rbtree.c\<close> and \<open>util_rbtree.h\<close>: a red-black tree of heap nodes with
  parent pointers and a black sentinel embedded in the tree struct (\<open>&rbtree->null\<close>) in
  place of \<open>NULL\<close> children.

  The state is the struct (\<open>root\<close>, the address \<open>null\<close> of the embedded sentinel, \<open>rsize\<close>)
  together with the typed heap \<open>mem\<close> that holds the nodes and the sentinel. Each C function
  is a computation in \<open>option\<close>; reading or writing an address the heap does not hold is
  \<open>None\<close>. Keys are C \<open>long\<close>s, which the code only compares, so they are \<open>int\<close>; the colour
  field is the \<open>int\<close> the macros compare with 1 (black) and 0 (red). The \<open>rbtree == NULL\<close>
  guards do not appear: the struct is passed by value here.
\<close>

subsection \<open>Data\<close>

record rbnode =
  key :: int
  parent :: ptr
  right :: ptr
  left :: ptr
  color :: int
  data :: ptr

record util_rbtree =
  root :: ptr
  null :: ptr
  rsize :: u32
  mem :: "ptr \<rightharpoonup> rbnode"

definition get :: "util_rbtree \<Rightarrow> ptr \<Rightarrow> (rbnode \<Rightarrow> 'f) \<Rightarrow> 'f option" where
  "get T p f = load (mem T) p f"

definition put :: "util_rbtree \<Rightarrow> ptr \<Rightarrow> (rbnode \<Rightarrow> rbnode) \<Rightarrow> util_rbtree option" where
  "put T p u = map_option (\<lambda>h. T\<lparr>mem := h\<rparr>) (store (mem T) p u)"

definition set_parent :: "util_rbtree \<Rightarrow> ptr \<Rightarrow> ptr \<Rightarrow> util_rbtree option" where
  "set_parent T p v = put T p (parent_update (\<lambda>_. v))"

definition set_left :: "util_rbtree \<Rightarrow> ptr \<Rightarrow> ptr \<Rightarrow> util_rbtree option" where
  "set_left T p v = put T p (left_update (\<lambda>_. v))"

definition set_right :: "util_rbtree \<Rightarrow> ptr \<Rightarrow> ptr \<Rightarrow> util_rbtree option" where
  "set_right T p v = put T p (right_update (\<lambda>_. v))"

text \<open>The macros \<open>util_rbt_black\<close>, \<open>util_rbt_red\<close>, \<open>util_rbt_isblack\<close>, \<open>util_rbt_isred\<close>.\<close>

definition util_rbt_black :: "util_rbtree \<Rightarrow> ptr \<Rightarrow> util_rbtree option" where
  "util_rbt_black T p = put T p (color_update (\<lambda>_. 1))"

definition util_rbt_red :: "util_rbtree \<Rightarrow> ptr \<Rightarrow> util_rbtree option" where
  "util_rbt_red T p = put T p (color_update (\<lambda>_. 0))"

definition util_rbt_isblack :: "util_rbtree \<Rightarrow> ptr \<Rightarrow> bool option" where
  "util_rbt_isblack T p = get T p (\<lambda>n. color n = 1)"

definition util_rbt_isred :: "util_rbtree \<Rightarrow> ptr \<Rightarrow> bool option" where
  "util_rbt_isred T p = get T p (\<lambda>n. color n = 0)"

definition rbt_clear_node :: "util_rbtree \<Rightarrow> ptr \<Rightarrow> util_rbtree option" where
  "rbt_clear_node T p = do {
     T \<leftarrow> set_left T p NULL;
     T \<leftarrow> set_right T p NULL;
     set_parent T p NULL
   }"

definition util_rbtree_isempty :: "util_rbtree \<Rightarrow> bool" where
  "util_rbtree_isempty T \<longleftrightarrow> root T = null T"

definition util_rbtree_init :: "util_rbtree \<Rightarrow> util_rbtree option" where
  "util_rbtree_init T = do {
     T \<leftarrow> util_rbt_black T (null T);
     Some (T\<lparr>root := null T, rsize := 0\<rparr>)
   }"

subsection \<open>Leftmost and rightmost node\<close>

partial_function (option) rbsubtree_min_loop :: "util_rbtree \<Rightarrow> ptr \<Rightarrow> ptr \<Rightarrow> ptr option" where
  "rbsubtree_min_loop T node sentinel = do {
     l \<leftarrow> get T node left;
     if l \<noteq> sentinel then rbsubtree_min_loop T l sentinel else Some node
   }"

definition util_rbsubtree_min :: "util_rbtree \<Rightarrow> ptr \<Rightarrow> ptr \<Rightarrow> ptr option" where
  "util_rbsubtree_min T node sentinel =
     (if node = sentinel then Some NULL else rbsubtree_min_loop T node sentinel)"

partial_function (option) rbsubtree_max_loop :: "util_rbtree \<Rightarrow> ptr \<Rightarrow> ptr \<Rightarrow> ptr option" where
  "rbsubtree_max_loop T node sentinel = do {
     r \<leftarrow> get T node right;
     if r \<noteq> sentinel then rbsubtree_max_loop T r sentinel else Some node
   }"

definition util_rbsubtree_max :: "util_rbtree \<Rightarrow> ptr \<Rightarrow> ptr \<Rightarrow> ptr option" where
  "util_rbsubtree_max T node sentinel =
     (if node = sentinel then Some NULL else rbsubtree_max_loop T node sentinel)"

subsection \<open>Rotations\<close>

definition rbtree_left_rotate :: "util_rbtree \<Rightarrow> ptr \<Rightarrow> util_rbtree option" where
  "rbtree_left_rotate T node = do {
     rc \<leftarrow> get T node right;
     rclc \<leftarrow> get T rc left;
     np \<leftarrow> get T node parent;
     T \<leftarrow> set_parent T rc np;
     T \<leftarrow> (if node = root T then Some (T\<lparr>root := rc\<rparr>)
          else do {
            np \<leftarrow> get T node parent;
            npl \<leftarrow> get T np left;
            if npl = node then set_left T np rc else set_right T np rc
          });
     T \<leftarrow> set_parent T node rc;
     T \<leftarrow> set_left T rc node;
     T \<leftarrow> set_right T node rclc;
     if rclc \<noteq> null T then set_parent T rclc node else Some T
   }"

definition rbtree_right_rotate :: "util_rbtree \<Rightarrow> ptr \<Rightarrow> util_rbtree option" where
  "rbtree_right_rotate T node = do {
     lc \<leftarrow> get T node left;
     lcrc \<leftarrow> get T lc right;
     np \<leftarrow> get T node parent;
     T \<leftarrow> set_parent T lc np;
     T \<leftarrow> (if node = root T then Some (T\<lparr>root := lc\<rparr>)
          else do {
            np \<leftarrow> get T node parent;
            npl \<leftarrow> get T np left;
            if npl = node then set_left T np lc else set_right T np lc
          });
     T \<leftarrow> set_right T lc node;
     T \<leftarrow> set_parent T node lc;
     T \<leftarrow> set_left T node lcrc;
     if lcrc \<noteq> null T then set_parent T lcrc node else Some T
   }"

subsection \<open>Insertion\<close>

partial_function (option) insert_fixup_loop :: "util_rbtree \<Rightarrow> ptr \<Rightarrow> util_rbtree option" where
  "insert_fixup_loop T node = do {
     p \<leftarrow> get T node parent;
     pred \<leftarrow> util_rbt_isred T p;
     if pred then do {
       g \<leftarrow> get T p parent;
       gl \<leftarrow> get T g left;
       if p = gl then do {
         u \<leftarrow> get T g right;
         ured \<leftarrow> util_rbt_isred T u;
         if ured then do {
           T \<leftarrow> util_rbt_black T u;
           T \<leftarrow> util_rbt_black T p;
           g \<leftarrow> get T p parent;
           T \<leftarrow> util_rbt_red T g;
           node \<leftarrow> get T p parent;
           insert_fixup_loop T node
         } else do {
           pr \<leftarrow> get T p right;
           (T, node, p) \<leftarrow> (if node = pr then do {
               T \<leftarrow> rbtree_left_rotate T p;
               p' \<leftarrow> get T p parent;
               Some (T, p, p')
             } else Some (T, node, p));
           T \<leftarrow> util_rbt_black T p;
           g \<leftarrow> get T p parent;
           T \<leftarrow> util_rbt_red T g;
           g \<leftarrow> get T p parent;
           T \<leftarrow> rbtree_right_rotate T g;
           insert_fixup_loop T node
         }
       } else do {
         u \<leftarrow> get T g left;
         ured \<leftarrow> util_rbt_isred T u;
         if ured then do {
           T \<leftarrow> util_rbt_black T u;
           T \<leftarrow> util_rbt_black T p;
           g \<leftarrow> get T p parent;
           T \<leftarrow> util_rbt_red T g;
           node \<leftarrow> get T p parent;
           insert_fixup_loop T node
         } else do {
           pl \<leftarrow> get T p left;
           (T, node, p) \<leftarrow> (if pl = node then do {
               T \<leftarrow> rbtree_right_rotate T p;
               p' \<leftarrow> get T p parent;
               Some (T, p, p')
             } else Some (T, node, p));
           T \<leftarrow> util_rbt_black T p;
           g \<leftarrow> get T p parent;
           T \<leftarrow> util_rbt_red T g;
           g \<leftarrow> get T p parent;
           T \<leftarrow> rbtree_left_rotate T g;
           insert_fixup_loop T node
         }
       }
     } else Some T
   }"

definition rbtree_insert_fixup :: "util_rbtree \<Rightarrow> ptr \<Rightarrow> util_rbtree option" where
  "rbtree_insert_fixup T node = do {
     T \<leftarrow> insert_fixup_loop T node;
     util_rbt_black T (root T)
   }"

text \<open>The descent to the new node's parent (\<open>y\<close> is unset before the first iteration).\<close>

partial_function (option) insert_pos :: "util_rbtree \<Rightarrow> ptr \<Rightarrow> ptr \<Rightarrow> ptr \<Rightarrow> ptr option" where
  "insert_pos T node x y =
     (if x \<noteq> null T then do {
        nk \<leftarrow> get T node key;
        xk \<leftarrow> get T x key;
        if nk < xk then do { l \<leftarrow> get T x left; insert_pos T node l x }
        else do { r \<leftarrow> get T x right; insert_pos T node r x }
      } else Some y)"

definition util_rbtree_insert :: "util_rbtree \<Rightarrow> ptr \<Rightarrow> util_rbtree option" where
  "util_rbtree_insert T node =
     (if node = NULL \<or> node = null T then Some T
      else do {
        T \<leftarrow> (if root T = null T then set_parent (T\<lparr>root := node\<rparr>) node (null T)
             else do {
               y \<leftarrow> insert_pos T node (root T) NULL;
               T \<leftarrow> set_parent T node y;
               nk \<leftarrow> get T node key;
               yk \<leftarrow> get T y key;
               if nk < yk then set_left T y node else set_right T y node
             });
        T \<leftarrow> set_left T node (null T);
        T \<leftarrow> set_right T node (null T);
        T \<leftarrow> util_rbt_red T node;
        T \<leftarrow> rbtree_insert_fixup T node;
        Some (T\<lparr>rsize := rsize T + 1\<rparr>)
      })"

subsection \<open>Deletion\<close>

text \<open>
  The fix-up loop, the C variable \<open>h\<close> of which only counts iterations. Each direction of its
  body is two definitions: the sibling \<open>w\<close>, rotated up first when it is red, and the step at
  a black sibling, which gives the node of the next iteration.
\<close>

definition delete_sibling_left :: "util_rbtree \<Rightarrow> ptr \<Rightarrow> (util_rbtree \<times> ptr) option" where
  "delete_sibling_left T node = do {
     np \<leftarrow> get T node parent;
     w \<leftarrow> get T np right;
     wred \<leftarrow> util_rbt_isred T w;
     if wred then do {
       T \<leftarrow> util_rbt_black T w;
       np \<leftarrow> get T node parent;
       T \<leftarrow> util_rbt_red T np;
       np \<leftarrow> get T node parent;
       T \<leftarrow> rbtree_left_rotate T np;
       np \<leftarrow> get T node parent;
       w \<leftarrow> get T np right;
       Some (T, w)
     } else Some (T, w)
   }"

definition delete_step_left :: "util_rbtree \<Rightarrow> ptr \<Rightarrow> ptr \<Rightarrow> (util_rbtree \<times> ptr) option" where
  "delete_step_left T node w = do {
     wl \<leftarrow> get T w left;
     wlb \<leftarrow> util_rbt_isblack T wl;
     both \<leftarrow> (if wlb then do { wr \<leftarrow> get T w right; util_rbt_isblack T wr } else Some False);
     if both then do {
       T \<leftarrow> util_rbt_red T w;
       np \<leftarrow> get T node parent;
       Some (T, np)
     } else do {
       wr \<leftarrow> get T w right;
       wrb \<leftarrow> util_rbt_isblack T wr;
       (T, w) \<leftarrow> (if wrb then do {
           wl \<leftarrow> get T w left;
           T \<leftarrow> util_rbt_black T wl;
           T \<leftarrow> util_rbt_red T w;
           T \<leftarrow> rbtree_right_rotate T w;
           np \<leftarrow> get T node parent;
           w \<leftarrow> get T np right;
           Some (T, w)
         } else Some (T, w));
       np \<leftarrow> get T node parent;
       pc \<leftarrow> get T np color;
       T \<leftarrow> put T w (color_update (\<lambda>_. pc));
       T \<leftarrow> util_rbt_black T np;
       wr \<leftarrow> get T w right;
       T \<leftarrow> util_rbt_black T wr;
       np \<leftarrow> get T node parent;
       T \<leftarrow> rbtree_left_rotate T np;
       Some (T, root T)
     }
   }"

definition delete_sibling_right :: "util_rbtree \<Rightarrow> ptr \<Rightarrow> (util_rbtree \<times> ptr) option" where
  "delete_sibling_right T node = do {
     np \<leftarrow> get T node parent;
     w \<leftarrow> get T np left;
     wred \<leftarrow> util_rbt_isred T w;
     if wred then do {
       T \<leftarrow> util_rbt_black T w;
       np \<leftarrow> get T node parent;
       T \<leftarrow> util_rbt_red T np;
       np \<leftarrow> get T node parent;
       T \<leftarrow> rbtree_right_rotate T np;
       np \<leftarrow> get T node parent;
       w \<leftarrow> get T np left;
       Some (T, w)
     } else Some (T, w)
   }"

definition delete_step_right :: "util_rbtree \<Rightarrow> ptr \<Rightarrow> ptr \<Rightarrow> (util_rbtree \<times> ptr) option" where
  "delete_step_right T node w = do {
     wl \<leftarrow> get T w left;
     wlb \<leftarrow> util_rbt_isblack T wl;
     both \<leftarrow> (if wlb then do { wr \<leftarrow> get T w right; util_rbt_isblack T wr } else Some False);
     if both then do {
       T \<leftarrow> util_rbt_red T w;
       np \<leftarrow> get T node parent;
       Some (T, np)
     } else do {
       wl \<leftarrow> get T w left;
       wlb \<leftarrow> util_rbt_isblack T wl;
       (T, w) \<leftarrow> (if wlb then do {
           wr \<leftarrow> get T w right;
           T \<leftarrow> util_rbt_black T wr;
           T \<leftarrow> util_rbt_red T w;
           T \<leftarrow> rbtree_left_rotate T w;
           np \<leftarrow> get T node parent;
           w \<leftarrow> get T np left;
           Some (T, w)
         } else Some (T, w));
       np \<leftarrow> get T node parent;
       pc \<leftarrow> get T np color;
       T \<leftarrow> put T w (color_update (\<lambda>_. pc));
       T \<leftarrow> util_rbt_black T np;
       wl \<leftarrow> get T w left;
       T \<leftarrow> util_rbt_black T wl;
       np \<leftarrow> get T node parent;
       T \<leftarrow> rbtree_right_rotate T np;
       Some (T, root T)
     }
   }"

partial_function (option) delete_fixup_loop :: "util_rbtree \<Rightarrow> ptr \<Rightarrow> (util_rbtree \<times> ptr) option" where
  "delete_fixup_loop T node =
     (if node = root T then Some (T, node)
      else do {
        nblack \<leftarrow> util_rbt_isblack T node;
        if \<not> nblack then Some (T, node)
        else do {
          np \<leftarrow> get T node parent;
          npl \<leftarrow> get T np left;
          if node = npl then do {
            (T, w) \<leftarrow> delete_sibling_left T node;
            (T, node) \<leftarrow> delete_step_left T node w;
            delete_fixup_loop T node
          } else do {
            (T, w) \<leftarrow> delete_sibling_right T node;
            (T, node) \<leftarrow> delete_step_right T node w;
            delete_fixup_loop T node
          }
        }
      })"

definition rbtree_delete_fixup :: "util_rbtree \<Rightarrow> ptr \<Rightarrow> util_rbtree option" where
  "rbtree_delete_fixup T node = do {
     (T, node) \<leftarrow> delete_fixup_loop T node;
     util_rbt_black T node
   }"

text \<open>
  The body of \<open>util_rbtree_delete\<close> in its four parts: the node \<open>temp\<close> that leaves its
  position and the child \<open>subst\<close> that takes it; unlinking \<open>temp\<close>; putting \<open>temp\<close> in the
  place of \<open>node\<close>; and the whole.
\<close>

definition delete_find :: "util_rbtree \<Rightarrow> ptr \<Rightarrow> (ptr \<times> ptr) option" where
  "delete_find T node = do {
     nl \<leftarrow> get T node left;
     if nl = null T then do {
       nr \<leftarrow> get T node right;
       Some (node, nr)
     } else do {
       nr \<leftarrow> get T node right;
       if nr = null T then do {
         nl \<leftarrow> get T node left;
         Some (node, nl)
       } else do {
         temp \<leftarrow> util_rbsubtree_min T nr (null T);
         tl \<leftarrow> get T temp left;
         if tl \<noteq> null T then Some (temp, tl)
         else do { tr \<leftarrow> get T temp right; Some (temp, tr) }
       }
     }
   }"

definition delete_unlink :: "util_rbtree \<Rightarrow> ptr \<Rightarrow> ptr \<Rightarrow> ptr \<Rightarrow> util_rbtree option" where
  "delete_unlink T node temp subst = do {
     tp \<leftarrow> get T temp parent;
     T \<leftarrow> (if tp = node then set_parent T subst temp else set_parent T subst tp);
     tp \<leftarrow> get T temp parent;
     tpl \<leftarrow> get T tp left;
     if temp = tpl then set_left T tp subst else set_right T tp subst
   }"

definition delete_replace :: "util_rbtree \<Rightarrow> ptr \<Rightarrow> ptr \<Rightarrow> util_rbtree option" where
  "delete_replace T node temp =
     (if temp \<noteq> node then do {
        np \<leftarrow> get T node parent;
        T \<leftarrow> set_parent T temp np;
        T \<leftarrow> (if node = root T then Some (T\<lparr>root := temp\<rparr>)
             else do {
               np \<leftarrow> get T node parent;
               npl \<leftarrow> get T np left;
               if npl = node then set_left T np temp else set_right T np temp
             });
        nr \<leftarrow> get T node right;
        T \<leftarrow> set_right T temp nr;
        nl \<leftarrow> get T node left;
        T \<leftarrow> set_left T temp nl;
        tl \<leftarrow> get T temp left;
        T \<leftarrow> (if tl \<noteq> null T then set_parent T tl temp else Some T);
        tr \<leftarrow> get T temp right;
        T \<leftarrow> (if tr \<noteq> null T then set_parent T tr temp else Some T);
        nc \<leftarrow> get T node color;
        put T temp (color_update (\<lambda>_. nc))
      } else Some T)"

definition util_rbtree_delete :: "util_rbtree \<Rightarrow> ptr \<Rightarrow> util_rbtree option" where
  "util_rbtree_delete T node =
     (if node = NULL \<or> node = null T then Some T
      else do {
        T \<leftarrow> Some (T\<lparr>rsize := rsize T - 1\<rparr>);
        (temp, subst) \<leftarrow> delete_find T node;
        if temp = root T then do {
          T \<leftarrow> util_rbt_black (T\<lparr>root := subst\<rparr>) subst;
          rbt_clear_node T temp
        } else do {
          isblack \<leftarrow> util_rbt_isblack T temp;
          T \<leftarrow> delete_unlink T node temp subst;
          T \<leftarrow> delete_replace T node temp;
          T \<leftarrow> rbt_clear_node T node;
          if isblack then rbtree_delete_fixup T subst else Some T
        }
      })"

subsection \<open>Search, lookup and traversal\<close>

partial_function (option) rbtree_search_loop :: "util_rbtree \<Rightarrow> int \<Rightarrow> ptr \<Rightarrow> ptr option" where
  "rbtree_search_loop T k node =
     (if node \<noteq> null T then do {
        nk \<leftarrow> get T node key;
        if k < nk then do { l \<leftarrow> get T node left; rbtree_search_loop T k l }
        else if k > nk then do { r \<leftarrow> get T node right; rbtree_search_loop T k r }
        else Some node
      } else Some NULL)"

definition util_rbtree_search :: "util_rbtree \<Rightarrow> int \<Rightarrow> ptr option" where
  "util_rbtree_search T k = rbtree_search_loop T k (root T)"

partial_function (option) rbtree_lookup_loop :: "util_rbtree \<Rightarrow> int \<Rightarrow> ptr \<Rightarrow> ptr \<Rightarrow> ptr option" where
  "rbtree_lookup_loop T k node temp =
     (if temp \<noteq> null T then do {
        tk \<leftarrow> get T temp key;
        if k \<le> tk then do { l \<leftarrow> get T temp left; rbtree_lookup_loop T k temp l }
        else do { r \<leftarrow> get T temp right; rbtree_lookup_loop T k node r }
      } else Some node)"

definition util_rbtree_lookup :: "util_rbtree \<Rightarrow> int \<Rightarrow> ptr option" where
  "util_rbtree_lookup T k =
     (if \<not> util_rbtree_isempty T then do {
        node \<leftarrow> rbtree_lookup_loop T k NULL (root T);
        if node \<noteq> NULL then Some node else util_rbsubtree_min T (root T) (null T)
      } else Some NULL)"

text \<open>\<open>opera\<close> is the callback: it sees the node's fields and updates the caller's data.\<close>

partial_function (option) rbtree_mid_travel ::
    "util_rbtree \<Rightarrow> (rbnode \<Rightarrow> 's \<Rightarrow> 's) \<Rightarrow> ptr \<Rightarrow> ptr \<Rightarrow> 's \<Rightarrow> 's option" where
  "rbtree_mid_travel T opera node sentinel s = do {
     l \<leftarrow> get T node left;
     s \<leftarrow> (if l \<noteq> sentinel then rbtree_mid_travel T opera l sentinel s else Some s);
     n \<leftarrow> get T node (\<lambda>n. n);
     s \<leftarrow> Some (opera n s);
     r \<leftarrow> get T node right;
     if r \<noteq> sentinel then rbtree_mid_travel T opera r sentinel s else Some s
   }"

definition util_rbtree_mid_travel ::
    "util_rbtree \<Rightarrow> (rbnode \<Rightarrow> 's \<Rightarrow> 's) \<Rightarrow> 's \<Rightarrow> 's option" where
  "util_rbtree_mid_travel T opera s =
     (if \<not> util_rbtree_isempty T then rbtree_mid_travel T opera (root T) (null T) s else Some s)"

subsection \<open>The self-check\<close>

record rbtree_check =
  rbh :: int
  maxd :: int
  fini :: int

definition check_rb_height :: "rbtree_check \<Rightarrow> int \<Rightarrow> int \<Rightarrow> rbtree_check" where
  "check_rb_height c level curheight =
     (let c = (if rbh c = 0 then c\<lparr>rbh := curheight\<rparr> else c);
          c = (if maxd c < level then c\<lparr>maxd := level\<rparr> else c)
      in if rbh c \<noteq> curheight then c\<lparr>fini := 3\<rparr> else c)"

text \<open>
  The C \<open>goto __check_rb_height\<close> on a missing left child skips the right subtree. Heights and
  depths are C \<open>short\<close> and \<open>int\<close> values; they are far below the bounds of either type for any
  tree that fits in memory and are \<open>int\<close> here.
\<close>

partial_function (option) rbtree_check_subtree ::
    "util_rbtree \<Rightarrow> ptr \<Rightarrow> rbtree_check \<Rightarrow> int \<Rightarrow> int \<Rightarrow> rbtree_check option" where
  "rbtree_check_subtree T node c level curheight =
     (if fini c \<noteq> 0 then Some c
      else do {
        n \<leftarrow> get T node (\<lambda>n. n);
        if color n \<noteq> 1 \<and> color n \<noteq> 0 then Some (c\<lparr>fini := 2\<rparr>)
        else do {
          curheight \<leftarrow> Some (if color n = 1 then curheight + 1 else curheight);
          if left n \<noteq> null T then do {
            l \<leftarrow> get T (left n) (\<lambda>n. n);
            if color n = 0 \<and> color l = 0 then Some (c\<lparr>fini := 4\<rparr>)
            else if key n < key l then Some (c\<lparr>fini := 5\<rparr>)
            else do {
              c \<leftarrow> rbtree_check_subtree T (left n) c (level + 1) curheight;
              if right n \<noteq> null T then do {
                r \<leftarrow> get T (right n) (\<lambda>n. n);
                if color n = 0 \<and> color r = 0 then Some (c\<lparr>fini := 4\<rparr>)
                else if key n > key r then Some (c\<lparr>fini := 5\<rparr>)
                else rbtree_check_subtree T (right n) c (level + 1) curheight
              } else Some (check_rb_height c level curheight)
            }
          } else Some (check_rb_height c level curheight)
        }
      })"

definition util_rbtree_check :: "util_rbtree \<Rightarrow> (int \<times> rbtree_check) option" where
  "util_rbtree_check T =
     (if root T = null T then Some (0, \<lparr>rbh = 0, maxd = 0, fini = 0\<rparr>)
      else do {
        rblack \<leftarrow> util_rbt_isblack T (root T);
        if \<not> rblack then Some (1, \<lparr>rbh = 0, maxd = 0, fini = 0\<rparr>)
        else do {
          c \<leftarrow> rbtree_check_subtree T (root T) \<lparr>rbh = 0, maxd = 0, fini = 0\<rparr> 1 0;
          Some (fini c, c)
        }
      })"

end
