(* ===== verification/Md5.thy ===== *)
theory Md5
  imports Prelude
begin

text \<open>
  \<open>src/libconhash/md5.c\<close>: MD5 over a streaming state. The four registers are a tuple, the
  macro \<open>SET\<close> assigns to its first argument, and a block is a list of 64 bytes that both
  byte orders of the code read as 16 little-endian words. Reads of the caller's data and
  \<open>memcpy\<close> into the 64-byte buffer are bounds-checked: a fault is \<open>None\<close>, and so is the overflow of the signed sum
  \<open>offset + nbytes\<close>. The shift \<open>nbytes << 3\<close> is taken modulo \<open>2^32\<close>.
\<close>

unbundle bit_operations_syntax

subsection \<open>The compression function\<close>

type_synonym regs = "u32 \<times> u32 \<times> u32 \<times> u32"

record md5_state =
  count0 :: u32
  count1 :: u32
  abcd :: regs
  buf :: "u8 list"

definition T_MASK :: u32 where
  "T_MASK = NOT 0"

definition md5_T :: "u32 list" where
  "md5_T = [T_MASK XOR 0x28955b87, T_MASK XOR 0x173848a9, 0x242070db, T_MASK XOR 0x3e423111,
     T_MASK XOR 0x0a83f050, 0x4787c62a, T_MASK XOR 0x57cfb9ec, T_MASK XOR 0x02b96afe,
     0x698098d8, T_MASK XOR 0x74bb0850, T_MASK XOR 0x0000a44e, T_MASK XOR 0x76a32841,
     0x6b901122, T_MASK XOR 0x02678e6c, T_MASK XOR 0x5986bc71, 0x49b40821,
     T_MASK XOR 0x09e1da9d, T_MASK XOR 0x3fbf4cbf, 0x265e5a51, T_MASK XOR 0x16493855,
     T_MASK XOR 0x29d0efa2, 0x02441453, T_MASK XOR 0x275e197e, T_MASK XOR 0x182c0437,
     0x21e1cde6, T_MASK XOR 0x3cc8f829, T_MASK XOR 0x0b2af278, 0x455a14ed,
     T_MASK XOR 0x561c16fa, T_MASK XOR 0x03105c07, 0x676f02d9, T_MASK XOR 0x72d5b375,
     T_MASK XOR 0x0005c6bd, T_MASK XOR 0x788e097e, 0x6d9d6122, T_MASK XOR 0x021ac7f3,
     T_MASK XOR 0x5b4115bb, 0x4bdecfa9, T_MASK XOR 0x0944b49f, T_MASK XOR 0x4140438f,
     0x289b7ec6, T_MASK XOR 0x155ed805, T_MASK XOR 0x2b10cf7a, 0x04881d05,
     T_MASK XOR 0x262b2fc6, T_MASK XOR 0x1924661a, 0x1fa27cf8, T_MASK XOR 0x3b53a99a,
     T_MASK XOR 0x0bd6ddbb, 0x432aff97, T_MASK XOR 0x546bdc58, T_MASK XOR 0x036c5fc6,
     0x655b59c3, T_MASK XOR 0x70f3336d, T_MASK XOR 0x00100b82, T_MASK XOR 0x7a7ba22e,
     0x6fa87e4f, T_MASK XOR 0x01d3191f, T_MASK XOR 0x5cfebceb, 0x4e0811a1,
     T_MASK XOR 0x08ac817d, T_MASK XOR 0x42c50dca, 0x2ad7d2bb, T_MASK XOR 0x14792c6e]"

definition ROTATE_LEFT :: "u32 \<Rightarrow> nat \<Rightarrow> u32" where
  "ROTATE_LEFT x n = push_bit n x OR drop_bit (32 - n) x"

definition md5_F :: "u32 \<Rightarrow> u32 \<Rightarrow> u32 \<Rightarrow> u32" where
  "md5_F x y z = (x AND y) OR (NOT x AND z)"

definition md5_G :: "u32 \<Rightarrow> u32 \<Rightarrow> u32 \<Rightarrow> u32" where
  "md5_G x y z = (x AND z) OR (y AND NOT z)"

definition md5_H :: "u32 \<Rightarrow> u32 \<Rightarrow> u32 \<Rightarrow> u32" where
  "md5_H x y z = x XOR y XOR z"

definition md5_I :: "u32 \<Rightarrow> u32 \<Rightarrow> u32 \<Rightarrow> u32" where
  "md5_I x y z = y XOR (x OR NOT z)"

text \<open>\<open>t = a + f(b, c, d) + X[k] + Ti; a = ROTATE_LEFT(t, s) + b\<close>\<close>

definition SET :: "(u32 \<Rightarrow> u32 \<Rightarrow> u32 \<Rightarrow> u32) \<Rightarrow> u32 \<Rightarrow> u32 \<Rightarrow> u32 \<Rightarrow> u32 \<Rightarrow> u32 \<Rightarrow> nat \<Rightarrow> u32 \<Rightarrow> u32" where
  "SET f a b c d xk s Ti = ROTATE_LEFT (a + f b c d + xk + Ti) s + b"

definition md5_round1 :: "u32 list \<Rightarrow> regs \<Rightarrow> regs" where
  "md5_round1 X r =
     (case r of (a, b, c, d) \<Rightarrow> let
          a = SET md5_F a b c d (X ! 0) 7 (md5_T ! 0);
          d = SET md5_F d a b c (X ! 1) 12 (md5_T ! 1);
          c = SET md5_F c d a b (X ! 2) 17 (md5_T ! 2);
          b = SET md5_F b c d a (X ! 3) 22 (md5_T ! 3);
          a = SET md5_F a b c d (X ! 4) 7 (md5_T ! 4);
          d = SET md5_F d a b c (X ! 5) 12 (md5_T ! 5);
          c = SET md5_F c d a b (X ! 6) 17 (md5_T ! 6);
          b = SET md5_F b c d a (X ! 7) 22 (md5_T ! 7);
          a = SET md5_F a b c d (X ! 8) 7 (md5_T ! 8);
          d = SET md5_F d a b c (X ! 9) 12 (md5_T ! 9);
          c = SET md5_F c d a b (X ! 10) 17 (md5_T ! 10);
          b = SET md5_F b c d a (X ! 11) 22 (md5_T ! 11);
          a = SET md5_F a b c d (X ! 12) 7 (md5_T ! 12);
          d = SET md5_F d a b c (X ! 13) 12 (md5_T ! 13);
          c = SET md5_F c d a b (X ! 14) 17 (md5_T ! 14);
          b = SET md5_F b c d a (X ! 15) 22 (md5_T ! 15)
      in (a, b, c, d))"

definition md5_round2 :: "u32 list \<Rightarrow> regs \<Rightarrow> regs" where
  "md5_round2 X r =
     (case r of (a, b, c, d) \<Rightarrow> let
          a = SET md5_G a b c d (X ! 1) 5 (md5_T ! 16);
          d = SET md5_G d a b c (X ! 6) 9 (md5_T ! 17);
          c = SET md5_G c d a b (X ! 11) 14 (md5_T ! 18);
          b = SET md5_G b c d a (X ! 0) 20 (md5_T ! 19);
          a = SET md5_G a b c d (X ! 5) 5 (md5_T ! 20);
          d = SET md5_G d a b c (X ! 10) 9 (md5_T ! 21);
          c = SET md5_G c d a b (X ! 15) 14 (md5_T ! 22);
          b = SET md5_G b c d a (X ! 4) 20 (md5_T ! 23);
          a = SET md5_G a b c d (X ! 9) 5 (md5_T ! 24);
          d = SET md5_G d a b c (X ! 14) 9 (md5_T ! 25);
          c = SET md5_G c d a b (X ! 3) 14 (md5_T ! 26);
          b = SET md5_G b c d a (X ! 8) 20 (md5_T ! 27);
          a = SET md5_G a b c d (X ! 13) 5 (md5_T ! 28);
          d = SET md5_G d a b c (X ! 2) 9 (md5_T ! 29);
          c = SET md5_G c d a b (X ! 7) 14 (md5_T ! 30);
          b = SET md5_G b c d a (X ! 12) 20 (md5_T ! 31)
      in (a, b, c, d))"

definition md5_round3 :: "u32 list \<Rightarrow> regs \<Rightarrow> regs" where
  "md5_round3 X r =
     (case r of (a, b, c, d) \<Rightarrow> let
          a = SET md5_H a b c d (X ! 5) 4 (md5_T ! 32);
          d = SET md5_H d a b c (X ! 8) 11 (md5_T ! 33);
          c = SET md5_H c d a b (X ! 11) 16 (md5_T ! 34);
          b = SET md5_H b c d a (X ! 14) 23 (md5_T ! 35);
          a = SET md5_H a b c d (X ! 1) 4 (md5_T ! 36);
          d = SET md5_H d a b c (X ! 4) 11 (md5_T ! 37);
          c = SET md5_H c d a b (X ! 7) 16 (md5_T ! 38);
          b = SET md5_H b c d a (X ! 10) 23 (md5_T ! 39);
          a = SET md5_H a b c d (X ! 13) 4 (md5_T ! 40);
          d = SET md5_H d a b c (X ! 0) 11 (md5_T ! 41);
          c = SET md5_H c d a b (X ! 3) 16 (md5_T ! 42);
          b = SET md5_H b c d a (X ! 6) 23 (md5_T ! 43);
          a = SET md5_H a b c d (X ! 9) 4 (md5_T ! 44);
          d = SET md5_H d a b c (X ! 12) 11 (md5_T ! 45);
          c = SET md5_H c d a b (X ! 15) 16 (md5_T ! 46);
          b = SET md5_H b c d a (X ! 2) 23 (md5_T ! 47)
      in (a, b, c, d))"

definition md5_round4 :: "u32 list \<Rightarrow> regs \<Rightarrow> regs" where
  "md5_round4 X r =
     (case r of (a, b, c, d) \<Rightarrow> let
          a = SET md5_I a b c d (X ! 0) 6 (md5_T ! 48);
          d = SET md5_I d a b c (X ! 7) 10 (md5_T ! 49);
          c = SET md5_I c d a b (X ! 14) 15 (md5_T ! 50);
          b = SET md5_I b c d a (X ! 5) 21 (md5_T ! 51);
          a = SET md5_I a b c d (X ! 12) 6 (md5_T ! 52);
          d = SET md5_I d a b c (X ! 3) 10 (md5_T ! 53);
          c = SET md5_I c d a b (X ! 10) 15 (md5_T ! 54);
          b = SET md5_I b c d a (X ! 1) 21 (md5_T ! 55);
          a = SET md5_I a b c d (X ! 8) 6 (md5_T ! 56);
          d = SET md5_I d a b c (X ! 15) 10 (md5_T ! 57);
          c = SET md5_I c d a b (X ! 6) 15 (md5_T ! 58);
          b = SET md5_I b c d a (X ! 13) 21 (md5_T ! 59);
          a = SET md5_I a b c d (X ! 4) 6 (md5_T ! 60);
          d = SET md5_I d a b c (X ! 11) 10 (md5_T ! 61);
          c = SET md5_I c d a b (X ! 2) 15 (md5_T ! 62);
          b = SET md5_I b c d a (X ! 9) 21 (md5_T ! 63)
      in (a, b, c, d))"

fun le_words :: "u8 list \<Rightarrow> u32 list" where
  "le_words (b0 # b1 # b2 # b3 # bs) =
     (ucast b0 + push_bit 8 (ucast b1) + push_bit 16 (ucast b2) + push_bit 24 (ucast b3)) # le_words bs"
| "le_words bs = []"

definition md5_compress :: "regs \<Rightarrow> u8 list \<Rightarrow> regs" where
  "md5_compress r data =
     (let X = le_words data;
          (a, b, c, d) = md5_round4 X (md5_round3 X (md5_round2 X (md5_round1 X r)));
          (a0, b0, c0, d0) = r
      in (a0 + a, b0 + b, c0 + c, d0 + d))"

definition md5_process :: "md5_state \<Rightarrow> u8 list \<Rightarrow> md5_state" where
  "md5_process pms data = pms\<lparr>abcd := md5_compress (abcd pms) data\<rparr>"

subsection \<open>The streaming interface\<close>

definition md5_init :: "md5_state \<Rightarrow> md5_state" where
  "md5_init pms = pms\<lparr>count0 := 0, count1 := 0,
     abcd := (0x67452301, T_MASK XOR 0x10325476, T_MASK XOR 0x67452301, 0x10325476)\<rparr>"

definition slice :: "u8 list \<Rightarrow> nat \<Rightarrow> nat \<Rightarrow> u8 list option" where
  "slice bs p n = (if p + n \<le> length bs then Some (take n (drop p bs)) else None)"

definition memcpy :: "u8 list \<Rightarrow> nat \<Rightarrow> u8 list \<Rightarrow> u8 list option" where
  "memcpy dst off src =
     (if off + length src \<le> length dst then Some (take off dst @ src @ drop (off + length src) dst) else None)"

text \<open>The loop over full blocks and the copy of the rest.\<close>

function md5_blocks :: "md5_state \<Rightarrow> u8 list \<Rightarrow> nat \<Rightarrow> int \<Rightarrow> (md5_state \<times> nat \<times> int) option" where
  "md5_blocks pms data p left =
     (if left \<ge> 64 then do {
        blk \<leftarrow> slice data p 64;
        md5_blocks (md5_process pms blk) data (p + 64) (left - 64)
      } else Some (pms, p, left))"
  by auto
termination by (relation "measure (\<lambda>(pms, data, p, left). nat left)") auto

declare md5_blocks.simps [simp del]

definition md5_tail :: "md5_state \<Rightarrow> u8 list \<Rightarrow> nat \<Rightarrow> int \<Rightarrow> md5_state option" where
  "md5_tail pms data p left = do {
     (pms, p, left) \<leftarrow> md5_blocks pms data p left;
     if left \<noteq> 0 then do {
       rest \<leftarrow> slice data p (nat left);
       b \<leftarrow> memcpy (buf pms) 0 rest;
       Some (pms\<lparr>buf := b\<rparr>)
     } else Some pms
   }"

text \<open>The message length, in bits, as two words with a carry.\<close>

definition md5_count :: "md5_state \<Rightarrow> int \<Rightarrow> md5_state" where
  "md5_count pms nbytes =
     (let nbits = push_bit 3 (of_int nbytes);
          pms = pms\<lparr>count1 := count1 pms + of_int (nbytes div 2 ^ 29)\<rparr>;
          pms = pms\<lparr>count0 := count0 pms + nbits\<rparr>
      in if count0 pms < nbits then pms\<lparr>count1 := count1 pms + 1\<rparr> else pms)"

definition md5_append :: "md5_state \<Rightarrow> u8 list \<Rightarrow> int \<Rightarrow> md5_state option" where
  "md5_append pms data nbytes =
     (let offset = unat (drop_bit 3 (count0 pms) AND 63)
      in if nbytes \<le> 0 then Some pms
      else do {
        pms \<leftarrow> Some (md5_count pms nbytes);
        if offset \<noteq> 0 then do {
          copy \<leftarrow> (if int offset + nbytes \<ge> 2 ^ 31 then None
                   else Some (if int offset + nbytes > 64 then 64 - offset else nat nbytes));
          src \<leftarrow> slice data 0 copy;
          b \<leftarrow> memcpy (buf pms) offset src;
          pms \<leftarrow> Some (pms\<lparr>buf := b\<rparr>);
          if offset + copy < 64 then Some pms
          else md5_tail (md5_process pms (buf pms)) data copy (nbytes - int copy)
        } else md5_tail pms data 0 nbytes
      })"

definition md5_pad :: "u8 list" where
  "md5_pad = 0x80 # replicate 63 0"

text \<open>\<open>(md5_byte_t)(w[i >> 2] >> ((i & 3) << 3))\<close> for successive \<open>i\<close>.\<close>

definition le_bytes :: "u32 \<Rightarrow> u8 list" where
  "le_bytes w = map (\<lambda>i. ucast (drop_bit (8 * i) w)) [0..<4]"

definition md5_finish :: "md5_state \<Rightarrow> (md5_state \<times> u8 list) option" where
  "md5_finish pms = do {
     data \<leftarrow> Some (le_bytes (count0 pms) @ le_bytes (count1 pms));
     pms \<leftarrow> md5_append pms md5_pad (uint (((55 - drop_bit 3 (count0 pms)) AND 63) + 1));
     pms \<leftarrow> md5_append pms data 8;
     (case abcd pms of (a, b, c, d) \<Rightarrow>
       Some (pms, le_bytes a @ le_bytes b @ le_bytes c @ le_bytes d))
   }"

subsection \<open>The default hash of \<open>libconhash\<close>\<close>

text \<open>
  \<open>conhash_md5_digest\<close> on a C string, given without its final 0: \<open>strlen\<close> is converted to
  \<open>int\<close>, and the stack variable \<open>md5state\<close> starts uninitialised (\<open>garbage\<close>, with a 64-byte
  buffer).
\<close>

definition conhash_md5_digest :: "md5_state \<Rightarrow> u8 list \<Rightarrow> u8 list option" where
  "conhash_md5_digest garbage instr = do {
     st \<leftarrow> Some (md5_init garbage);
     st \<leftarrow> md5_append st (instr @ [0]) (sint (of_nat (length instr) :: u32));
     (st, digest) \<leftarrow> md5_finish st;
     Some digest
   }"

definition le64 :: "u8 list \<Rightarrow> nat \<Rightarrow> u64" where
  "le64 digest i = push_bit 24 (ucast (digest ! (i * 4 + 3)) AND 0xFF)
     OR push_bit 16 (ucast (digest ! (i * 4 + 2)) AND 0xFF)
     OR push_bit 8 (ucast (digest ! (i * 4 + 1)) AND 0xFF)
     OR (ucast (digest ! (i * 4)) AND 0xFF)"

definition conhash_hash_def :: "md5_state \<Rightarrow> u8 list \<Rightarrow> int option" where
  "conhash_hash_def garbage instr = do {
     digest \<leftarrow> conhash_md5_digest garbage instr;
     Some (sint (foldl (\<lambda>hash i. hash + le64 digest i) 0 [0..<4]))
   }"

end
