(* ===== verification/Conhash.thy ===== *)
theory Conhash
  imports Util_Rbtree Md5
begin

text \<open>
  \<open>src/libconhash/conhash.c\<close>, \<open>conhash_inter.c\<close> and \<open>conhash_util.c\<close>: consistent hashing.
  Every server node has \<open>replicas\<close> virtual nodes, each at the hash of its name and index; they
  are the elements of the red-black tree, keyed by hash, and an object belongs to the node of
  the first virtual node at or after the object's hash.

  The state is \<open>conhash_s\<close> with the memory it works on: the tree's own heap (in \<open>vnode_tree\<close>),
  the \<open>virtual_node_s\<close> structs (\<open>vnodes\<close>), the caller's \<open>node_s\<close> structs (\<open>nodes\<close>) and the
  allocator: \<open>mallocs\<close> lists the addresses the next calls of \<open>malloc\<close> return, \<open>NULL\<close> for a
  failure and when it is exhausted, and \<open>raw\<close> is what a fresh block holds. The hash callback
  is a function from the bytes of a C string to a \<open>long\<close>.
\<close>

subsection \<open>Data\<close>

type_synonym cstring = "u8 list"

record node_s =
  iden :: "u8 list"
  replicas :: u32
  flag :: u32

record virtual_node_s =
  vhash :: int
  vnode :: ptr

record conhash_s =
  vnode_tree :: util_rbtree
  ivnodes :: u32
  cb_hashfunc :: "cstring \<Rightarrow> int"
  vnodes :: "ptr \<rightharpoonup> virtual_node_s"
  nodes :: "ptr \<rightharpoonup> node_s"
  mallocs :: "ptr list"
  raw :: rbnode

abbreviation (input) NODE_FLAG_INIT :: u32 where
  "NODE_FLAG_INIT \<equiv> 1"

abbreviation (input) NODE_FLAG_IN :: u32 where
  "NODE_FLAG_IN \<equiv> 2"

definition malloc :: "conhash_s \<Rightarrow> ptr \<times> conhash_s" where
  "malloc C = (case mallocs C of [] \<Rightarrow> (NULL, C) | a # s \<Rightarrow> (a, C\<lparr>mallocs := s\<rparr>))"

definition heap_update :: "((ptr \<rightharpoonup> rbnode) \<Rightarrow> ptr \<rightharpoonup> rbnode) \<Rightarrow> conhash_s \<Rightarrow> conhash_s" where
  "heap_update u C = C\<lparr>vnode_tree := (vnode_tree C)\<lparr>mem := u (mem (vnode_tree C))\<rparr>\<rparr>"

subsection \<open>Strings\<close>

text \<open>The string in a char array: its bytes up to the first 0; without one, C reads past its end.\<close>

definition cstr :: "u8 list \<Rightarrow> cstring option" where
  "cstr bs = (if 0 \<in> set bs then Some (takeWhile (\<lambda>b. b \<noteq> 0) bs) else None)"

fun dec_digits :: "nat \<Rightarrow> cstring" where
  "dec_digits n = (if n < 10 then [of_nat (48 + n)] else dec_digits (n div 10) @ [of_nat (48 + n mod 10)])"

declare dec_digits.simps [simp del]

definition zero_pad :: "nat \<Rightarrow> cstring \<Rightarrow> cstring" where
  "zero_pad w s = replicate (w - length s) 48 @ s"

text \<open>\<open>printf\<close>'s \<open>%03d\<close>: width 3 with leading zeros, the sign counted in the width.\<close>

definition fmt_03d :: "int \<Rightarrow> cstring" where
  "fmt_03d i = (if i < 0 then 45 # zero_pad 2 (dec_digits (nat (- i))) else zero_pad 3 (dec_digits (nat i)))"

text \<open>\<open>snprintf(buf, 127, "%s-%03d", node->iden, replica_idx)\<close>; the unsigned index is printed as an \<open>int\<close>.\<close>

definition conhash_node2string :: "node_s \<Rightarrow> u32 \<Rightarrow> cstring option" where
  "conhash_node2string node replica_idx = do {
     s \<leftarrow> cstr (iden node);
     Some (take 126 (s @ 45 # fmt_03d (sint replica_idx)))
   }"

definition conhash_set_node :: "node_s \<Rightarrow> cstring \<Rightarrow> u32 \<Rightarrow> node_s" where
  "conhash_set_node node name replica =
     node\<lparr>iden := take 63 name @ replicate (63 - length name) 0 @ drop 63 (iden node),
          replicas := replica, flag := NODE_FLAG_INIT\<rparr>"

subsection \<open>Virtual nodes\<close>

definition conhash_get_rbnode :: "conhash_s \<Rightarrow> ptr \<Rightarrow> int \<Rightarrow> ptr \<times> conhash_s" where
  "conhash_get_rbnode C node hash =
     (let (rbnode, C) = malloc C in
      if rbnode \<noteq> NULL then
        (let C = heap_update (\<lambda>h. h(rbnode \<mapsto> (raw C)\<lparr>key := hash\<rparr>)) C;
             (d, C) = malloc C in
         if d \<noteq> NULL then
           (rbnode, (heap_update (\<lambda>h. h(rbnode \<mapsto> (raw C)\<lparr>key := hash, data := d\<rparr>)) C)
              \<lparr>vnodes := (vnodes C)(d \<mapsto> \<lparr>vhash = hash, vnode = node\<rparr>)\<rparr>)
         else (NULL, heap_update (\<lambda>h. h(rbnode := None)) C))
      else (NULL, C))"

text \<open>Freeing a block that is not allocated is a fault.\<close>

definition conhash_del_rbnode :: "conhash_s \<Rightarrow> ptr \<Rightarrow> conhash_s option" where
  "conhash_del_rbnode C rbnode = do {
     d \<leftarrow> get (vnode_tree C) rbnode data;
     load (vnodes C) d (\<lambda>v. v);
     Some (heap_update (\<lambda>h. h(rbnode := None)) (C\<lparr>vnodes := (vnodes C)(d := None)\<rparr>))
   }"

definition add_replica :: "conhash_s \<Rightarrow> ptr \<Rightarrow> u32 \<Rightarrow> conhash_s option" where
  "add_replica C node i = do {
     n \<leftarrow> load (nodes C) node (\<lambda>n. n);
     buff \<leftarrow> conhash_node2string n i;
     hash \<leftarrow> Some (cb_hashfunc C buff);
     found \<leftarrow> util_rbtree_search (vnode_tree C) hash;
     if found = NULL then
       (let (rbnode, C) = conhash_get_rbnode C node hash in
        if rbnode \<noteq> NULL then do {
          T \<leftarrow> util_rbtree_insert (vnode_tree C) rbnode;
          Some (C\<lparr>vnode_tree := T, ivnodes := ivnodes C + 1\<rparr>)
        } else Some C)
     else Some C
   }"

definition del_replica :: "conhash_s \<Rightarrow> ptr \<Rightarrow> u32 \<Rightarrow> conhash_s option" where
  "del_replica C node i = do {
     n \<leftarrow> load (nodes C) node (\<lambda>n. n);
     buff \<leftarrow> conhash_node2string n i;
     hash \<leftarrow> Some (cb_hashfunc C buff);
     rbnode \<leftarrow> util_rbtree_search (vnode_tree C) hash;
     if rbnode \<noteq> NULL then do {
       d \<leftarrow> get (vnode_tree C) rbnode data;
       v \<leftarrow> load (vnodes C) d (\<lambda>v. v);
       if vhash v = hash \<and> vnode v = node then do {
         C \<leftarrow> Some (C\<lparr>ivnodes := ivnodes C - 1\<rparr>);
         T \<leftarrow> util_rbtree_delete (vnode_tree C) rbnode;
         conhash_del_rbnode (C\<lparr>vnode_tree := T\<rparr>) rbnode
       } else Some C
     } else Some C
   }"

text \<open>The loops \<open>for(i = 0; i < node->replicas; i++)\<close> over the index values.\<close>

fun replica_loop :: "(conhash_s \<Rightarrow> ptr \<Rightarrow> u32 \<Rightarrow> conhash_s option) \<Rightarrow> conhash_s \<Rightarrow> ptr \<Rightarrow> u32 list \<Rightarrow> conhash_s option" where
  "replica_loop body C node [] = Some C"
| "replica_loop body C node (i # is) = do { C \<leftarrow> body C node i; replica_loop body C node is }"

definition replica_indices :: "node_s \<Rightarrow> u32 list" where
  "replica_indices n = map of_nat [0..<unat (replicas n)]"

definition conhash_add_replicas :: "conhash_s \<Rightarrow> ptr \<Rightarrow> conhash_s option" where
  "conhash_add_replicas C node = do {
     n \<leftarrow> load (nodes C) node (\<lambda>n. n);
     replica_loop add_replica C node (replica_indices n)
   }"

definition conhash_del_replicas :: "conhash_s \<Rightarrow> ptr \<Rightarrow> conhash_s option" where
  "conhash_del_replicas C node = do {
     n \<leftarrow> load (nodes C) node (\<lambda>n. n);
     replica_loop del_replica C node (replica_indices n)
   }"

subsection \<open>The library's interface\<close>

text \<open>
  \<open>calloc\<close> gives the \<open>conhash_s\<close> block; the sentinel's address stands for the block's. The
  default hash function runs MD5 in a stack variable that starts as \<open>garbage\<close>.
\<close>

definition conhash_init :: "md5_state \<Rightarrow> (cstring \<Rightarrow> int) option \<Rightarrow> conhash_s \<Rightarrow> (ptr \<times> conhash_s) option" where
  "conhash_init garbage pfhash C =
     (let (a, C) = malloc C in
      if a = NULL then Some (NULL, C)
      else
        (let C = C\<lparr>vnode_tree := \<lparr>root = NULL, null = a, rsize = 0, mem = (mem (vnode_tree C))
                      (a \<mapsto> \<lparr>key = 0, parent = NULL, right = NULL, left = NULL, color = 0, data = NULL\<rparr>)\<rparr>,
                   ivnodes := 0,
                   cb_hashfunc := (case pfhash of Some f \<Rightarrow> f | None \<Rightarrow> \<lambda>s. the (conhash_hash_def garbage s))\<rparr>
         in do {
           T \<leftarrow> util_rbtree_init (vnode_tree C);
           Some (a, C\<lparr>vnode_tree := T\<rparr>)
         }))"

partial_function (option) conhash_fini_loop :: "conhash_s \<Rightarrow> conhash_s option" where
  "conhash_fini_loop C =
     (if util_rbtree_isempty (vnode_tree C) then Some C
      else do {
        rbnode \<leftarrow> Some (root (vnode_tree C));
        T \<leftarrow> util_rbtree_delete (vnode_tree C) rbnode;
        C \<leftarrow> conhash_del_rbnode (C\<lparr>vnode_tree := T\<rparr>) rbnode;
        conhash_fini_loop C
      })"

definition conhash_fini :: "conhash_s \<Rightarrow> conhash_s option" where
  "conhash_fini C = do {
     C \<leftarrow> conhash_fini_loop C;
     Some (heap_update (\<lambda>h. h(null (vnode_tree C) := None)) C)
   }"

definition conhash_add_node :: "conhash_s \<Rightarrow> ptr \<Rightarrow> (int \<times> conhash_s) option" where
  "conhash_add_node C node =
     (if node = NULL then Some (-1, C)
      else do {
        n \<leftarrow> load (nodes C) node (\<lambda>n. n);
        if flag n AND NODE_FLAG_INIT = 0 \<or> flag n AND NODE_FLAG_IN \<noteq> 0 then Some (-1, C)
        else do {
          C \<leftarrow> Some (C\<lparr>nodes := (nodes C)(node \<mapsto> n\<lparr>flag := flag n OR NODE_FLAG_IN\<rparr>)\<rparr>);
          C \<leftarrow> conhash_add_replicas C node;
          Some (0, C)
        }
      })"

definition conhash_del_node :: "conhash_s \<Rightarrow> ptr \<Rightarrow> (int \<times> conhash_s) option" where
  "conhash_del_node C node =
     (if node = NULL then Some (-1, C)
      else do {
        n \<leftarrow> load (nodes C) node (\<lambda>n. n);
        if flag n AND NODE_FLAG_INIT = 0 \<or> flag n AND NODE_FLAG_IN = 0 then Some (-1, C)
        else do {
          C \<leftarrow> Some (C\<lparr>nodes := (nodes C)(node \<mapsto> n\<lparr>flag := flag n AND NOT NODE_FLAG_IN\<rparr>)\<rparr>);
          C \<leftarrow> conhash_del_replicas C node;
          Some (0, C)
        }
      })"

text \<open>\<open>NULL\<close> (no node) for an empty ring or a \<open>NULL\<close> object.\<close>

definition conhash_lookup :: "conhash_s \<Rightarrow> cstring option \<Rightarrow> ptr option" where
  "conhash_lookup C obj =
     (if ivnodes C = 0 then Some NULL
      else case obj of
        None \<Rightarrow> Some NULL
      | Some s \<Rightarrow> do {
          rbnode \<leftarrow> util_rbtree_lookup (vnode_tree C) (cb_hashfunc C s);
          if rbnode \<noteq> NULL then do {
            d \<leftarrow> get (vnode_tree C) rbnode data;
            load (vnodes C) d vnode
          } else Some NULL
        })"

text \<open>\<open>conhash_get_vnodes\<close>; a write past the end of the caller's array is a fault.\<close>

record get_vnodes_s =
  gv_values :: "int list"
  gv_size :: int
  gv_cur :: nat

definition get_vnodes_cb :: "rbnode \<Rightarrow> get_vnodes_s option \<Rightarrow> get_vnodes_s option" where
  "get_vnodes_cb node arg = do {
     g \<leftarrow> arg;
     if int (gv_cur g) < gv_size g then
       (if gv_cur g < length (gv_values g)
        then Some (g\<lparr>gv_values := (gv_values g)[gv_cur g := key node], gv_cur := gv_cur g + 1\<rparr>)
        else None)
     else Some g
   }"

definition conhash_get_vnodes :: "conhash_s \<Rightarrow> int list \<Rightarrow> int \<Rightarrow> int list option" where
  "conhash_get_vnodes C values n =
     (if n \<le> 0 then Some values
      else do {
        r \<leftarrow> util_rbtree_mid_travel (vnode_tree C) get_vnodes_cb
               (Some \<lparr>gv_values = values, gv_size = n, gv_cur = 0\<rparr>);
        map_option gv_values r
      })"

definition conhash_get_vnodes_num :: "conhash_s \<Rightarrow> u32" where
  "conhash_get_vnodes_num C = ivnodes C"

end
