(* ===== verification/Hash_Ring.thy ===== *)
theory Hash_Ring
  imports Prelude
begin

text \<open>
  The abstract specification of consistent hashing: a ring is the list of its points, pairs
  of a hash and the owning node, in increasing order of hash. An object belongs to the owner
  of the first point at or after the object's hash, wrapping around at the end.
\<close>

type_synonym ring = "(int \<times> ptr) list"

definition ring_wf :: "ring \<Rightarrow> bool" where
  "ring_wf r \<longleftrightarrow> sorted (map fst r) \<and> distinct (map fst r)"

definition ring_insert :: "int \<Rightarrow> ptr \<Rightarrow> ring \<Rightarrow> ring" where
  "ring_insert h p r =
     (if h \<in> fst ` set r then r
      else takeWhile (\<lambda>x. fst x \<le> h) r @ (h, p) # dropWhile (\<lambda>x. fst x \<le> h) r)"

definition ring_delete :: "int \<Rightarrow> ptr \<Rightarrow> ring \<Rightarrow> ring" where
  "ring_delete h p r = filter (\<lambda>x. x \<noteq> (h, p)) r"

definition ring_succ :: "int \<Rightarrow> ring \<Rightarrow> int \<times> ptr" where
  "ring_succ h r = hd (dropWhile (\<lambda>x. fst x < h) r @ r)"

definition ring_lookup :: "int \<Rightarrow> ring \<Rightarrow> ptr" where
  "ring_lookup h r = (if r = [] then NULL else snd (ring_succ h r))"

lemma set_ring_insert: "set (ring_insert h p r) = (if h \<in> fst ` set r then set r else insert (h, p) (set r))"
proof -
  have "set (takeWhile P r) \<union> set (dropWhile P r) = set r" for P
    by (metis set_append takeWhile_dropWhile_id)
  then show ?thesis by (auto simp: ring_insert_def)
qed

lemma length_ring_insert: "length (ring_insert h p r) \<le> Suc (length r)"
proof -
  have "length (takeWhile P r) + length (dropWhile P r) = length r" for P
    by (metis length_append takeWhile_dropWhile_id)
  then show ?thesis by (simp add: ring_insert_def)
qed

lemma ring_insert_wf:
  assumes "ring_wf r"
  shows "ring_wf (ring_insert h p r)"
proof (cases "h \<in> fst ` set r")
  case True
  with assms show ?thesis by (simp add: ring_insert_def)
next
  case False
  let ?P = "\<lambda>x :: int \<times> ptr. fst x \<le> h"
  have r: "r = takeWhile ?P r @ dropWhile ?P r" by simp
  from assms have "sorted (map fst (takeWhile ?P r @ dropWhile ?P r))"
    "distinct (map fst (takeWhile ?P r @ dropWhile ?P r))" by (simp_all add: ring_wf_def)
  then have s: "sorted (map fst (takeWhile ?P r))" "sorted (map fst (dropWhile ?P r))"
    "distinct (map fst (takeWhile ?P r))" "distinct (map fst (dropWhile ?P r))"
    "fst ` set (takeWhile ?P r) \<inter> fst ` set (dropWhile ?P r) = {}"
    "\<forall>x \<in> set (takeWhile ?P r). \<forall>y \<in> set (dropWhile ?P r). fst x \<le> fst y"
    unfolding map_append sorted_append distinct_append by auto
  have lo: "\<forall>x \<in> set (takeWhile ?P r). fst x < h"
    using False by (auto dest!: set_takeWhileD simp: order_le_less)
  have hi: "\<forall>x \<in> set (dropWhile ?P r). h < fst x"
  proof (cases "dropWhile ?P r")
    case Nil
    then show ?thesis unfolding Nil by simp
  next
    case (Cons y ys)
    then have "h < fst y" using hd_dropWhile [of ?P r] by simp
    with s(2) show ?thesis unfolding Cons by auto
  qed
  from False lo hi s show ?thesis
    by (auto simp: ring_wf_def ring_insert_def sorted_append intro: less_imp_le)
qed

lemma ring_filter_wf: "ring_wf r \<Longrightarrow> ring_wf (filter P r)"
  by (auto simp: ring_wf_def sorted_filter distinct_map_filter)

lemma ring_delete_wf: "ring_wf r \<Longrightarrow> ring_wf (ring_delete h p r)"
  by (simp add: ring_delete_def ring_filter_wf)

lemma ring_wf_eq:
  assumes "ring_wf r" "ring_wf r'" "set r = set r'"
  shows "r = r'"
proof -
  have "sorted_wrt (\<lambda>x y. fst x < fst y) r" if "ring_wf r" for r :: ring
    using that by (simp add: ring_wf_def flip: strict_sorted_iff) (simp add: sorted_wrt_map)
  moreover have "r = r'" if "sorted_wrt (\<lambda>x y. fst x < fst y) r" "sorted_wrt (\<lambda>x y. fst x < fst y) r'"
    "set r = set r'" for r r' :: ring
    using that
  proof (induction r arbitrary: r')
    case (Cons x r)
    then obtain y s where r': "r' = y # s" by (cases r') auto
    with Cons.prems have "x \<in> set (y # s)" "y \<in> set (x # r)" by auto
    have "x = y"
    proof (rule ccontr)
      assume "x \<noteq> y"
      with Cons.prems(3) r' have "x \<in> set s" "y \<in> set r" by auto
      with Cons.prems(1,2) r' have "fst y < fst x" "fst x < fst y" by simp_all
      then show False by simp
    qed
    moreover have "x \<notin> set r" "x \<notin> set s" using Cons.prems(1,2) r' \<open>x = y\<close> by auto
    with Cons.prems(3) r' \<open>x = y\<close> have "set r = set s" by (simp add: insert_ident)
    ultimately show ?case using Cons r' by auto
  qed simp
  ultimately show ?thesis using assms by blast
qed

text \<open>The successor is the least point in the cyclic order that starts at \<open>h\<close>.\<close>

definition closer :: "int \<Rightarrow> int \<Rightarrow> int \<Rightarrow> bool" where
  "closer h a b \<longleftrightarrow> (if h \<le> a then b < h \<or> a \<le> b else b < h \<and> a \<le> b)"

lemma closer_antisym: "closer h a b \<Longrightarrow> closer h b a \<Longrightarrow> a = b"
  by (auto simp: closer_def split: if_splits)

lemma ring_succ_char:
  assumes "ring_wf r" "r \<noteq> []"
  shows "ring_succ h r \<in> set r \<and> (\<forall>y \<in> set r. closer h (fst (ring_succ h r)) (fst y))"
proof (cases "dropWhile (\<lambda>x. fst x < h) r")
  case Nil
  then have all: "\<forall>y \<in> set r. fst y < h" unfolding dropWhile_eq_Nil_conv .
  from assms obtain x s where r: "r = x # s" by (cases r) auto
  have "ring_succ h r = x" unfolding ring_succ_def Nil by (simp add: r)
  with all assms(1) r show ?thesis by (auto simp: closer_def ring_wf_def)
next
  case (Cons x s)
  then have x: "ring_succ h r = x" "h \<le> fst x"
    using hd_dropWhile [of "\<lambda>x. fst x < h" r] by (simp_all add: ring_succ_def)
  have in_r: "x \<in> set r" using Cons by (metis list.set_intros(1) set_dropWhileD)
  have "closer h (fst x) (fst y)" if "y \<in> set r" for y
  proof -
    from that takeWhile_dropWhile_id [of "\<lambda>x. fst x < h" r] have
      "y \<in> set (takeWhile (\<lambda>x. fst x < h) r) \<or> y \<in> set (x # s)" unfolding Cons by (metis Un_iff set_append)
    moreover have "sorted (map fst (x # s))"
      using assms(1) Cons by (metis ring_wf_def sorted_append map_append takeWhile_dropWhile_id)
    ultimately show ?thesis using x(2) by (auto simp: closer_def dest: set_takeWhileD)
  qed
  with x in_r show ?thesis by simp
qed

lemma ring_succ_unique:
  assumes "ring_wf r" "x \<in> set r" "\<forall>y \<in> set r. closer h (fst x) (fst y)"
  shows "ring_succ h r = x"
proof -
  from assms(2) have "r \<noteq> []" by auto
  from ring_succ_char [OF assms(1) this, of h] assms(2,3) have
    "ring_succ h r \<in> set r" "fst (ring_succ h r) = fst x" using closer_antisym by blast+
  with assms(1,2) show ?thesis by (auto simp: ring_wf_def distinct_map dest: inj_onD)
qed

text \<open>New points can only attract objects to themselves; removed points only release theirs.\<close>

lemma ring_succ_mono:
  assumes "ring_wf r" "ring_wf r'" "r \<noteq> []" "set r \<subseteq> set r'"
  shows "ring_succ h r' = ring_succ h r \<or> ring_succ h r' \<notin> set r"
proof -
  from assms(3,4) have "r' \<noteq> []" by auto
  from ring_succ_char [OF assms(2) this, of h] assms(4) have
    "ring_succ h r' \<in> set r \<Longrightarrow> ring_succ h r = ring_succ h r'"
    by (intro ring_succ_unique [OF assms(1)]) auto
  then show ?thesis by auto
qed

end
