(* ===== verification/Cell_Store.thy ===== *)
theory Cell_Store
  imports Prelude
begin

text \<open>
  The interface between consistent hashing and the red-black tree: an ordered store of
  allocated cells. A cell is known by its address and holds a key and a data pointer; the
  store keeps a list of cells in key order. \<open>ready\<close> is \<open>rep\<close> for a store that may be
  inserted into: \<open>util_rbtree.c\<close> leaves that state when the root of a two-element tree is
  deleted (\<open>Rbtree_Contract.dangling_root_parent\<close>).

  The lemmas inside the locale are the client's: what a search before an insertion or a
  deletion means when keys are distinct, and what a lookup returns.
\<close>

type_synonym elem = "ptr \<times> int \<times> ptr"

abbreviation adr :: "elem \<Rightarrow> ptr" where
  "adr x \<equiv> fst x"

abbreviation ekey :: "elem \<Rightarrow> int" where
  "ekey x \<equiv> fst (snd x)"

abbreviation edata :: "elem \<Rightarrow> ptr" where
  "edata x \<equiv> snd (snd x)"

abbreviation sorted_keys :: "elem list \<Rightarrow> bool" where
  "sorted_keys xs \<equiv> sorted (map ekey xs)"

text \<open>Insertion after the last element whose key is not greater.\<close>

definition ins_elem :: "elem \<Rightarrow> elem list \<Rightarrow> elem list" where
  "ins_elem e xs = takeWhile (\<lambda>y. ekey y \<le> ekey e) xs @ e # dropWhile (\<lambda>y. ekey y \<le> ekey e) xs"

lemma set_ins_elem [simp]: "set (ins_elem e xs) = insert e (set xs)"
proof -
  have "set (takeWhile P xs) \<union> set (dropWhile P xs) = set xs" for P
    by (metis set_append takeWhile_dropWhile_id)
  then show ?thesis by (simp add: ins_elem_def)
qed

lemma length_ins_elem [simp]: "length (ins_elem e xs) = Suc (length xs)"
proof -
  have "length (takeWhile P xs) + length (dropWhile P xs) = length xs" for P
    by (metis length_append takeWhile_dropWhile_id)
  then show ?thesis by (simp add: ins_elem_def)
qed

lemma sorted_ins_elem:
  assumes "sorted_keys xs"
  shows "sorted_keys (ins_elem e xs)"
proof -
  let ?P = "\<lambda>y. ekey y \<le> ekey e"
  have xs: "takeWhile ?P xs @ dropWhile ?P xs = xs" by simp
  from assms have s: "sorted_keys (takeWhile ?P xs)" "sorted_keys (dropWhile ?P xs)"
    by (metis xs map_append sorted_append)+
  have "\<forall>y \<in> set (dropWhile ?P xs). ekey e \<le> ekey y"
  proof (cases "dropWhile ?P xs")
    case Nil
    then show ?thesis unfolding Nil by simp
  next
    case (Cons z zs)
    then have "ekey e < ekey z" using hd_dropWhile [of ?P xs] by simp
    with s(2) Cons show ?thesis by auto
  qed
  moreover have "\<forall>y \<in> set (takeWhile ?P xs). ekey y \<le> ekey e" by (auto dest: set_takeWhileD)
  ultimately show ?thesis
    using s by (fastforce simp: ins_elem_def sorted_append)
qed

locale cell_store =
  fixes cells :: "'t \<Rightarrow> ptr \<rightharpoonup> int \<times> ptr"
    and spare :: "'t \<Rightarrow> ptr"
    and agree :: "ptr set \<Rightarrow> 't \<Rightarrow> 't \<Rightarrow> bool"
    and rep :: "'t \<Rightarrow> elem list \<Rightarrow> bool"
    and ready :: "'t \<Rightarrow> elem list \<Rightarrow> bool"
    and ins :: "'t \<Rightarrow> ptr \<Rightarrow> 't option"
    and del :: "'t \<Rightarrow> ptr \<Rightarrow> 't option"
    and srch :: "'t \<Rightarrow> int \<Rightarrow> ptr option"
    and look :: "'t \<Rightarrow> int \<Rightarrow> ptr option"
  assumes ready_rep: "ready T xs \<Longrightarrow> rep T xs"
    and ready_empty: "rep T [] \<Longrightarrow> ready T []"
    and rep_sorted: "rep T xs \<Longrightarrow> sorted_keys xs"
    and rep_adr: "rep T xs \<Longrightarrow> distinct (map adr xs) \<and> NULL \<notin> adr ` set xs \<and> spare T \<notin> adr ` set xs"
    and rep_cells: "rep T xs \<Longrightarrow> e \<in> set xs \<Longrightarrow> cells T (adr e) = Some (ekey e, edata e)"
    and rep_spare: "rep T xs \<Longrightarrow> cells T NULL = None \<and> cells T (spare T) \<noteq> None"
    and rep_agree: "rep T xs \<Longrightarrow> agree (insert NULL (insert (spare T) (adr ` set xs))) T T' \<Longrightarrow> rep T' xs"
    and ready_agree: "ready T xs \<Longrightarrow> agree (insert NULL (insert (spare T) (adr ` set xs))) T T' \<Longrightarrow> ready T' xs"
    and ins_law: "ready T xs \<Longrightarrow> cells T a = Some (k, d) \<Longrightarrow> a \<notin> adr ` set xs \<Longrightarrow> a \<noteq> spare T \<Longrightarrow>
      wp (ins T a) (\<lambda>T'. ready T' (ins_elem (a, k, d) xs) \<and> cells T' = cells T \<and> spare T' = spare T)"
    and del_law: "rep T xs \<Longrightarrow> x \<in> set xs \<Longrightarrow>
      wp (del T (adr x)) (\<lambda>T'. rep T' (remove1 x xs) \<and>
        (ready T xs \<and> length xs \<noteq> 2 \<longrightarrow> ready T' (remove1 x xs)) \<and> cells T' = cells T \<and> spare T' = spare T)"
    and srch_law: "rep T xs \<Longrightarrow>
      wp (srch T k) (\<lambda>p. if k \<in> ekey ` set xs then \<exists>e \<in> set xs. ekey e = k \<and> p = adr e else p = NULL)"
    and look_law: "rep T xs \<Longrightarrow>
      look T k = Some (case dropWhile (\<lambda>e. ekey e < k) xs @ xs of [] \<Rightarrow> NULL | e # _ \<Rightarrow> adr e)"
begin

lemma srch_miss: "rep T xs \<Longrightarrow> k \<notin> ekey ` set xs \<Longrightarrow> srch T k = Some NULL"
  using srch_law [of T xs k] by (auto elim: wpE)

lemma srch_hit:
  assumes "rep T xs" "e \<in> set xs" "distinct (map ekey xs)"
  shows "srch T (ekey e) = Some (adr e)"
proof -
  have "\<exists>e' \<in> set xs. ekey e' = ekey e \<and> srch T (ekey e) = Some (adr e')"
    using srch_law [OF assms(1), of "ekey e"] assms(2) by (auto elim!: wpE)
  then obtain e' where e': "e' \<in> set xs" "ekey e' = ekey e" "srch T (ekey e) = Some (adr e')" by blast
  then have "e' = e" using assms(2,3) by (auto simp: distinct_map dest: inj_onD)
  with e' show ?thesis by simp
qed

lemma elem_not_null: "rep T xs \<Longrightarrow> e \<in> set xs \<Longrightarrow> adr e \<noteq> NULL \<and> adr e \<noteq> spare T"
  using rep_adr [of T xs] by force

lemma look_elem:
  assumes "rep T xs" "xs \<noteq> []"
  obtains e where "e \<in> set xs" "look T k = Some (adr e)" "cells T (adr e) = Some (ekey e, edata e)"
    "e = hd (dropWhile (\<lambda>e. ekey e < k) xs @ xs)"
proof -
  let ?e = "hd (dropWhile (\<lambda>e. ekey e < k) xs @ xs)"
  have "?e \<in> set (dropWhile (\<lambda>e. ekey e < k) xs @ xs)" using assms(2) by (intro hd_in_set) simp
  then have "?e \<in> set xs" by (auto dest: set_dropWhileD)
  moreover have "look T k = Some (adr ?e)"
    using look_law [OF assms(1), of k] assms(2)
    by (cases "dropWhile (\<lambda>e. ekey e < k) xs @ xs") simp_all
  ultimately show thesis using that [of ?e] rep_cells [OF assms(1)] by blast
qed

lemma look_empty: "rep T [] \<Longrightarrow> look T k = Some NULL"
  using look_law [of T "[]" k] by simp

end

end
