(* ===== verification/Rbtree_Layout.thy ===== *)
theory Rbtree_Layout
  imports Util_Rbtree Cell_Store
begin

text \<open>
  How a heap of \<open>util_rbtree_node_s\<close> structs represents a tree value, and the primitive
  steps of the C code (field writes, colour macros, rotations) as operations on zippers.

  An element of the value (\<open>elem\<close> of \<open>Cell_Store\<close>) is the node's address with its key and
  data pointer. \<open>lay\<close> is the
  representation predicate: every node of the value is in the heap with the right links, the
  addresses are distinct, and the sentinel is present and black. Its last argument \<open>q\<close> is the
  \<open>parent\<close> field of the root node, which the C code does not keep equal to the sentinel (see
  \<open>Rbtree_Delete\<close>).
\<close>

fun col :: "color \<Rightarrow> int" where
  "col Red = 0"
| "col Black = 1"

lemma col_simps [simp]: "col c = 0 \<longleftrightarrow> c = Red" "col c = 1 \<longleftrightarrow> c = Black"
  by (cases c; simp)+

text \<open>The pointer to a subtree and the parent pointer it should hold.\<close>

fun rp :: "ptr \<Rightarrow> elem rbt \<Rightarrow> ptr" where
  "rp nil Lf = nil"
| "rp nil (Nd c l x r) = adr x"

fun cp :: "ptr \<Rightarrow> elem frame list \<Rightarrow> ptr" where
  "cp q [] = q"
| "cp q (f # fs) = adr (frame_elem f)"

definition node_of :: "color \<Rightarrow> ptr \<Rightarrow> elem \<Rightarrow> ptr \<Rightarrow> ptr \<Rightarrow> rbnode" where
  "node_of c pl x pr q =
     \<lparr>key = ekey x, parent = q, right = pr, left = pl, color = col c, data = edata x\<rparr>"

lemma node_of_sel [simp]:
  "key (node_of c pl x pr q) = ekey x" "parent (node_of c pl x pr q) = q"
  "right (node_of c pl x pr q) = pr" "left (node_of c pl x pr q) = pl"
  "color (node_of c pl x pr q) = col c" "data (node_of c pl x pr q) = edata x"
  by (simp_all add: node_of_def)

lemma node_of_upd [simp]:
  "(node_of c pl x pr q)\<lparr>parent := v\<rparr> = node_of c pl x pr v"
  "(node_of c pl x pr q)\<lparr>left := v\<rparr> = node_of c v x pr q"
  "(node_of c pl x pr q)\<lparr>right := v\<rparr> = node_of c pl x v q"
  "(node_of c pl x pr q)\<lparr>color := 1\<rparr> = node_of Black pl x pr q"
  "(node_of c pl x pr q)\<lparr>color := 0\<rparr> = node_of Red pl x pr q"
  "(node_of c pl x pr q)\<lparr>color := col d\<rparr> = node_of d pl x pr q"
  by (simp_all add: node_of_def)

fun trep :: "(ptr \<rightharpoonup> rbnode) \<Rightarrow> ptr \<Rightarrow> ptr \<Rightarrow> elem rbt \<Rightarrow> bool" where
  "trep h nil q Lf = True"
| "trep h nil q (Nd c l x r) =
     (h (adr x) = Some (node_of c (rp nil l) x (rp nil r) q) \<and>
      trep h nil (adr x) l \<and> trep h nil (adr x) r)"

text \<open>The frames above a focus whose pointer is \<open>p\<close>.\<close>

fun crep :: "(ptr \<rightharpoonup> rbnode) \<Rightarrow> ptr \<Rightarrow> ptr \<Rightarrow> elem frame list \<Rightarrow> ptr \<Rightarrow> bool" where
  "crep h nil q [] p = True"
| "crep h nil q (FL c x r # fs) p =
     (h (adr x) = Some (node_of c p x (rp nil r) (cp q fs)) \<and>
      trep h nil (adr x) r \<and> crep h nil q fs (adr x))"
| "crep h nil q (FR c l x # fs) p =
     (h (adr x) = Some (node_of c (rp nil l) x p (cp q fs)) \<and>
      trep h nil (adr x) l \<and> crep h nil q fs (adr x))"

fun croot :: "elem frame list \<Rightarrow> ptr \<Rightarrow> ptr" where
  "croot [] p = p"
| "croot (f # fs) p = croot fs (adr (frame_elem f))"

definition ptrs :: "elem rbt \<Rightarrow> ptr set" where
  "ptrs t = adr ` set (inorder t)"

fun fptrs :: "elem frame list \<Rightarrow> ptr set" where
  "fptrs [] = {}"
| "fptrs (FL c x r # fs) = insert (adr x) (ptrs r \<union> fptrs fs)"
| "fptrs (FR c l x # fs) = insert (adr x) (ptrs l \<union> fptrs fs)"

lemma ptrs_simps [simp]:
  "ptrs Lf = {}"
  "ptrs (Nd c l x r) = insert (adr x) (ptrs l \<union> ptrs r)"
  by (auto simp: ptrs_def)

lemma ptrs_plug: "ptrs (plug fs t) = ptrs t \<union> fptrs fs"
proof (induction fs arbitrary: t)
  case (Cons f fs)
  then show ?case by (cases f) auto
qed simp

lemma ptrs_inorder: "inorder t = inorder t' \<Longrightarrow> ptrs t = ptrs t'"
  by (simp add: ptrs_def)

lemma rp_cases: "rp nil t \<in> insert nil (ptrs t)"
  by (cases t) simp_all

lemma rp_neq: "a \<notin> ptrs t \<Longrightarrow> a \<noteq> nil \<Longrightarrow> rp nil t \<noteq> a"
  using rp_cases [of nil t] by auto

lemma rp_paint [simp]: "rp nil (paint c t) = rp nil t"
  by (cases t) simp_all

lemma rp_plug [simp]: "rp nil (plug fs t) = croot fs (rp nil t)"
proof (induction fs arbitrary: t)
  case (Cons f fs)
  then show ?case by (cases f) simp_all
qed simp

lemma croot_indep: "fs \<noteq> [] \<Longrightarrow> croot fs p = croot fs p'"
  by (cases fs) simp_all

lemma croot_in: "fs \<noteq> [] \<Longrightarrow> croot fs p \<in> fptrs fs"
proof (induction fs arbitrary: p)
  case (Cons f fs)
  then show ?case by (cases fs; cases f) auto
qed simp

lemma cp_in: "fs \<noteq> [] \<Longrightarrow> cp q fs \<in> fptrs fs"
proof (cases fs)
  case (Cons f gs)
  then show ?thesis by (cases f) simp_all
qed simp

text \<open>Writes outside a tree or a context do not disturb it.\<close>

lemma trep_upd [simp]: "a \<notin> ptrs t \<Longrightarrow> trep (h(a \<mapsto> n)) nil q t = trep h nil q t"
  by (induction t arbitrary: q) auto

lemma crep_upd [simp]: "a \<notin> fptrs fs \<Longrightarrow> crep (h(a \<mapsto> n)) nil q fs p = crep h nil q fs p"
  by (induction h nil q fs p rule: crep.induct) auto

lemma trep_cong: "(\<And>a. a \<in> ptrs t \<Longrightarrow> h a = h' a) \<Longrightarrow> trep h nil q t = trep h' nil q t"
  by (induction t arbitrary: q) auto

lemma trep_plug: "trep h nil q (plug fs t) \<longleftrightarrow> trep h nil (cp q fs) t \<and> crep h nil q fs (rp nil t)"
proof (induction fs arbitrary: t)
  case (Cons f fs)
  then show ?case by (cases f) auto
qed simp

lemma cp_append: "cp q (fs @ gs) = cp (cp q gs) fs"
  by (cases fs) simp_all

lemma crep_append:
  "crep h nil q (fs @ gs) p \<longleftrightarrow> crep h nil (cp q gs) fs p \<and> crep h nil q gs (croot fs p)"
proof (induction fs arbitrary: p)
  case (Cons f fs)
  then show ?case by (cases f) (auto simp: cp_append)
qed simp

lemma fptrs_append: "fptrs (fs @ gs) = fptrs fs \<union> fptrs gs"
proof (induction fs)
  case (Cons f fs)
  then show ?case by (cases f) auto
qed simp

text \<open>Making a different node the parent of a represented subtree.\<close>

lemma trep_reparent:
  assumes "trep h nil q t" "t \<noteq> Lf" "distinct (map adr (inorder t))"
  shows "\<exists>n. h (rp nil t) = Some n \<and> trep (h(rp nil t \<mapsto> n\<lparr>parent := q'\<rparr>)) nil q' t"
proof -
  from assms(2) obtain c l x r where t: "t = Nd c l x r" by (cases t) auto
  with assms(3) have "adr x \<notin> ptrs l" "adr x \<notin> ptrs r" by (auto simp: ptrs_def)
  with t assms(1) show ?thesis by simp
qed

subsection \<open>The representation predicate\<close>

text \<open>What every step of the code keeps apart from the tree: the sentinel and \<open>NULL\<close>.\<close>

definition sent :: "util_rbtree \<Rightarrow> bool" where
  "sent T \<longleftrightarrow> null T \<noteq> NULL \<and> mem T NULL = None \<and>
     (\<exists>n. mem T (null T) = Some n \<and> color n = 1)"

definition dist :: "ptr \<Rightarrow> elem rbt \<Rightarrow> bool" where
  "dist nil t \<longleftrightarrow> distinct (map adr (inorder t)) \<and> nil \<notin> ptrs t \<and> NULL \<notin> ptrs t"

definition lay :: "util_rbtree \<Rightarrow> elem rbt \<Rightarrow> ptr \<Rightarrow> bool" where
  "lay T t q \<longleftrightarrow> trep (mem T) (null T) q t \<and> root T = rp (null T) t \<and> dist (null T) t \<and> sent T"

text \<open>Frame condition: only nodes of the tree and the sentinel are written, nothing is freed.\<close>

definition frame :: "util_rbtree \<Rightarrow> util_rbtree \<Rightarrow> ptr set \<Rightarrow> bool" where
  "frame T T' A \<longleftrightarrow> null T' = null T \<and> rsize T' = rsize T \<and> (\<forall>p. p \<notin> A \<longrightarrow> mem T' p = mem T p)"

lemma frame_refl [simp]: "frame T T A"
  by (simp add: frame_def)

lemma frame_trans: "frame T1 T2 A \<Longrightarrow> frame T2 T3 A \<Longrightarrow> frame T1 T3 A"
  by (simp add: frame_def)

lemma frame_mono: "frame T T' A \<Longrightarrow> A \<subseteq> B \<Longrightarrow> frame T T' B"
  by (auto simp: frame_def)

lemma frame_null: "frame T T' A \<Longrightarrow> null T' = null T"
  by (simp add: frame_def)

lemma fptrs_set: "fptrs fs = adr ` set (before fs @ after fs)"
proof (induction fs)
  case (Cons f fs)
  then show ?case by (cases f) (auto simp: ptrs_def)
qed simp

lemma dist_plug:
  "dist nil (plug fs t) \<longleftrightarrow> dist nil t \<and> distinct (map adr (before fs @ after fs)) \<and>
     ptrs t \<inter> fptrs fs = {} \<and> nil \<notin> fptrs fs \<and> NULL \<notin> fptrs fs"
proof -
  have "distinct (b @ t @ a) \<longleftrightarrow> distinct t \<and> distinct (b @ a) \<and> set t \<inter> set (b @ a) = {}"
    for b t a :: "ptr list"
    by auto
  from this [of "map adr (before fs)" "map adr (inorder t)" "map adr (after fs)"]
  have "distinct (map adr (inorder (plug fs t))) \<longleftrightarrow>
      distinct (map adr (inorder t)) \<and> distinct (map adr (before fs @ after fs)) \<and> ptrs t \<inter> fptrs fs = {}"
    by (simp only: inorder_plug map_append ptrs_def fptrs_set set_append image_Un set_map)
  then show ?thesis
    unfolding dist_def ptrs_plug by blast
qed

lemma dist_Nd:
  "dist nil (Nd c l x r) \<longleftrightarrow> dist nil l \<and> dist nil r \<and> adr x \<notin> ptrs l \<and> adr x \<notin> ptrs r \<and>
     ptrs l \<inter> ptrs r = {} \<and> adr x \<noteq> nil \<and> adr x \<noteq> NULL"
proof -
  have "distinct (xs @ a # ys) \<longleftrightarrow> distinct xs \<and> distinct ys \<and> a \<notin> set xs \<and> a \<notin> set ys \<and> set xs \<inter> set ys = {}"
    for xs ys and a :: ptr
    by auto
  from this [of "map adr (inorder l)" "adr x" "map adr (inorder r)"]
  have "distinct (map adr (inorder (Nd c l x r))) \<longleftrightarrow> distinct (map adr (inorder l)) \<and>
      distinct (map adr (inorder r)) \<and> adr x \<notin> ptrs l \<and> adr x \<notin> ptrs r \<and> ptrs l \<inter> ptrs r = {}"
    by (simp only: inorder.simps map_append list.map set_map ptrs_def)
  then show ?thesis
    unfolding dist_def ptrs_simps by (simp only: insert_iff Un_iff) (metis (no_types))
qed

lemma dist_notin: "dist nil t \<Longrightarrow> nil \<notin> ptrs t"
  by (simp add: dist_def)

lemma dist_Lf [simp]: "dist nil Lf"
  by (simp add: dist_def)

lemma dist_inorder: "inorder t = inorder t' \<Longrightarrow> dist nil t = dist nil t'"
  by (simp add: dist_def ptrs_def)

subsection \<open>Primitive steps on zippers\<close>

lemma lay_node:
  "lay T (plug fs (Nd c l x r)) q \<Longrightarrow>
   mem T (adr x) = Some (node_of c (rp (null T) l) x (rp (null T) r) (cp q fs))"
  by (simp add: lay_def trep_plug)

lemma lay_get:
  "lay T (plug fs (Nd c l x r)) q \<Longrightarrow>
   get T (adr x) f = Some (f (node_of c (rp (null T) l) x (rp (null T) r) (cp q fs)))"
  by (simp add: get_def lay_node)

lemma lay_sent: "lay T t q \<Longrightarrow> \<exists>n. mem T (null T) = Some n \<and> color n = 1"
  by (auto simp: lay_def sent_def)

lemma lay_isred:
  "lay T (plug fs t) q \<Longrightarrow> util_rbt_isred T (rp (null T) t) = Some (is_red t)"
  using lay_sent [of T "plug fs t" q]
  by (cases t) (auto simp: util_rbt_isred_def lay_get simp del: split_paired_All, simp add: get_def)

lemma lay_isblack:
  "lay T (plug fs t) q \<Longrightarrow> util_rbt_isblack T (rp (null T) t) = Some (\<not> is_red t)"
  using lay_sent [of T "plug fs t" q]
  by (cases t) (auto simp: util_rbt_isblack_def lay_get simp del: split_paired_All, simp add: get_def)

lemma lay_root: "lay T t q \<Longrightarrow> root T = rp (null T) t"
  by (simp add: lay_def)

lemma lay_null_notin: "lay T t q \<Longrightarrow> null T \<notin> ptrs t \<and> NULL \<notin> ptrs t"
  by (simp add: lay_def dist_def)

lemmas lay_unfold = lay_def trep_plug dist_plug dist_Nd sent_def ptrs_plug

lemma put_color:
  assumes "lay T (plug fs (Nd c l x r)) q"
  shows "wp (put T (adr x) (color_update (\<lambda>_. col d)))
    (\<lambda>T'. lay T' (plug fs (Nd d l x r)) q \<and> frame T T' (ptrs (plug fs (Nd c l x r))))"
  using assms by (auto simp: put_def lay_unfold frame_def)

lemma black_rule:
  "lay T (plug fs (Nd c l x r)) q \<Longrightarrow>
   wp (util_rbt_black T (adr x)) (\<lambda>T'. lay T' (plug fs (Nd Black l x r)) q \<and>
     frame T T' (ptrs (plug fs (Nd c l x r))))"
  using put_color [of T fs c l x r q Black] by (simp add: util_rbt_black_def)

lemma red_rule:
  "lay T (plug fs (Nd c l x r)) q \<Longrightarrow>
   wp (util_rbt_red T (adr x)) (\<lambda>T'. lay T' (plug fs (Nd Red l x r)) q \<and>
     frame T T' (ptrs (plug fs (Nd c l x r))))"
  using put_color [of T fs c l x r q Red] by (simp add: util_rbt_red_def)

text \<open>Rotations. The heap is executed symbolically on each shape of the tree around the node.\<close>

lemmas disj_simps = Int_Un_distrib Int_Un_distrib2 Un_empty insert_disjoint disjoint_insert

lemmas heap_ops = set_parent_def set_left_def set_right_def put_def get_def 

lemma rp_neq_simps [simp]: "a \<notin> ptrs t \<Longrightarrow> a \<noteq> nil \<Longrightarrow> (rp nil t = a) = False" "a \<notin> ptrs t \<Longrightarrow> a \<noteq> nil \<Longrightarrow> (a = rp nil t) = False"
  using rp_neq by metis+

lemma croot_neq_simps [simp]: "a \<notin> fptrs gs \<Longrightarrow> a \<noteq> p \<Longrightarrow> (croot gs p = a) = False" "a \<notin> fptrs gs \<Longrightarrow> a \<noteq> p \<Longrightarrow> (a = croot gs p) = False"
proof -
  have "croot gs p \<in> insert p (fptrs gs)" for p by (cases gs) (use croot_in [of gs] in auto)
  then show "a \<notin> fptrs gs \<Longrightarrow> a \<noteq> p \<Longrightarrow> (croot gs p = a) = False" "a \<notin> fptrs gs \<Longrightarrow> a \<noteq> p \<Longrightarrow> (a = croot gs p) = False"
    by auto
qed

lemma left_rotate_rule:
  assumes "lay T (plug fs (Nd c l x (Nd d a y b))) q"
  shows "wp (rbtree_left_rotate T (adr x)) (\<lambda>T'. lay T' (plug fs (Nd d (Nd c l x a) y b)) q \<and>
    frame T T' (ptrs (plug fs (Nd c l x (Nd d a y b)))))"
proof (cases fs)
  case Nil
  with assms show ?thesis
    by (cases a) (simp_all add: rbtree_left_rotate_def heap_ops lay_unfold frame_def wp_bind disj_simps)
next
  case (Cons f gs)
  from assms have "adr x \<noteq> croot gs (adr (frame_elem f))"
    unfolding Cons by (cases f) (auto simp: lay_unfold disj_simps)
  with Cons assms show ?thesis
    by (cases a; cases f) (simp_all add: rbtree_left_rotate_def heap_ops lay_unfold frame_def wp_bind disj_simps, (elim conjE, simp)+)
qed

lemma right_rotate_rule:
  assumes "lay T (plug fs (Nd c (Nd d a y b) x r)) q"
  shows "wp (rbtree_right_rotate T (adr x)) (\<lambda>T'. lay T' (plug fs (Nd d a y (Nd c b x r))) q \<and>
    frame T T' (ptrs (plug fs (Nd c (Nd d a y b) x r))))"
proof (cases fs)
  case Nil
  with assms show ?thesis
    by (cases b) (simp_all add: rbtree_right_rotate_def heap_ops lay_unfold frame_def wp_bind disj_simps)
next
  case (Cons f gs)
  from assms have "adr x \<noteq> croot gs (adr (frame_elem f))"
    unfolding Cons by (cases f) (auto simp: lay_unfold disj_simps)
  with Cons assms show ?thesis
    by (cases b; cases f) (simp_all add: rbtree_right_rotate_def heap_ops lay_unfold frame_def wp_bind disj_simps, (elim conjE, simp)+)
qed
end
