(* ===== verification/Rbtree_Insert.thy ===== *)
theory Rbtree_Insert
  imports Rbtree_Layout
begin

text \<open>
  \<open>util_rbtree_insert\<close> on the heap is \<open>rb_insert\<close> on values: the descent computes \<open>descend\<close>,
  the fix-up loop computes \<open>ins_fix\<close>, and no access faults. The loop looks at the colour of
  the root's parent field, so its correctness needs that field to point to an allocated
  black node outside the tree (\<open>benign\<close>); the sentinel is one.
\<close>

subsection \<open>The fix-up loop\<close>

lemmas rbt_macros = util_rbt_black_def util_rbt_red_def util_rbt_isblack_def util_rbt_isred_def

lemma lay_pair:
  assumes "lay T (plug (f # fs) (Nd c l x r)) q"
  shows "mem T (adr x) = Some (node_of c (rp (null T) l) x (rp (null T) r) (adr (frame_elem f)))"
    "mem T (adr (frame_elem f)) = Some (case f of
        FL d y s \<Rightarrow> node_of d (adr x) y (rp (null T) s) (cp q fs)
      | FR d s y \<Rightarrow> node_of d (rp (null T) s) y (adr x) (cp q fs))"
    "adr x \<noteq> adr (frame_elem f)"
    "case f of FL d y s \<Rightarrow> rp (null T) s \<noteq> adr x | FR d s y \<Rightarrow> rp (null T) s \<noteq> adr x"
  using assms by (cases f; auto simp: lay_unfold disj_simps)+

lemma insert_fixup_stop:
  assumes "lay T (plug (f # fs) (Nd c l x r)) q" "frame_color f = Black"
  shows "insert_fixup_loop T (adr x) = Some T"
  using lay_pair [OF assms(1)] assms(2)
  by (subst insert_fixup_loop.simps) (cases f; simp add: heap_ops rbt_macros)

lemma insert_fixup_tail_L:
  assumes lay: "lay T (plug (FL c p s # FL d g u # fs) (Nd e l x r)) q"
  shows "wp (do { T \<leftarrow> util_rbt_black T (adr p); g \<leftarrow> get T (adr p) parent; T \<leftarrow> util_rbt_red T g;
      g \<leftarrow> get T (adr p) parent; T \<leftarrow> rbtree_right_rotate T g; insert_fixup_loop T (adr x) })
    (\<lambda>T'. lay T' (plug fs (Nd Black (Nd e l x r) p (Nd Red s g u))) q \<and>
      frame T T' (ptrs (plug (FL c p s # FL d g u # fs) (Nd e l x r))))"
proof -
  note pg = lay_pair [of T "FL d g u" fs c "Nd e l x r" p s q, simplified]
  from lay have g: "mem T (adr p) = Some (node_of c (adr x) p (rp (null T) s) (adr g))"
    "mem T (adr g) = Some (node_of d (adr p) g (rp (null T) u) (cp q fs))" "adr p \<noteq> adr g"
    using pg by simp_all
  let ?T = "T\<lparr>mem := (mem T)(adr p \<mapsto> node_of Black (adr x) p (rp (null T) s) (adr g),
      adr g \<mapsto> node_of Red (adr p) g (rp (null T) u) (cp q fs))\<rparr>"
  have l1: "lay ?T (plug fs (Nd Red (Nd Black (Nd e l x r) p s) g u)) q"
    using lay by (simp add: lay_unfold disj_simps)
  have fr: "frame T ?T (ptrs (plug (FL c p s # FL d g u # fs) (Nd e l x r)))"
    by (simp add: frame_def ptrs_plug)
  show ?thesis
    using g
    apply (simp add: heap_ops util_rbt_black_def util_rbt_red_def wp_bind)
    apply (rule wp_mono [OF right_rotate_rule [OF l1]])
    using fr by (auto simp: insert_fixup_stop [where f = "FL Black p s" for p s] ptrs_plug elim!: frame_trans)
qed

lemma insert_fixup_tail_R:
  assumes lay: "lay T (plug (FR c s p # FR d u g # fs) (Nd e l x r)) q"
  shows "wp (do { T \<leftarrow> util_rbt_black T (adr p); g \<leftarrow> get T (adr p) parent; T \<leftarrow> util_rbt_red T g;
      g \<leftarrow> get T (adr p) parent; T \<leftarrow> rbtree_left_rotate T g; insert_fixup_loop T (adr x) })
    (\<lambda>T'. lay T' (plug fs (Nd Black (Nd Red u g s) p (Nd e l x r))) q \<and>
      frame T T' (ptrs (plug (FR c s p # FR d u g # fs) (Nd e l x r))))"
proof -
  note pg = lay_pair [of T "FR d u g" fs c s p "Nd e l x r" q, simplified]
  from lay have g: "mem T (adr p) = Some (node_of c (rp (null T) s) p (adr x) (adr g))"
    "mem T (adr g) = Some (node_of d (rp (null T) u) g (adr p) (cp q fs))" "adr p \<noteq> adr g"
    using pg by simp_all
  let ?T = "T\<lparr>mem := (mem T)(adr p \<mapsto> node_of Black (rp (null T) s) p (adr x) (adr g),
      adr g \<mapsto> node_of Red (rp (null T) u) g (adr p) (cp q fs))\<rparr>"
  have l1: "lay ?T (plug fs (Nd Red u g (Nd Black s p (Nd e l x r)))) q"
    using lay by (simp add: lay_unfold disj_simps)
  have fr: "frame T ?T (ptrs (plug (FR c s p # FR d u g # fs) (Nd e l x r)))"
    by (simp add: frame_def ptrs_plug)
  show ?thesis
    using g
    apply (simp add: heap_ops util_rbt_black_def util_rbt_red_def wp_bind)
    apply (rule wp_mono [OF left_rotate_rule [OF l1]])
    using fr by (auto simp: insert_fixup_stop [where f = "FR Black s p" for p s] ptrs_plug elim!: frame_trans)
qed

lemma insert_fixup_rot:
  assumes lay: "lay T (plug (f # g # fs) (Nd Red l x r)) q"
    and f: "frame_color f = Red" and u: "\<not> is_red (sibling g)"
  shows "wp (insert_fixup_loop T (adr x)) (\<lambda>T'. lay T' (plug fs (ins_rot f Red g (Nd Red l x r))) q
     \<and> frame T T' (ptrs (plug (f # g # fs) (Nd Red l x r))))"
proof -
  let ?t = "Nd Red l x r"
  have black: "util_rbt_isred T (rp (null T) (sibling g)) = Some False"
  proof (cases g)
    case (FL d y s)
    then show ?thesis using lay_isred [of T "FR d (plug1 f ?t) y # fs" s q] lay u by simp
  next
    case (FR d s y)
    then show ?thesis using lay_isred [of T "FL d y (plug1 f ?t) # fs" s q] lay u by simp
  qed
  note x = lay_pair [OF lay]
  show ?thesis
  proof (cases f)
    case fl: (FL c p s)
    with f have c: "c = Red" by simp
    note pg = lay_pair [of T g fs c ?t p s q, OF lay [unfolded fl plug.simps(2) [of "FL c p s"] plug1.simps]]
    show ?thesis
    proof (cases g)
      case gl: (FL d y v)
      note tail = insert_fixup_tail_L [OF lay [unfolded fl gl]]
      show ?thesis
        using x pg black tail fl gl c
        by (subst insert_fixup_loop.simps) (simp add: heap_ops util_rbt_isred_def)
    next
      case gr: (FR d v y)
      have l0: "lay T (plug (FR d v y # fs) (Nd c ?t p s)) q" using lay fl gr by simp
      from right_rotate_rule [OF l0] obtain T1 where T1: "rbtree_right_rotate T (adr p) = Some T1"
        "lay T1 (plug (FR Red l x # FR d v y # fs) (Nd c r p s)) q"
        "frame T T1 (ptrs (plug (f # g # fs) ?t))"
        using fl gr by (auto elim: wpE)
      note tail = insert_fixup_tail_R [OF T1(2)]
      show ?thesis
        using x pg black fl gr c T1(1) lay_pair(1) [OF T1(2)] tail T1(3)
        by (subst insert_fixup_loop.simps)
          (auto simp: heap_ops util_rbt_isred_def ptrs_plug frame_def elim!: wp_mono)
    qed
  next
    case fr: (FR c s p)
    with f have c: "c = Red" by simp
    note pg = lay_pair [of T g fs c s p ?t q, OF lay [unfolded fr plug.simps(2) [of "FR c s p"] plug1.simps]]
    show ?thesis
    proof (cases g)
      case gr: (FR d v y)
      note tail = insert_fixup_tail_R [OF lay [unfolded fr gr]]
      show ?thesis
        using x pg black tail fr gr c
        by (subst insert_fixup_loop.simps) (simp add: heap_ops util_rbt_isred_def)
    next
      case gl: (FL d y v)
      have l0: "lay T (plug (FL d y v # fs) (Nd c s p ?t)) q" using lay fr gl by simp
      from left_rotate_rule [OF l0] obtain T1 where T1: "rbtree_left_rotate T (adr p) = Some T1"
        "lay T1 (plug (FL Red x r # FL d y v # fs) (Nd c s p l)) q"
        "frame T T1 (ptrs (plug (f # g # fs) ?t))"
        using fr gl by (auto elim: wpE)
      note tail = insert_fixup_tail_L [OF T1(2)]
      show ?thesis
        using x pg black fr gl c T1(1) lay_pair(1) [OF T1(2)] tail T1(3)
        by (subst insert_fixup_loop.simps)
          (auto simp: heap_ops util_rbt_isred_def ptrs_plug frame_def elim!: wp_mono)
    qed
  qed
qed

lemma insert_fixup_recolor_eq:
  assumes lay: "lay T (plug (f # g # fs) (Nd Red l x r)) q"
    and f: "frame_color f = Red" and u: "is_red (sibling g)"
  shows "\<exists>T'. insert_fixup_loop T (adr x) = insert_fixup_loop T' (adr (frame_elem g)) \<and>
      lay T' (plug fs (recolor f g (Nd Red l x r))) q \<and>
      frame T T' (ptrs (plug (f # g # fs) (Nd Red l x r)))"
proof -
  let ?t = "Nd Red l x r" and ?p = "frame_elem f"
  let ?A = "ptrs (plug (f # g # fs) ?t)"
  from u obtain ul ux ur where u': "sibling g = Nd Red ul ux ur" by (rule is_redE)
  obtain a b where p: "plug1 f ?t = Nd Red a ?p b" using f by (cases f) simp_all
  note x = lay_pair [OF lay]
  note pg = lay_pair [of T g fs Red a ?p b q, OF lay [unfolded plug.simps(2) [of f] p]]
  show ?thesis
  proof (cases g)
    case g: (FL d y v)
    with lay u' p have l0: "lay T (plug (FR d (Nd Red a ?p b) y # fs) (Nd Red ul ux ur)) q" by simp
    from black_rule [OF l0] obtain T1 where T1: "util_rbt_black T (adr ux) = Some T1"
      "lay T1 (plug (FL d y (Nd Black ul ux ur) # fs) (Nd Red a ?p b)) q" "frame T T1 ?A"
      using g u' p by (auto elim!: wpE simp: ptrs_plug frame_def)
    from black_rule [OF T1(2)] obtain T2 where T2: "util_rbt_black T1 (adr ?p) = Some T2"
      "lay T2 (plug (FL d y (Nd Black ul ux ur) # fs) (Nd Black a ?p b)) q" "frame T1 T2 ?A"
      using g u' p by (auto elim!: wpE simp: ptrs_plug frame_def)
    from T2(2) have l2: "lay T2 (plug fs (Nd d (Nd Black a ?p b) y (Nd Black ul ux ur))) q" by simp
    from red_rule [OF l2] obtain T3 where T3: "util_rbt_red T2 (adr y) = Some T3"
      "lay T3 (plug (FL Red y (Nd Black ul ux ur) # fs) (Nd Black a ?p b)) q" "frame T2 T3 ?A"
      using g u' p by (auto elim!: wpE simp: ptrs_plug frame_def)
    have l3: "lay T3 (plug fs (recolor f g ?t)) q" using T3(2) g u' p by simp
    have "insert_fixup_loop T (adr x) = insert_fixup_loop T3 (adr (frame_elem g))"
      using x(1) pg g u' T1(1) T2(1) T3(1) lay_node [OF l0] lay_pair(1) [OF T2(2)] lay_pair(1) [OF T3(2)]
      by (subst insert_fixup_loop.simps) (simp add: heap_ops util_rbt_isred_def)
    with l3 frame_trans [OF T1(3) frame_trans [OF T2(3) T3(3)]] show ?thesis by blast
  next
    case g: (FR d v y)
    with lay u' p have l0: "lay T (plug (FL d y (Nd Red a ?p b) # fs) (Nd Red ul ux ur)) q" by simp
    from black_rule [OF l0] obtain T1 where T1: "util_rbt_black T (adr ux) = Some T1"
      "lay T1 (plug (FR d (Nd Black ul ux ur) y # fs) (Nd Red a ?p b)) q" "frame T T1 ?A"
      using g u' p by (auto elim!: wpE simp: ptrs_plug frame_def)
    from black_rule [OF T1(2)] obtain T2 where T2: "util_rbt_black T1 (adr ?p) = Some T2"
      "lay T2 (plug (FR d (Nd Black ul ux ur) y # fs) (Nd Black a ?p b)) q" "frame T1 T2 ?A"
      using g u' p by (auto elim!: wpE simp: ptrs_plug frame_def)
    from T2(2) have l2: "lay T2 (plug fs (Nd d (Nd Black ul ux ur) y (Nd Black a ?p b))) q" by simp
    from red_rule [OF l2] obtain T3 where T3: "util_rbt_red T2 (adr y) = Some T3"
      "lay T3 (plug (FR Red (Nd Black ul ux ur) y # fs) (Nd Black a ?p b)) q" "frame T2 T3 ?A"
      using g u' p by (auto elim!: wpE simp: ptrs_plug frame_def)
    have l3: "lay T3 (plug fs (recolor f g ?t)) q" using T3(2) g u' p by simp
    have "insert_fixup_loop T (adr x) = insert_fixup_loop T3 (adr (frame_elem g))"
      using x(1) pg g u' T1(1) T2(1) T3(1) lay_node [OF l0] lay_pair(1) [OF T2(2)] lay_pair(1) [OF T3(2)]
      by (subst insert_fixup_loop.simps) (simp add: heap_ops util_rbt_isred_def)
    with l3 frame_trans [OF T1(3) frame_trans [OF T2(3) T3(3)]] show ?thesis by blast
  qed
qed

lemma insert_fixup_recolor:
  assumes "lay T (plug (f # g # fs) (Nd Red l x r)) q" "frame_color f = Red" "is_red (sibling g)"
    and "\<And>T'. lay T' (plug fs (recolor f g (Nd Red l x r))) q \<Longrightarrow>
      frame T T' (ptrs (plug (f # g # fs) (Nd Red l x r))) \<Longrightarrow>
      wp (insert_fixup_loop T' (adr (frame_elem g))) P"
  shows "wp (insert_fixup_loop T (adr x)) P"
  using insert_fixup_recolor_eq [OF assms(1-3)] assms(4) by auto

text \<open>
  \<open>benign T A q\<close>: the root's parent field points to an allocated node outside the tree that
  is not red. Then the loop, which tests that node's colour at the root, stops there.
\<close>

definition benign :: "util_rbtree \<Rightarrow> ptr set \<Rightarrow> ptr \<Rightarrow> bool" where
  "benign T A q \<longleftrightarrow> q \<notin> A \<and> util_rbt_isred T q = Some False"

lemma benign_frame: "benign T A q \<Longrightarrow> frame T T' A \<Longrightarrow> benign T' A q"
  by (simp add: benign_def util_rbt_isred_def get_def load_def frame_def)

lemma ptrs_recolor: "ptrs (plug fs (recolor f g t)) = ptrs (plug (f # g # fs) t)"
  by (rule ptrs_inorder) (simp add: inorder_plug; cases f; cases g; simp)

lemma ptrs_ins_rot: "t \<noteq> Lf \<Longrightarrow> ptrs (plug fs (ins_rot f c g t)) = ptrs (plug (f # g # fs) t)"
  by (rule ptrs_inorder) (simp add: inorder_plug; cases f; cases g; simp)

lemma insert_fixup_loop_refines:
  assumes "lay T (plug fs t) q" "is_red t" "benign T (ptrs (plug fs t)) q"
    and "fs \<noteq> [] \<Longrightarrow> frame_color (last fs) = Black"
  shows "wp (insert_fixup_loop T (rp (null T) t)) (\<lambda>T'. lay T' (ins_fix fs t) q \<and>
    frame T T' (ptrs (plug fs t)))"
  using assms
proof (induction fs t arbitrary: T rule: ins_fix.induct [case_names grand root single])
  case (grand f g fs t)
  from grand.prems(2) obtain l x r where t: "t = Nd Red l x r" by (rule is_redE)
  note lay = grand.prems(1) [unfolded t]
  show ?case
  proof (cases "frame_color f = Red")
    case False
    with insert_fixup_stop [OF lay] t lay show ?thesis by simp
  next
    case f: True
    show ?thesis
    proof (cases "is_red (sibling g)")
      case False
      from insert_fixup_rot [OF lay f False] f False t show ?thesis by simp
    next
      case True
      have "wp (insert_fixup_loop T (adr x)) (\<lambda>T'. lay T' (ins_fix fs (recolor f g t)) q \<and>
          frame T T' (ptrs (plug (f # g # fs) t)))"
      proof (rule insert_fixup_recolor [OF lay f True])
        fix T'
        assume l: "lay T' (plug fs (recolor f g (Nd Red l x r))) q"
          and fr: "frame T T' (ptrs (plug (f # g # fs) (Nd Red l x r)))"
        have "is_red (recolor f g t)" "rp (null T') (recolor f g t) = adr (frame_elem g)"
          by (cases g; simp)+
        with grand.IH [OF f True l [folded t]] benign_frame [OF grand.prems(3) fr [folded t]] grand.prems(4)
        show "wp (insert_fixup_loop T' (adr (frame_elem g))) (\<lambda>T'. lay T' (ins_fix fs (recolor f g t)) q \<and>
          frame T T' (ptrs (plug (f # g # fs) t)))"
          using fr t by (auto simp: ptrs_recolor split: if_splits elim!: wp_mono intro: frame_trans)
      qed
      with f True t show ?thesis by simp
    qed
  qed
next
  case (root t)
  from root.prems(2) obtain l x r where t: "t = Nd Red l x r" by (rule is_redE)
  with root.prems lay_node [of T "[]" Red l x r q] show ?case
    by (subst insert_fixup_loop.simps) (simp add: get_def benign_def)
next
  case (single f t)
  from single.prems(2) obtain l x r where t: "t = Nd Red l x r" by (rule is_redE)
  with single.prems insert_fixup_stop [of T f "[]" Red l x r q] show ?case by simp
qed
subsection \<open>The descent and the whole operation\<close>

text \<open>The comparison of the descent: go left where the new key is smaller.\<close>

definition go_left :: "int \<Rightarrow> elem \<Rightarrow> bool" where
  "go_left k e \<longleftrightarrow> k < ekey e"

lemma insert_pos_refines:
  assumes "lay T (plug fs t) q" "mem T node = Some n"
  shows "insert_pos T node (rp (null T) t) (cp y fs) = Some (cp y (descend (go_left (key n)) fs t))"
  using assms
proof (induction "go_left (key n)" fs t rule: descend.induct)
  case (1 fs)
  then show ?case by (subst insert_pos.simps) simp
next
  case (2 fs c l x r)
  from lay_node [OF "2.prems"(1)] have
    "mem T (adr x) = Some (node_of c (rp (null T) l) x (rp (null T) r) (cp q fs))" .
  moreover have "adr x \<noteq> null T" using lay_null_notin [OF "2.prems"(1)] by (auto simp: ptrs_plug)
  ultimately show ?case
    using 2 by (subst insert_pos.simps) (simp add: get_def go_left_def)
qed

lemma descend_top:
  "descend go fs t = f # gs \<Longrightarrow> t \<noteq> Lf \<Longrightarrow>
   (case f of FL c x r \<Rightarrow> go x | FR c l x \<Rightarrow> \<not> go x)"
proof (induction go fs t arbitrary: f gs rule: descend.induct)
  case (2 go fs c l y r)
  then show ?case by (cases "go y"; cases l; cases r) auto
qed simp

lemma descend_Nil: "descend go fs t = [] \<longleftrightarrow> fs = [] \<and> t = Lf"
  by (induction go fs t rule: descend.induct) auto

text \<open>
  Linking a fresh node below the last frame of the descent.
\<close>

lemma link_fresh:
  assumes "lay T (plug (f # gs) Lf) q" "mem T node = Some n"
    and "node \<notin> fptrs (f # gs)" "node \<noteq> null T" "node \<noteq> NULL" "e = (node, key n, data n)"
    and "case f of FL c x r \<Rightarrow> key n < ekey x | FR c l x \<Rightarrow> \<not> key n < ekey x"
  shows "wp (do { T \<leftarrow> set_parent T node (adr (frame_elem f)); nk \<leftarrow> get T node key;
       yk \<leftarrow> get T (adr (frame_elem f)) key;
       T \<leftarrow> (if nk < yk then set_left T (adr (frame_elem f)) node else set_right T (adr (frame_elem f)) node);
       T \<leftarrow> set_left T node (null T); T \<leftarrow> set_right T node (null T); util_rbt_red T node })
     (\<lambda>T'. lay T' (plug (f # gs) (Nd Red Lf e Lf)) q \<and> frame T T' (insert node (fptrs (f # gs))))"
proof -
  have [simp]: "node_of Red (null T) (node, key n, data n) (null T) p =
     n\<lparr>parent := p, left := null T, right := null T, color := 0\<rparr>" for p
    by (simp add: node_of_def)
  show ?thesis
    using assms
    by (cases f) (simp_all add: heap_ops rbt_macros wp_bind lay_unfold disj_simps frame_def)
qed

lemma is_red_plug: "fs \<noteq> [] \<Longrightarrow> is_red (plug fs t) \<longleftrightarrow> frame_color (last fs) = Red"
proof (induction fs arbitrary: t)
  case (Cons f fs)
  then show ?case by (cases f; cases fs) auto
qed simp

lemma insert_fixup_refines:
  assumes "lay T (plug fs t) q" "is_red t" "benign T (ptrs (plug fs t)) q"
    and "fs \<noteq> [] \<Longrightarrow> frame_color (last fs) = Black"
  shows "wp (rbtree_insert_fixup T (rp (null T) t)) (\<lambda>T'. lay T' (paint Black (ins_fix fs t)) q \<and>
    frame T T' (ptrs (plug fs t)))"
proof -
  from assms(2) have "t \<noteq> Lf" by auto
  then have io: "inorder (ins_fix fs t) = inorder (plug fs t)" by (rule inorder_ins_fix)
  with \<open>t \<noteq> Lf\<close> obtain c l x r where i: "ins_fix fs t = Nd c l x r"
    by (cases "ins_fix fs t") (auto simp: inorder_plug, cases t, simp_all)
  from ptrs_inorder [OF io] i have A: "ptrs (plug fs t) = ptrs (Nd c l x r)" by simp
  show ?thesis
    unfolding rbtree_insert_fixup_def
  proof (rule wp_bindI, rule wp_mono [OF insert_fixup_loop_refines [OF assms]])
    fix T1
    assume "lay T1 (ins_fix fs t) q \<and> frame T T1 (ptrs (plug fs t))"
    then have 1: "lay T1 (plug [] (Nd c l x r)) q" "frame T T1 (ptrs (plug fs t))" by (simp_all add: i)
    from black_rule [OF 1(1)] lay_root [OF 1(1)] 1(2)
    show "wp (util_rbt_black T1 (root T1)) (\<lambda>T'. lay T' (paint Black (ins_fix fs t)) q \<and>
        frame T T' (ptrs (plug fs t)))"
      by (auto simp: i A elim!: wp_mono intro: frame_trans)
  qed
qed

text \<open>The nodes outside \<open>A\<close> and the sentinel's address are untouched (the size may change).\<close>

definition outside :: "util_rbtree \<Rightarrow> util_rbtree \<Rightarrow> ptr set \<Rightarrow> bool" where
  "outside T T' A \<longleftrightarrow> null T' = null T \<and> (\<forall>p. p \<notin> A \<longrightarrow> mem T' p = mem T p)"

lemma lay_rsize [simp]: "lay (T\<lparr>rsize := n\<rparr>) t q = lay T t q"
  by (simp add: lay_def sent_def)

theorem insert_refines:
  assumes lay: "lay T t q" and rbt: "rbt t" and q: "t \<noteq> Lf \<Longrightarrow> benign T (ptrs t) q \<and> node \<noteq> q"
    and n: "mem T node = Some n" "node \<notin> ptrs t" "node \<noteq> null T" "node \<noteq> NULL"
  shows "wp (util_rbtree_insert T node) (\<lambda>T'.
     lay T' (rb_insert (go_left (key n)) (node, key n, data n) t) (if t = Lf then null T else q) \<and>
     rsize T' = rsize T + 1 \<and> outside T T' (insert node (ptrs t)))"
proof -
  let ?e = "(node, key n, data n)" and ?fs = "descend (go_left (key n)) [] t"
  let ?q = "if t = Lf then null T else q" and ?nd = "Nd Red Lf (node, key n, data n) Lf"
  have fs: "ptrs (plug ?fs ?nd) = insert node (ptrs t)" "fptrs ?fs = ptrs t"
    using ptrs_plug [of ?fs ?nd] ptrs_plug [of ?fs Lf] by simp_all
  have rest: "wp (do { T \<leftarrow> rbtree_insert_fixup T1 node; Some (T\<lparr>rsize := rsize T + 1\<rparr>) }) (\<lambda>T'.
     lay T' (rb_insert (go_left (key n)) ?e t) ?q \<and> rsize T' = rsize T + 1 \<and>
     outside T T' (insert node (ptrs t)))"
    if 1: "lay T1 (plug ?fs ?nd) ?q" "frame T T1 (insert node (ptrs t))" for T1
  proof -
    have "benign T (insert node (ptrs t)) ?q"
    proof (cases "t = Lf")
      case True
      with lay n(3) lay_sent [OF lay] show ?thesis by (auto simp: benign_def util_rbt_isred_def get_def)
    qed (use q in \<open>simp add: benign_def\<close>)
    then have b: "benign T1 (ptrs (plug ?fs ?nd)) ?q"
      using benign_frame 1(2) by (simp add: fs)
    have l: "?fs \<noteq> [] \<Longrightarrow> frame_color (last ?fs) = Black"
      using is_red_plug [of ?fs Lf] rbt by (simp add: rbt_def)
    show ?thesis
      using wp_mono [OF insert_fixup_refines [OF 1(1) _ b l]] 1(2)
      by (auto simp: wp_bind rb_insert_def fs outside_def frame_def elim!: wp_mono)
  qed
  show ?thesis
  proof (cases "t = Lf")
    case True
    let ?T = "T\<lparr>root := node, mem := (mem T)(node \<mapsto> n\<lparr>parent := null T, left := null T, right := null T, color := 0\<rparr>)\<rparr>"
    have "lay ?T (plug ?fs ?nd) ?q"
      using True lay n by (simp add: lay_unfold node_of_def)
    moreover have "frame T ?T (insert node (ptrs t))" by (simp add: frame_def)
    ultimately have "wp (do { T \<leftarrow> rbtree_insert_fixup ?T node; Some (T\<lparr>rsize := rsize T + 1\<rparr>) }) (\<lambda>T'.
     lay T' (rb_insert (go_left (key n)) ?e t) ?q \<and> rsize T' = rsize T + 1 \<and>
     outside T T' (insert node (ptrs t)))" by (rule rest)
    moreover have "root T = null T" using lay_root [OF lay] True by simp
    ultimately show ?thesis
      using n by (simp add: util_rbtree_insert_def heap_ops util_rbt_red_def)
  next
    case False
    with descend_Nil [of _ "[]" t] obtain f gs where f: "?fs = f # gs"
      by (cases ?fs) auto
    from lay have lfs: "lay T (plug (f # gs) Lf) q" using f [symmetric] by simp
    have dir: "case f of FL c x r \<Rightarrow> key n < ekey x | FR c l x \<Rightarrow> \<not> key n < ekey x"
      using descend_top [OF f False] by (cases f) (simp_all add: go_left_def)
    have pos: "insert_pos T node (root T) NULL = Some (adr (frame_elem f))"
      using insert_pos_refines [of T "[]" t q node n NULL] lay n(1) lay_root [OF lay] f by simp
    have rt: "root T \<noteq> null T"
      using lay_root [OF lay] lay_null_notin [OF lay] False rp_cases [of "null T" t]
      by (cases t) auto
    from link_fresh [OF lfs n(1) _ n(3,4) refl dir] rest fs(2) f False n(2)
    show ?thesis
      using n pos rt
      by (auto simp: util_rbtree_insert_def wp_bind elim!: wp_mono)
  qed
qed
end
