(* ===== verification/Rbtree_Delete.thy ===== *)
theory Rbtree_Delete
  imports Rbtree_Insert
begin

text \<open>
  \<open>util_rbtree_delete\<close> on the heap is \<open>rb_delete_at\<close> on values. Each iteration of the fix-up
  loop computes \<open>del_stepL\<close> or \<open>del_stepR\<close>; when the node that was taken out leaves an empty
  subtree, the loop runs on the sentinel, whose parent field it relies on (\<open>foc\<close>). Then
  unlinking and replacing are executed on the heap.
\<close>

subsection \<open>The fix-up loop\<close>

text \<open>The focus's parent field: kept by \<open>lay\<close> for a node, a separate fact for the sentinel.\<close>

definition foc :: "util_rbtree \<Rightarrow> elem frame list \<Rightarrow> elem rbt \<Rightarrow> ptr \<Rightarrow> bool" where
  "foc T fs t q \<longleftrightarrow> get T (rp (null T) t) parent = Some (cp q fs)"

lemma foc_Nd: "lay T (plug fs (Nd c l x r)) q \<Longrightarrow> foc T fs (Nd c l x r) q"
  by (simp add: foc_def lay_get)

lemma foc_step:
  assumes "foc T (f # fs) t q" "lay T (plug (f # fs) t) q" "frame T T' (ptrs (plug (f # fs) t))"
    and "lay T' (plug (f' # fs') t) q" "adr (frame_elem f') = adr (frame_elem f)"
  shows "get T' (rp (null T') t) parent = Some (adr (frame_elem f))"
proof (cases t)
  case Lf
  with assms(1) lay_null_notin [OF assms(2)] assms(3) show ?thesis
    by (simp add: foc_def get_def load_def frame_def)
next
  case (Nd c l x r)
  with assms(4,5) show ?thesis by (simp add: lay_get [of T' "f' # fs'" c l x r q])
qed

lemma delete_sibling_left_black:
  assumes "lay T (plug (FL c p w # fs) t) q" "foc T (FL c p w # fs) t q" "\<not> is_red w"
  shows "delete_sibling_left T (rp (null T) t) = Some (T, rp (null T) w)"
proof -
  from assms(1) have l: "lay T (plug fs (Nd c t p w)) q" "lay T (plug (FR c t p # fs) w) q" by simp_all
  from lay_isred [OF l(2)] assms(2,3) show ?thesis
    by (simp add: delete_sibling_left_def foc_def lay_get [OF l(1)])
qed

lemma delete_sibling_left_red:
  assumes "lay T (plug (FL c p (Nd Red wl x wr) # fs) t) q" "foc T (FL c p (Nd Red wl x wr) # fs) t q"
  shows "wp (delete_sibling_left T (rp (null T) t)) (\<lambda>(T', w).
     w = rp (null T') wl \<and> lay T' (plug (FL Red p wl # FL Black x wr # fs) t) q \<and>
     frame T T' (ptrs (plug (FL c p (Nd Red wl x wr) # fs) t)))"
proof -
  let ?A = "ptrs (plug (FL c p (Nd Red wl x wr) # fs) t)"
  from assms(1) have l: "lay T (plug fs (Nd c t p (Nd Red wl x wr))) q"
    "lay T (plug (FR c t p # fs) (Nd Red wl x wr)) q" by simp_all
  from black_rule [OF l(2)] obtain T1 where T1: "util_rbt_black T (adr x) = Some T1"
    "lay T1 (plug fs (Nd c t p (Nd Black wl x wr))) q" "frame T T1 ?A"
    by (auto elim!: wpE simp: ptrs_plug frame_def)
  from red_rule [OF T1(2)] obtain T2 where T2: "util_rbt_red T1 (adr p) = Some T2"
    "lay T2 (plug fs (Nd Red t p (Nd Black wl x wr))) q" "frame T1 T2 ?A"
    by (auto elim!: wpE simp: ptrs_plug frame_def)
  from left_rotate_rule [OF T2(2)] obtain T3 where T3: "rbtree_left_rotate T2 (adr p) = Some T3"
    "lay T3 (plug (FL Black x wr # fs) (Nd Red t p wl)) q" "frame T2 T3 ?A"
    by (auto elim!: wpE simp: ptrs_plug frame_def)
  note par = foc_step [OF assms(2,1)]
  have "get T1 (rp (null T1) t) parent = Some (adr p)"
    using par [OF T1(3), of "FL c p (Nd Black wl x wr)" fs] T1(2) by simp
  moreover have fr2: "frame T T2 ?A" by (rule frame_trans [OF T1(3) T2(3)])
  have "get T2 (rp (null T2) t) parent = Some (adr p)"
    using par [OF fr2, of "FL Red p (Nd Black wl x wr)" fs] T2(2) by simp
  moreover have fr3: "frame T T3 ?A" by (rule frame_trans [OF fr2 T3(3)])
  have "get T3 (rp (null T3) t) parent = Some (adr p)"
    using par [OF fr3, of "FL Red p wl" "FL Black x wr # fs"] T3(2) by simp
  moreover have "null T1 = null T" "null T2 = null T" "null T3 = null T"
    using T1(3) fr2 fr3 by (simp_all add: frame_def)
  ultimately show ?thesis
    using lay_isred [OF l(2)] assms(2) T1(1) T2(1) T3 fr3
    by (simp add: delete_sibling_left_def foc_def lay_get [OF l(1)] lay_get [OF T3(2)])
qed

lemma delete_step_left_recolor:
  assumes "lay T (plug (FL c p (Nd wc wl x wr) # fs) t) q" "foc T (FL c p (Nd wc wl x wr) # fs) t q"
    and "\<not> is_red wl" "\<not> is_red wr"
  shows "wp (delete_step_left T (rp (null T) t) (adr x)) (\<lambda>(T', n).
     n = adr p \<and> lay T' (plug fs (Nd c t p (Nd Red wl x wr))) q \<and>
     frame T T' (ptrs (plug (FL c p (Nd wc wl x wr) # fs) t)))"
proof -
  from assms(1) have l: "lay T (plug (FR c t p # fs) (Nd wc wl x wr)) q"
    "lay T (plug (FL wc x wr # FR c t p # fs) wl) q" "lay T (plug (FR wc wl x # FR c t p # fs) wr) q" by simp_all
  from red_rule [OF l(1)] obtain T1 where T1: "util_rbt_red T (adr x) = Some T1"
    "lay T1 (plug fs (Nd c t p (Nd Red wl x wr))) q"
    "frame T T1 (ptrs (plug (FL c p (Nd wc wl x wr) # fs) t))"
    by (auto elim!: wpE simp: ptrs_plug frame_def)
  have "get T1 (rp (null T) t) parent = Some (adr p)"
    using foc_step [OF assms(2,1) T1(3), of "FL c p (Nd Red wl x wr)" fs] T1(2,3) by (simp add: frame_def)
  with T1 lay_isblack [OF l(2)] lay_isblack [OF l(3)] assms(3,4) show ?thesis
    by (simp add: delete_step_left_def lay_get [OF l(1)])
qed

text \<open>The end of the step, at a black sibling with a red far child.\<close>

lemma delete_tail_left:
  assumes "lay T (plug (FL c p (Nd wc wl x (Nd e a y b)) # fs) t) q"
    and "foc T (FL c p (Nd wc wl x (Nd e a y b)) # fs) t q"
    and node: "node = rp (null T) t"
  shows "wp (do {
       np \<leftarrow> get T node parent;
       pc \<leftarrow> get T np color;
       T \<leftarrow> put T (adr x) (color_update (\<lambda>_. pc));
       T \<leftarrow> util_rbt_black T np;
       wr \<leftarrow> get T (adr x) right;
       T \<leftarrow> util_rbt_black T wr;
       np \<leftarrow> get T node parent;
       T \<leftarrow> rbtree_left_rotate T np;
       Some (T, root T) })
     (\<lambda>(T', n). n = root T' \<and> lay T' (plug fs (Nd c (Nd Black t p wl) x (Nd Black a y b))) q \<and>
       frame T T' (ptrs (plug (FL c p (Nd wc wl x (Nd e a y b)) # fs) t)))"
proof -
  let ?A = "ptrs (plug (FL c p (Nd wc wl x (Nd e a y b)) # fs) t)"
  from assms(1) have l: "lay T (plug fs (Nd c t p (Nd wc wl x (Nd e a y b)))) q"
    "lay T (plug (FR c t p # fs) (Nd wc wl x (Nd e a y b))) q" by simp_all
  from put_color [OF l(2)] obtain T1 where T1: "put T (adr x) (color_update (\<lambda>_. col c)) = Some T1"
    "lay T1 (plug fs (Nd c t p (Nd c wl x (Nd e a y b)))) q" "frame T T1 ?A"
    by (auto elim!: wpE simp: ptrs_plug frame_def)
  from black_rule [OF T1(2)] obtain T2 where T2: "util_rbt_black T1 (adr p) = Some T2"
    "lay T2 (plug (FR c wl x # FR Black t p # fs) (Nd e a y b)) q" "frame T1 T2 ?A"
    by (auto elim!: wpE simp: ptrs_plug frame_def)
  from black_rule [OF T2(2)] obtain T3 where T3: "util_rbt_black T2 (adr y) = Some T3"
    "lay T3 (plug fs (Nd Black t p (Nd c wl x (Nd Black a y b)))) q" "frame T2 T3 ?A"
    by (auto elim!: wpE simp: ptrs_plug frame_def)
  from left_rotate_rule [OF T3(2)] obtain T4 where T4: "rbtree_left_rotate T3 (adr p) = Some T4"
    "lay T4 (plug fs (Nd c (Nd Black t p wl) x (Nd Black a y b))) q" "frame T3 T4 ?A"
    by (auto elim!: wpE simp: ptrs_plug frame_def)
  have fr3: "frame T T3 ?A" by (rule frame_trans [OF T1(3) frame_trans [OF T2(3) T3(3)]])
  have "get T3 (rp (null T) t) parent = Some (adr p)"
    using foc_step [OF assms(2,1) fr3, of "FL Black p (Nd c wl x (Nd Black a y b))" fs] T3(2) fr3
    by (simp add: frame_def)
  moreover have "get T2 (adr x) right = Some (adr y)"
    using T2(2) by (simp add: lay_get [of T2 "FR Black t p # fs" c wl x "Nd e a y b" q])
  ultimately show ?thesis
    using assms(2) T1(1) T2(1) T3(1) T4 frame_trans [OF fr3 T4(3)]
    by (simp add: node foc_def lay_get [OF l(1)])
qed

lemma delete_step_left_refines:
  assumes "lay T (plug (FL c p (Nd Black wl x wr) # fs) t) q"
    and "foc T (FL c p (Nd Black wl x wr) # fs) t q"
  shows "wp (delete_step_left T (rp (null T) t) (adr x)) (\<lambda>(T', n).
     (case del_stepL c t p (Nd Black wl x wr) of
        Inl t' \<Rightarrow> n = adr p \<and> rp (null T') t' = n \<and> lay T' (plug fs t') q
      | Inr t' \<Rightarrow> n = root T' \<and> lay T' (plug fs t') q) \<and>
     frame T T' (ptrs (plug (FL c p (Nd Black wl x wr) # fs) t)))"
proof -
  let ?A = "ptrs (plug (FL c p (Nd Black wl x wr) # fs) t)"
  from assms(1) have l: "lay T (plug (FR c t p # fs) (Nd Black wl x wr)) q"
    "lay T (plug (FL Black x wr # FR c t p # fs) wl) q" "lay T (plug (FR Black wl x # FR c t p # fs) wr) q" by simp_all
  note rd = lay_isblack [OF l(2)] lay_isblack [OF l(3)]
  consider "\<not> is_red wl" "\<not> is_red wr" | "is_red wr" | "is_red wl" "\<not> is_red wr" by blast
  then show ?thesis
  proof cases
    case 1
    with delete_step_left_recolor [OF assms] show ?thesis by (auto elim!: wp_mono)
  next
    case 2
    then obtain a y b where wr: "wr = Nd Red a y b" by (rule is_redE)
    from delete_tail_left [OF assms [unfolded wr] refl] rd wr show ?thesis
      by (cases "is_red wl") (auto simp: delete_step_left_def lay_get [OF l(1)] elim!: wp_mono)
  next
    case 3
    then obtain a y b where wl: "wl = Nd Red a y b" by (elim is_redE) simp
    from l(2) wl have l2: "lay T (plug (FL Black x wr # FR c t p # fs) (Nd Red a y b)) q" by simp
    from black_rule [OF l2] obtain T1 where T1: "util_rbt_black T (adr y) = Some T1"
      "lay T1 (plug (FR c t p # fs) (Nd Black (Nd Black a y b) x wr)) q" "frame T T1 ?A"
      using wl by (auto elim!: wpE simp: ptrs_plug frame_def)
    from red_rule [OF T1(2)] obtain T2 where T2: "util_rbt_red T1 (adr x) = Some T2"
      "lay T2 (plug (FR c t p # fs) (Nd Red (Nd Black a y b) x wr)) q" "frame T1 T2 ?A"
      using wl by (auto elim!: wpE simp: ptrs_plug frame_def)
    from right_rotate_rule [OF T2(2)] obtain T3 where T3: "rbtree_right_rotate T2 (adr x) = Some T3"
      "lay T3 (plug (FL c p (Nd Black a y (Nd Red b x wr)) # fs) t) q" "frame T2 T3 ?A"
      using wl by (auto elim!: wpE simp: ptrs_plug frame_def)
    have fr3: "frame T T3 ?A" by (rule frame_trans [OF T1(3) frame_trans [OF T2(3) T3(3)]])
    have par: "get T3 (rp (null T3) t) parent = Some (adr p)"
      using foc_step [OF assms(2,1) fr3 T3(2)] by simp
    from T3(2) have l3: "lay T3 (plug fs (Nd c t p (Nd Black a y (Nd Red b x wr)))) q" by simp
    have foc3: "foc T3 (FL c p (Nd Black a y (Nd Red b x wr)) # fs) t q" using par by (simp add: foc_def)
    show ?thesis
      using 3 wl rd T1(1) T2(1) T3(1) par delete_tail_left [OF T3(2) foc3 refl] fr3
      by (auto simp: delete_step_left_def lay_get [OF l(1)] lay_get [OF l3] frame_null [OF fr3]
        ptrs_plug frame_def elim!: wp_mono)
  qed
qed

lemma delete_sibling_right_black:
  assumes "lay T (plug (FR c w p # fs) t) q" "foc T (FR c w p # fs) t q" "\<not> is_red w"
  shows "delete_sibling_right T (rp (null T) t) = Some (T, rp (null T) w)"
proof -
  from assms(1) have l: "lay T (plug fs (Nd c w p t)) q" "lay T (plug (FL c p t # fs) w) q" by simp_all
  from lay_isred [OF l(2)] assms(2,3) show ?thesis
    by (simp add: delete_sibling_right_def foc_def lay_get [OF l(1)])
qed

lemma delete_sibling_right_red:
  assumes "lay T (plug (FR c (Nd Red wl x wr) p # fs) t) q" "foc T (FR c (Nd Red wl x wr) p # fs) t q"
  shows "wp (delete_sibling_right T (rp (null T) t)) (\<lambda>(T', w).
     w = rp (null T') wr \<and> lay T' (plug (FR Red wr p # FR Black wl x # fs) t) q \<and>
     frame T T' (ptrs (plug (FR c (Nd Red wl x wr) p # fs) t)))"
proof -
  let ?A = "ptrs (plug (FR c (Nd Red wl x wr) p # fs) t)"
  from assms(1) have l: "lay T (plug fs (Nd c (Nd Red wl x wr) p t)) q"
    "lay T (plug (FL c p t # fs) (Nd Red wl x wr)) q" by simp_all
  from black_rule [OF l(2)] obtain T1 where T1: "util_rbt_black T (adr x) = Some T1"
    "lay T1 (plug fs (Nd c (Nd Black wl x wr) p t)) q" "frame T T1 ?A"
    by (auto elim!: wpE simp: ptrs_plug frame_def)
  from red_rule [OF T1(2)] obtain T2 where T2: "util_rbt_red T1 (adr p) = Some T2"
    "lay T2 (plug fs (Nd Red (Nd Black wl x wr) p t)) q" "frame T1 T2 ?A"
    by (auto elim!: wpE simp: ptrs_plug frame_def)
  from right_rotate_rule [OF T2(2)] obtain T3 where T3: "rbtree_right_rotate T2 (adr p) = Some T3"
    "lay T3 (plug (FR Black wl x # fs) (Nd Red wr p t)) q" "frame T2 T3 ?A"
    by (auto elim!: wpE simp: ptrs_plug frame_def)
  note par = foc_step [OF assms(2,1)]
  have "get T1 (rp (null T1) t) parent = Some (adr p)"
    using par [OF T1(3), of "FR c (Nd Black wl x wr) p" fs] T1(2) by simp
  moreover have fr2: "frame T T2 ?A" by (rule frame_trans [OF T1(3) T2(3)])
  have "get T2 (rp (null T2) t) parent = Some (adr p)"
    using par [OF fr2, of "FR Red (Nd Black wl x wr) p" fs] T2(2) by simp
  moreover have fr3: "frame T T3 ?A" by (rule frame_trans [OF fr2 T3(3)])
  have "get T3 (rp (null T3) t) parent = Some (adr p)"
    using par [OF fr3, of "FR Red wr p" "FR Black wl x # fs"] T3(2) by simp
  moreover have "null T1 = null T" "null T2 = null T" "null T3 = null T"
    using T1(3) fr2 fr3 by (simp_all add: frame_def)
  ultimately show ?thesis
    using lay_isred [OF l(2)] assms(2) T1(1) T2(1) T3 fr3
    by (simp add: delete_sibling_right_def foc_def lay_get [OF l(1)] lay_get [OF T3(2)])
qed

lemma delete_step_right_recolor:
  assumes "lay T (plug (FR c (Nd wc wl x wr) p # fs) t) q" "foc T (FR c (Nd wc wl x wr) p # fs) t q"
    and "\<not> is_red wr" "\<not> is_red wl"
  shows "wp (delete_step_right T (rp (null T) t) (adr x)) (\<lambda>(T', n).
     n = adr p \<and> lay T' (plug fs (Nd c (Nd Red wl x wr) p t)) q \<and>
     frame T T' (ptrs (plug (FR c (Nd wc wl x wr) p # fs) t)))"
proof -
  from assms(1) have l: "lay T (plug (FL c p t # fs) (Nd wc wl x wr)) q"
    "lay T (plug (FR wc wl x # FL c p t # fs) wr) q" "lay T (plug (FL wc x wr # FL c p t # fs) wl) q" by simp_all
  from red_rule [OF l(1)] obtain T1 where T1: "util_rbt_red T (adr x) = Some T1"
    "lay T1 (plug fs (Nd c (Nd Red wl x wr) p t)) q"
    "frame T T1 (ptrs (plug (FR c (Nd wc wl x wr) p # fs) t))"
    by (auto elim!: wpE simp: ptrs_plug frame_def)
  have "get T1 (rp (null T) t) parent = Some (adr p)"
    using foc_step [OF assms(2,1) T1(3), of "FR c (Nd Red wl x wr) p" fs] T1(2,3) by (simp add: frame_def)
  with T1 lay_isblack [OF l(2)] lay_isblack [OF l(3)] assms(3,4) show ?thesis
    by (simp add: delete_step_right_def lay_get [OF l(1)])
qed

lemma delete_tail_right:
  assumes "lay T (plug (FR c (Nd wc (Nd e b y a) x wr) p # fs) t) q"
    and "foc T (FR c (Nd wc (Nd e b y a) x wr) p # fs) t q"
    and node: "node = rp (null T) t"
  shows "wp (do {
       np \<leftarrow> get T node parent;
       pc \<leftarrow> get T np color;
       T \<leftarrow> put T (adr x) (color_update (\<lambda>_. pc));
       T \<leftarrow> util_rbt_black T np;
       wl \<leftarrow> get T (adr x) left;
       T \<leftarrow> util_rbt_black T wl;
       np \<leftarrow> get T node parent;
       T \<leftarrow> rbtree_right_rotate T np;
       Some (T, root T) })
     (\<lambda>(T', n). n = root T' \<and> lay T' (plug fs (Nd c (Nd Black b y a) x (Nd Black wr p t))) q \<and>
       frame T T' (ptrs (plug (FR c (Nd wc (Nd e b y a) x wr) p # fs) t)))"
proof -
  let ?A = "ptrs (plug (FR c (Nd wc (Nd e b y a) x wr) p # fs) t)"
  from assms(1) have l: "lay T (plug fs (Nd c (Nd wc (Nd e b y a) x wr) p t)) q"
    "lay T (plug (FL c p t # fs) (Nd wc (Nd e b y a) x wr)) q" by simp_all
  from put_color [OF l(2)] obtain T1 where T1: "put T (adr x) (color_update (\<lambda>_. col c)) = Some T1"
    "lay T1 (plug fs (Nd c (Nd c (Nd e b y a) x wr) p t)) q" "frame T T1 ?A"
    by (auto elim!: wpE simp: ptrs_plug frame_def)
  from black_rule [OF T1(2)] obtain T2 where T2: "util_rbt_black T1 (adr p) = Some T2"
    "lay T2 (plug (FL c x wr # FL Black p t # fs) (Nd e b y a)) q" "frame T1 T2 ?A"
    by (auto elim!: wpE simp: ptrs_plug frame_def)
  from black_rule [OF T2(2)] obtain T3 where T3: "util_rbt_black T2 (adr y) = Some T3"
    "lay T3 (plug fs (Nd Black (Nd c (Nd Black b y a) x wr) p t)) q" "frame T2 T3 ?A"
    by (auto elim!: wpE simp: ptrs_plug frame_def)
  from right_rotate_rule [OF T3(2)] obtain T4 where T4: "rbtree_right_rotate T3 (adr p) = Some T4"
    "lay T4 (plug fs (Nd c (Nd Black b y a) x (Nd Black wr p t))) q" "frame T3 T4 ?A"
    by (auto elim!: wpE simp: ptrs_plug frame_def)
  have fr3: "frame T T3 ?A" by (rule frame_trans [OF T1(3) frame_trans [OF T2(3) T3(3)]])
  have "get T3 (rp (null T) t) parent = Some (adr p)"
    using foc_step [OF assms(2,1) fr3, of "FR Black (Nd c (Nd Black b y a) x wr) p" fs] T3(2) fr3
    by (simp add: frame_def)
  moreover have "get T2 (adr x) left = Some (adr y)"
    using T2(2) by (simp add: lay_get [of T2 "FL Black p t # fs" c "Nd e b y a" x wr q])
  ultimately show ?thesis
    using assms(2) T1(1) T2(1) T3(1) T4 frame_trans [OF fr3 T4(3)]
    by (simp add: node foc_def lay_get [OF l(1)])
qed

lemma delete_step_right_refines:
  assumes "lay T (plug (FR c (Nd Black wl x wr) p # fs) t) q"
    and "foc T (FR c (Nd Black wl x wr) p # fs) t q"
  shows "wp (delete_step_right T (rp (null T) t) (adr x)) (\<lambda>(T', n).
     (case del_stepR c (Nd Black wl x wr) p t of
        Inl t' \<Rightarrow> n = adr p \<and> rp (null T') t' = n \<and> lay T' (plug fs t') q
      | Inr t' \<Rightarrow> n = root T' \<and> lay T' (plug fs t') q) \<and>
     frame T T' (ptrs (plug (FR c (Nd Black wl x wr) p # fs) t)))"
proof -
  let ?A = "ptrs (plug (FR c (Nd Black wl x wr) p # fs) t)"
  from assms(1) have l: "lay T (plug (FL c p t # fs) (Nd Black wl x wr)) q"
    "lay T (plug (FR Black wl x # FL c p t # fs) wr) q" "lay T (plug (FL Black x wr # FL c p t # fs) wl) q" by simp_all
  note rd = lay_isblack [OF l(2)] lay_isblack [OF l(3)]
  consider "\<not> is_red wr" "\<not> is_red wl" | "is_red wl" | "is_red wr" "\<not> is_red wl" by blast
  then show ?thesis
  proof cases
    case 1
    with delete_step_right_recolor [OF assms] show ?thesis by (auto elim!: wp_mono)
  next
    case 2
    then obtain a y b where wl: "wl = Nd Red b y a" by (rule is_redE)
    from delete_tail_right [OF assms [unfolded wl] refl] rd wl show ?thesis
      by (cases "is_red wr") (auto simp: delete_step_right_def lay_get [OF l(1)] elim!: wp_mono)
  next
    case 3
    then obtain a y b where wr: "wr = Nd Red b y a" by (elim is_redE) simp
    from l(2) wr have l2: "lay T (plug (FR Black wl x # FL c p t # fs) (Nd Red b y a)) q" by simp
    from black_rule [OF l2] obtain T1 where T1: "util_rbt_black T (adr y) = Some T1"
      "lay T1 (plug (FL c p t # fs) (Nd Black wl x (Nd Black b y a))) q" "frame T T1 ?A"
      using wr by (auto elim!: wpE simp: ptrs_plug frame_def)
    from red_rule [OF T1(2)] obtain T2 where T2: "util_rbt_red T1 (adr x) = Some T2"
      "lay T2 (plug (FL c p t # fs) (Nd Red wl x (Nd Black b y a))) q" "frame T1 T2 ?A"
      using wr by (auto elim!: wpE simp: ptrs_plug frame_def)
    from left_rotate_rule [OF T2(2)] obtain T3 where T3: "rbtree_left_rotate T2 (adr x) = Some T3"
      "lay T3 (plug (FR c (Nd Black (Nd Red wl x b) y a) p # fs) t) q" "frame T2 T3 ?A"
      using wr by (auto elim!: wpE simp: ptrs_plug frame_def)
    have fr3: "frame T T3 ?A" by (rule frame_trans [OF T1(3) frame_trans [OF T2(3) T3(3)]])
    have par: "get T3 (rp (null T3) t) parent = Some (adr p)"
      using foc_step [OF assms(2,1) fr3 T3(2)] by simp
    from T3(2) have l3: "lay T3 (plug fs (Nd c (Nd Black (Nd Red wl x b) y a) p t)) q" by simp
    have foc3: "foc T3 (FR c (Nd Black (Nd Red wl x b) y a) p # fs) t q" using par by (simp add: foc_def)
    show ?thesis
      using 3 wr rd T1(1) T2(1) T3(1) par delete_tail_right [OF T3(2) foc3 refl] fr3
      by (auto simp: delete_step_right_def lay_get [OF l(1)] lay_get [OF l3] frame_null [OF fr3]
        ptrs_plug frame_def elim!: wp_mono)
  qed
qed

lemma black_focus:
  assumes "lay T (plug fs t) q"
  shows "wp (util_rbt_black T (rp (null T) t)) (\<lambda>T'. lay T' (plug fs (paint Black t)) q \<and>
    frame T T' (insert (null T) (ptrs (plug fs t))))"
proof (cases t)
  case Lf
  with assms lay_null_notin [OF assms] show ?thesis
    by (auto simp: util_rbt_black_def put_def lay_def sent_def frame_def)
next
  case (Nd c l x r)
  with black_rule [of T fs c l x r q] assms show ?thesis
    by (auto elim!: wp_mono simp: frame_def)
qed

lemma black_root:
  assumes "lay T t q"
  shows "wp (rbtree_delete_fixup T (root T)) (\<lambda>T'. lay T' (paint Black t) q \<and>
    frame T T' (insert (null T) (ptrs t)))"
  using black_focus [of T "[]" t q] assms lay_root [OF assms]
  by (simp add: rbtree_delete_fixup_def delete_fixup_loop.simps)

lemma focus_not_root:
  assumes "lay T (plug (f # fs) t) q"
  shows "rp (null T) t \<noteq> root T"
proof -
  have "croot (f # fs) (rp (null T) t) \<in> fptrs (f # fs)" by (rule croot_in) simp
  moreover have "root T = croot (f # fs) (rp (null T) t)"
    using lay_root [OF assms] by (simp only: rp_plug)
  moreover have "ptrs t \<inter> fptrs (f # fs) = {}" "null T \<notin> fptrs (f # fs)"
    using assms unfolding lay_def dist_plug by blast+
  ultimately show ?thesis using rp_cases [of "null T" t] by auto
qed

lemma delete_fixup_red:
  assumes "lay T (plug (f # fs) t) q" "is_red t"
  shows "wp (rbtree_delete_fixup T (rp (null T) t)) (\<lambda>T'. lay T' (plug (f # fs) (paint Black t)) q \<and>
    frame T T' (insert (null T) (ptrs (plug (f # fs) t))))"
  using black_focus [OF assms(1)] focus_not_root [OF assms(1)] lay_isblack [OF assms(1)] assms(2)
  by (simp add: rbtree_delete_fixup_def delete_fixup_loop.simps)

lemma delete_fixup_left:
  assumes "lay T (plug (FL c p w # fs) t) q" "foc T (FL c p w # fs) t q" "\<not> is_red t"
    and node: "node = rp (null T) t"
  shows "rbtree_delete_fixup T node = do {
      (T, w) \<leftarrow> delete_sibling_left T node;
      (T, node) \<leftarrow> delete_step_left T node w;
      rbtree_delete_fixup T node }"
proof -
  from assms(1) have l: "lay T (plug fs (Nd c t p w)) q" by simp
  from focus_not_root [OF assms(1)] lay_isblack [OF assms(1)] assms(2,3) show ?thesis
    by (subst rbtree_delete_fixup_def, subst delete_fixup_loop.simps)
      (simp add: node foc_def lay_get [OF l] rbtree_delete_fixup_def case_prod_unfold)
qed

lemma delete_fixup_right:
  assumes "lay T (plug (FR c w p # fs) t) q" "foc T (FR c w p # fs) t q" "\<not> is_red t" "w \<noteq> Lf"
    and node: "node = rp (null T) t"
  shows "rbtree_delete_fixup T node = do {
      (T, w) \<leftarrow> delete_sibling_right T node;
      (T, node) \<leftarrow> delete_step_right T node w;
      rbtree_delete_fixup T node }"
proof -
  from assms(1) have l: "lay T (plug fs (Nd c w p t)) q" by simp
  then have "lay T (plug (FR c w p # fs) t) q" by simp
  then have "ptrs w \<inter> ptrs t = {}" "null T \<notin> ptrs w"
    unfolding lay_def dist_plug fptrs.simps by blast+
  with assms(4) have "rp (null T) t \<noteq> rp (null T) w" using rp_cases [of "null T" t] by (cases w) auto
  with focus_not_root [OF assms(1)] lay_isblack [OF assms(1)] assms(2,3) show ?thesis
    by (subst rbtree_delete_fixup_def, subst delete_fixup_loop.simps)
      (simp add: node foc_def lay_get [OF l] rbtree_delete_fixup_def case_prod_unfold)
qed

lemma del_step_Inl_neq:
  "del_stepL c t p w = Inl u \<Longrightarrow> u \<noteq> Lf" "del_stepR c w p t = Inl u \<Longrightarrow> u \<noteq> Lf"
  by (cases w; auto split: if_splits rbt.splits)+

lemma ptrs_del_step:
  "del_stepL c t p w = Inl u \<or> del_stepL c t p w = Inr u \<Longrightarrow> ptrs (plug fs u) = ptrs (plug (FL c p w # fs) t)"
  "del_stepR c w p t = Inl u \<or> del_stepR c w p t = Inr u \<Longrightarrow> ptrs (plug fs u) = ptrs (plug (FR c w p # fs) t)"
  using inorder_del_stepL [of c t p w] inorder_del_stepR [of c w p t]
  by (auto intro!: ptrs_inorder simp: inorder_plug)

text \<open>What follows a step: the loop at the parent (\<open>Inl\<close>) or its end at the root (\<open>Inr\<close>).\<close>

lemma delete_step_cont:
  assumes step: "wp m (\<lambda>(T', n). (case s of
        Inl t' \<Rightarrow> n = a \<and> rp (null T') t' = n \<and> lay T' (plug fs t') q
      | Inr t' \<Rightarrow> n = root T' \<and> lay T' (plug fs t') q) \<and> frame T T' A)"
    and ptrs: "\<And>u. s = Inl u \<or> s = Inr u \<Longrightarrow> ptrs (plug fs u) = A"
    and cont: "\<And>T' t'. s = Inl t' \<Longrightarrow> lay T' (plug fs t') q \<Longrightarrow> frame T T' A \<Longrightarrow>
      wp (rbtree_delete_fixup T' (rp (null T') t')) (\<lambda>T''. lay T'' r q \<and> frame T' T'' (insert (null T) A))"
    and fin: "\<And>t'. s = Inr t' \<Longrightarrow> r = paint Black (plug fs t')"
  shows "wp (do { (T', n) \<leftarrow> m; rbtree_delete_fixup T' n }) (\<lambda>T''. lay T'' r q \<and> frame T T'' (insert (null T) A))"
proof (rule wp_bindI, rule wp_mono [OF step], clarify)
  fix T' n
  assume s: "case s of Inl t' \<Rightarrow> n = a \<and> rp (null T') t' = n \<and> lay T' (plug fs t') q
      | Inr t' \<Rightarrow> n = root T' \<and> lay T' (plug fs t') q" and fr: "frame T T' A"
  then have fr': "frame T T' (insert (null T) A)" "null T' = null T" by (auto simp: frame_def)
  show "wp (rbtree_delete_fixup T' n) (\<lambda>T''. lay T'' r q \<and> frame T T'' (insert (null T) A))"
  proof (cases s)
    case (Inl t')
    with s cont [OF Inl _ fr] show ?thesis by (auto elim!: wp_mono intro: frame_trans [OF fr'(1)])
  next
    case (Inr t')
    with s black_root [of T' "plug fs t'" q] fin [OF Inr] ptrs [of t'] fr' show ?thesis
      by (auto elim!: wp_mono intro: frame_trans)
  qed
qed

theorem delete_fixup_refines:
  assumes "lay T (plug fs t) q" "fs \<noteq> [] \<Longrightarrow> foc T fs t q" "cinv fs (Suc n)" "deficit n t"
  shows "wp (rbtree_delete_fixup T (rp (null T) t)) (\<lambda>T'. lay T' (del_fix fs t) q \<and>
    frame T T' (insert (null T) (ptrs (plug fs t))))"
  using assms
proof (induction fs arbitrary: T t n)
  case Nil
  with black_root [of T t q] lay_root [of T t q] show ?case by simp
next
  case (Cons f fs)
  note lay = Cons.prems(1) and foc = Cons.prems(2) [OF list.distinct(2)]
  show ?case
  proof (cases "is_red t")
    case True
    with delete_fixup_red [OF lay True] show ?thesis by simp
  next
    case nr: False
    with Cons.prems(4) have t: "good n t" by (simp add: deficit_def)
    show ?thesis
    proof (cases f)
      case f: (FL c p w)
      note lay = lay [unfolded f] and foc = foc [unfolded f]
      show ?thesis
      proof (cases "is_red w")
        case True
        then obtain wl x wr where w: "w = Nd Red wl x wr" by (rule is_redE)
        let ?fs = "FL Black x wr # fs" and ?A = "ptrs (plug (f # fs) t)"
        from Cons.prems(3) f w have gw: "good (Suc n) wl" "\<not> is_red wl" by simp_all
        then obtain a y b where wl: "wl = Nd Black a y b" by (cases wl) auto
        note lay = lay [unfolded w] and foc = foc [unfolded w]
        from delete_sibling_left_red [OF lay foc] obtain T1 where
          T1: "delete_sibling_left T (rp (null T) t) = Some (T1, rp (null T1) wl)"
          "lay T1 (plug (FL Red p wl # ?fs) t) q" "frame T T1 ?A"
          using f w by (auto elim!: wpE)
        have foc1: "foc T1 (FL Red p wl # ?fs) t q"
          using foc_step [OF foc lay _ T1(2)] T1(3) f w by (simp add: foc_def)
        have A: "ptrs (plug (FL Red p wl # ?fs) t) = ?A" using f w by (auto simp: ptrs_plug)
        have "wp (do { (T', n) \<leftarrow> delete_step_left T1 (rp (null T1) t) (adr y); rbtree_delete_fixup T' n })
          (\<lambda>T'. lay T' (del_last ?fs (del_stepL Red t p wl)) q \<and>
            frame T1 T' (insert (null T1) (ptrs (plug (FL Red p wl # ?fs) t))))"
        proof (rule delete_step_cont [OF delete_step_left_refines [OF T1(2)[unfolded wl] foc1[unfolded wl], folded wl]])
          fix T' t'
          assume s: "del_stepL Red t p wl = Inl t'" and l': "lay T' (plug ?fs t') q"
            and fr: "frame T1 T' (ptrs (plug (FL Red p wl # ?fs) t))"
          from delete_fixup_red [OF l' del_step_Inl_red(1) [OF s]]
          show "wp (rbtree_delete_fixup T' (rp (null T') t')) (\<lambda>T''. lay T'' (del_last ?fs (del_stepL Red t p wl)) q \<and>
              frame T' T'' (insert (null T1) (ptrs (plug (FL Red p wl # ?fs) t))))"
            using ptrs_del_step(1) [of Red t p wl t' ?fs] s frame_null [OF fr] by (simp add: del_last_def)
        qed (use ptrs_del_step(1) [of Red t p wl _ ?fs] in \<open>auto simp: del_last_def\<close>)
        then show ?thesis
          using delete_fixup_left [OF lay foc nr refl] T1(1,3) f w wl nr frame_null [OF T1(3)] A
            frame_mono [OF T1(3), of "insert (null T) ?A"]
          by (auto elim!: wp_mono intro: frame_trans)
      next
        case False
        from Cons.prems(3) f have gw: "good (Suc n) w" by simp
        with False obtain wl x wr where w: "w = Nd Black wl x wr" by (cases w) auto
        note lay = lay [unfolded w] and foc = foc [unfolded w]
        have "wp (do { (T', n) \<leftarrow> delete_step_left T (rp (null T) t) (adr x); rbtree_delete_fixup T' n })
          (\<lambda>T'. lay T' (del_fix (f # fs) t) q \<and> frame T T' (insert (null T) (ptrs (plug (f # fs) t))))"
        proof (rule delete_step_cont [OF delete_step_left_refines [OF lay foc, folded w, folded f]])
          fix T' t'
          assume s: "del_stepL c t p w = Inl t'" and l': "lay T' (plug fs t') q"
            and fr: "frame T T' (ptrs (plug (f # fs) t))"
          have "t' \<noteq> Lf" using del_step_Inl_neq(1) [OF s] .
          with l' have "foc T' fs t' q" by (cases t') (auto intro: foc_Nd)
          moreover have "deficit (if c = Red then n else Suc n) t'"
            using del_step_ok(1) [OF t gw False nr, of c p] s by (simp add: step_ok_def)
          moreover have "cinv fs (Suc (if c = Red then n else Suc n))"
            using Cons.prems(3) f by (auto split: if_splits)
          ultimately have "wp (rbtree_delete_fixup T' (rp (null T') t')) (\<lambda>T''. lay T'' (del_fix fs t') q \<and>
              frame T' T'' (insert (null T') (ptrs (plug fs t'))))"
            using l' by (intro Cons.IH) 
          then show "wp (rbtree_delete_fixup T' (rp (null T') t')) (\<lambda>T''. lay T'' (del_fix (f # fs) t) q \<and>
              frame T' T'' (insert (null T) (ptrs (plug (f # fs) t))))"
            using ptrs_del_step(1) [of c t p w t' fs] s f w nr frame_null [OF fr] by simp
        qed (use ptrs_del_step(1) [of c t p w _ fs] f w nr in auto)
        then show ?thesis
          using delete_fixup_left [OF lay foc nr refl] delete_sibling_left_black [OF lay foc] f w by simp
      qed
    next
      case f: (FR c w p)
      note lay = lay [unfolded f] and foc = foc [unfolded f]
      show ?thesis
      proof (cases "is_red w")
        case True
        then obtain wr x wl where w: "w = Nd Red wl x wr" by (rule is_redE)
        let ?fs = "FR Black wl x # fs" and ?A = "ptrs (plug (f # fs) t)"
        from Cons.prems(3) f w have gw: "good (Suc n) wr" "\<not> is_red wr" by simp_all
        then obtain a y b where wr: "wr = Nd Black b y a" by (cases wr) auto
        note lay = lay [unfolded w] and foc = foc [unfolded w]
        from delete_sibling_right_red [OF lay foc] obtain T1 where
          T1: "delete_sibling_right T (rp (null T) t) = Some (T1, rp (null T1) wr)"
          "lay T1 (plug (FR Red wr p # ?fs) t) q" "frame T T1 ?A"
          using f w by (auto elim!: wpE)
        have foc1: "foc T1 (FR Red wr p # ?fs) t q"
          using foc_step [OF foc lay _ T1(2)] T1(3) f w by (simp add: foc_def)
        have A: "ptrs (plug (FR Red wr p # ?fs) t) = ?A" using f w by (auto simp: ptrs_plug)
        have "wp (do { (T', n) \<leftarrow> delete_step_right T1 (rp (null T1) t) (adr y); rbtree_delete_fixup T' n })
          (\<lambda>T'. lay T' (del_last ?fs (del_stepR Red wr p t)) q \<and>
            frame T1 T' (insert (null T1) (ptrs (plug (FR Red wr p # ?fs) t))))"
        proof (rule delete_step_cont [OF delete_step_right_refines [OF T1(2)[unfolded wr] foc1[unfolded wr], folded wr]])
          fix T' t'
          assume s: "del_stepR Red wr p t = Inl t'" and l': "lay T' (plug ?fs t') q"
            and fr: "frame T1 T' (ptrs (plug (FR Red wr p # ?fs) t))"
          from delete_fixup_red [OF l' del_step_Inl_red(2) [OF s]]
          show "wp (rbtree_delete_fixup T' (rp (null T') t')) (\<lambda>T''. lay T'' (del_last ?fs (del_stepR Red wr p t)) q \<and>
              frame T' T'' (insert (null T1) (ptrs (plug (FR Red wr p # ?fs) t))))"
            using ptrs_del_step(2) [of Red wr p t t' ?fs] s frame_null [OF fr] by (simp add: del_last_def)
        qed (use ptrs_del_step(2) [of Red wr p t _ ?fs] in \<open>auto simp: del_last_def\<close>)
        then show ?thesis
          using delete_fixup_right [OF lay foc nr _ refl] T1(1,3) f w wr nr frame_null [OF T1(3)] A
            frame_mono [OF T1(3), of "insert (null T) ?A"]
          by (auto elim!: wp_mono intro: frame_trans)
      next
        case False
        from Cons.prems(3) f have gw: "good (Suc n) w" by simp
        with False obtain wr x wl where w: "w = Nd Black wl x wr" by (cases w) auto
        note lay = lay [unfolded w] and foc = foc [unfolded w]
        have "wp (do { (T', n) \<leftarrow> delete_step_right T (rp (null T) t) (adr x); rbtree_delete_fixup T' n })
          (\<lambda>T'. lay T' (del_fix (f # fs) t) q \<and> frame T T' (insert (null T) (ptrs (plug (f # fs) t))))"
        proof (rule delete_step_cont [OF delete_step_right_refines [OF lay foc, folded w, folded f]])
          fix T' t'
          assume s: "del_stepR c w p t = Inl t'" and l': "lay T' (plug fs t') q"
            and fr: "frame T T' (ptrs (plug (f # fs) t))"
          have "t' \<noteq> Lf" using del_step_Inl_neq(2) [OF s] .
          with l' have "foc T' fs t' q" by (cases t') (auto intro: foc_Nd)
          moreover have "deficit (if c = Red then n else Suc n) t'"
            using del_step_ok(2) [OF t gw False nr, of c p] s by (simp add: step_ok_def)
          moreover have "cinv fs (Suc (if c = Red then n else Suc n))"
            using Cons.prems(3) f by (auto split: if_splits)
          ultimately have "wp (rbtree_delete_fixup T' (rp (null T') t')) (\<lambda>T''. lay T'' (del_fix fs t') q \<and>
              frame T' T'' (insert (null T') (ptrs (plug fs t'))))"
            using l' by (intro Cons.IH) 
          then show "wp (rbtree_delete_fixup T' (rp (null T') t')) (\<lambda>T''. lay T'' (del_fix (f # fs) t) q \<and>
              frame T' T'' (insert (null T) (ptrs (plug (f # fs) t))))"
            using ptrs_del_step(2) [of c w p t t' fs] s f w nr frame_null [OF fr] by simp
        qed (use ptrs_del_step(2) [of c w p t _ fs] f w nr in auto)
        then show ?thesis
          using delete_fixup_right [OF lay foc nr _ refl] delete_sibling_right_black [OF lay foc] f w by simp
      qed
    qed
  qed
qed

subsection \<open>Unlinking and replacing\<close>

text \<open>
  Between \<open>delete_unlink\<close> and \<open>delete_replace\<close> the parent field of the right subtree's root
  may already hold the replacement's address: \<open>lay_hole\<close> is \<open>lay\<close> with that field free.
\<close>

definition lay_hole ::
    "util_rbtree \<Rightarrow> elem frame list \<Rightarrow> color \<Rightarrow> elem rbt \<Rightarrow> elem \<Rightarrow> elem rbt \<Rightarrow> ptr \<Rightarrow> ptr \<Rightarrow> bool" where
  "lay_hole T fs c l x r q pr \<longleftrightarrow>
     crep (mem T) (null T) q fs (adr x) \<and>
     mem T (adr x) = Some (node_of c (rp (null T) l) x (rp (null T) r) (cp q fs)) \<and>
     trep (mem T) (null T) (adr x) l \<and> trep (mem T) (null T) pr r \<and>
     root T = croot fs (adr x) \<and> dist (null T) (plug fs (Nd c l x r)) \<and> sent T"

lemma lay_hole_lay: "lay T (plug fs (Nd c l x r)) q \<longleftrightarrow> lay_hole T fs c l x r q (adr x)"
  by (auto simp: lay_def lay_hole_def trep_plug)

lemma unlink_rule:
  assumes "lay T (plug (f # gs) (Nd c l x r)) q" "l = Lf \<and> t = r \<or> r = Lf \<and> t = l"
    and "node \<noteq> adr (frame_elem f)"
  shows "wp (delete_unlink T node (adr x) (rp (null T) t)) (\<lambda>T'. lay T' (plug (f # gs) t) q \<and>
     foc T' (f # gs) t q \<and> mem T' (adr x) = mem T (adr x) \<and>
     frame T T' (insert (null T) (ptrs (plug (f # gs) (Nd c l x r)))))"
proof -
  have ne: "adr (frame_elem f) \<noteq> adr x"
    using assms(1) by (cases f) (auto simp: lay_unfold disj_simps)
  from assms(2) consider "l = Lf" "t = r" | "r = Lf" "t = l" by blast
  then show ?thesis
  proof cases
    case 1
    with assms(1,3) ne show ?thesis
      by (cases f; cases r)
        (simp_all add: delete_unlink_def heap_ops lay_unfold frame_def foc_def wp_bind disj_simps,
          (elim conjE exE, simp add: dist_notin)+)
  next
    case 2
    with assms(1,3) ne show ?thesis
      by (cases f; cases l)
        (simp_all add: delete_unlink_def heap_ops lay_unfold frame_def foc_def wp_bind disj_simps,
          (elim conjE exE, simp add: dist_notin)+)
  qed
qed

lemma unlink_hole:
  assumes "lay T (plug (FR c l x # fs) (Nd mc Lf m r)) q"
  shows "wp (delete_unlink T (adr x) (adr m) (rp (null T) r)) (\<lambda>T'. lay_hole T' fs c l x r q (adr m) \<and>
     get T' (rp (null T) r) parent = Some (adr m) \<and> mem T' (adr m) = mem T (adr m) \<and>
     frame T T' (insert (null T) (ptrs (plug (FR c l x # fs) (Nd mc Lf m r)))))"
  using assms
  by (cases r) (simp_all add: delete_unlink_def heap_ops lay_unfold lay_hole_def frame_def foc_def wp_bind
    disj_simps, (elim conjE exE, simp add: dist_notin)+)

lemma sent_frame: "sent T \<Longrightarrow> frame T T' A \<Longrightarrow> null T \<notin> A \<Longrightarrow> NULL \<notin> A \<Longrightarrow> sent T'"
  by (simp add: sent_def frame_def)

lemma replace_rule:
  assumes "lay_hole T fs c l x r q pr" "mem T a = Some n" "m = (a, key n, data n)"
    and "a \<notin> ptrs (plug fs (Nd c l x r))" "a \<noteq> null T" "a \<noteq> NULL"
  shows "wp (delete_replace T (adr x) a) (\<lambda>T'. lay T' (plug fs (Nd c l m r)) q \<and>
     mem T' (adr x) = mem T (adr x) \<and>
     frame T T' (insert a (ptrs (plug fs (Nd c l x r)))))"
proof -
  let ?A = "insert a (ptrs (plug fs (Nd c l x r)))"
  from assms have d: "dist (null T) (plug fs (Nd c l m r))"
    by (auto simp: lay_hole_def dist_plug dist_Nd ptrs_plug)
  from assms have nA: "null T \<notin> ?A" "NULL \<notin> ?A" "sent T"
    by (auto simp: lay_hole_def dist_def)
  have "wp (delete_replace T (adr x) a) (\<lambda>T'. trep (mem T') (null T') q (plug fs (Nd c l m r)) \<and>
      root T' = rp (null T') (plug fs (Nd c l m r)) \<and> mem T' (adr x) = mem T (adr x) \<and> frame T T' ?A)"
  proof (cases fs)
    case Nil
    with assms show ?thesis
      by (cases l; cases r)
        (simp_all add: lay_hole_def dist_plug dist_Nd ptrs_plug disj_simps, (elim conjE,
          simp add: delete_replace_def heap_ops trep_plug frame_def wp_bind)+)
  next
    case (Cons f gs)
    from assms have ne: "adr x \<noteq> croot gs (adr (frame_elem f))"
      unfolding Cons by (cases f) (auto simp: lay_hole_def dist_plug dist_Nd disj_simps)
    show ?thesis
    proof (cases f)
      case (FL d y s)
      with Cons assms ne show ?thesis
        by (cases l; cases r)
          (simp_all add: lay_hole_def dist_plug dist_Nd ptrs_plug disj_simps, (elim conjE,
            simp add: delete_replace_def heap_ops trep_plug frame_def wp_bind)+)
    next
      case (FR d s y)
      with Cons assms ne show ?thesis
        by (cases l; cases r)
          (simp_all add: lay_hole_def dist_plug dist_Nd ptrs_plug disj_simps, (elim conjE,
            simp add: delete_replace_def heap_ops trep_plug frame_def wp_bind)+)
    qed
  qed
  then show ?thesis
    using d nA by (auto simp: lay_def frame_null sent_frame elim!: wp_mono)
qed

subsection \<open>The whole operation\<close>

lemma min_loop_refines:
  assumes "lay T (plug fs (Nd c l x r)) q" "split_min fs c l x r = (ms, mc, m, mr)"
  shows "rbsubtree_min_loop T (adr x) (null T) = Some (adr m)"
  using assms
proof (induction fs c l x r rule: split_min.induct)
  case (1 fs c x r)
  have "rbsubtree_min_loop T (adr x) (null T) = Some (adr x)"
    by (simp add: rbsubtree_min_loop.simps lay_get [OF "1.prems"(1)])
  with "1.prems"(2) show ?case by simp
next
  case (2 fs c c' l' x' r' x r)
  have "adr x' \<noteq> null T" using lay_null_notin [OF "2.prems"(1)] by (auto simp: ptrs_plug)
  with 2 show ?case by (subst rbsubtree_min_loop.simps) (simp add: lay_get [OF "2.prems"(1)])
qed

text \<open>The node \<open>temp\<close> that leaves its position, with its context and its only subtree.\<close>

fun del_target :: "elem frame list \<Rightarrow> color \<Rightarrow> elem rbt \<Rightarrow> elem \<Rightarrow> elem rbt \<Rightarrow>
    elem frame list \<times> color \<times> elem \<times> elem rbt" where
  "del_target fs c l x Lf = (fs, c, x, l)"
| "del_target fs c Lf x r = (fs, c, x, r)"
| "del_target fs c l x (Nd rc rl y rr) =
     (case split_min [] rc rl y rr of (ms, mc, m, mr) \<Rightarrow> (ms @ FR c l x # fs, mc, m, mr))"

lemma delete_find_refines:
  assumes "lay T (plug fs (Nd c l x r)) q" "del_target fs c l x r = (fs', c', m, t)"
  shows "delete_find T (adr x) = Some (adr m, rp (null T) t)"
proof -
  from assms(1) have sub: "lay T (plug (FL c x r # fs) l) q" "lay T (plug (FR c l x # fs) r) q" by simp_all
  note nn = lay_null_notin [OF sub(1)] lay_null_notin [OF sub(2)]
  show ?thesis
  proof (cases "l = Lf \<or> r = Lf")
    case True
    have "delete_find T (adr x) = Some (adr x, rp (null T) (if r = Lf then l else r))"
      using True nn by (cases l; cases r) (simp_all add: delete_find_def lay_get [OF assms(1)])
    with True assms(2) show ?thesis by (cases l; cases r) simp_all
  next
    case False
    then obtain rc rl y rr where r: "r = Nd rc rl y rr" by (cases r) auto
    from False obtain lc ll z lr where l: "l = Nd lc ll z lr" by (cases l) auto
    obtain ms mc m' mr where sp: "split_min [] rc rl y rr = (ms, mc, m', mr)" by (metis prod.exhaust)
    have sp': "split_min (FR c l x # fs) rc rl y rr = (ms @ FR c l x # fs, mc, m', mr)"
      using sp
    proof -
      have "split_min (gs @ hs) rc rl y rr = (case split_min gs rc rl y rr of (ms, mc, m, mr) \<Rightarrow> (ms @ hs, mc, m, mr))"
        for gs hs rc rl y rr by (induction gs rc rl y rr rule: split_min.induct) auto
      from this [of "[]" "FR c l x # fs"] sp show ?thesis by simp
    qed
    have m: "m' = m" "mr = t" using assms(2) l r sp by auto
    have e: "plug (ms @ FR c l x # fs) (Nd mc Lf m' mr) = plug (FR c l x # fs) r"
      using split_min_plug [OF sp'] r by simp
    from sub(2) r have lr': "lay T (plug (FR c l x # fs) (Nd rc rl y rr)) q" by simp
    from sub(2) e have lm: "lay T (plug (ms @ FR c l x # fs) (Nd mc Lf m' mr)) q" by simp
    have "adr y \<noteq> null T" "adr z \<noteq> null T" using nn l r by (auto simp: ptrs_plug)
    with min_loop_refines [OF lr' sp'] l r m show ?thesis
      by (simp add: delete_find_def util_rbsubtree_min_def lay_get [OF assms(1)] lay_get [OF lm [unfolded m]])
  qed
qed

lemma remove_deficit:
  assumes "rbt (plug fs (Nd Black l x r))" "l = Lf \<and> t = r \<or> r = Lf \<and> t = l"
  shows "\<exists>n. cinv fs (Suc n) \<and> deficit n t"
proof -
  from plug_cinv [OF assms(1)] obtain n where "cinv fs n" "good n (Nd Black l x r)" by auto
  with assms(2) show ?thesis by (auto intro: good_deficit)
qed

lemma remove_step:
  assumes "lay T (plug fs t) q" "foc T fs t q" "rbt (plug fs (Nd c l x r))"
    and "l = Lf \<and> t = r \<or> r = Lf \<and> t = l"
  shows "wp (if c = Black then rbtree_delete_fixup T (rp (null T) t) else Some T)
    (\<lambda>T'. lay T' (if c = Black then del_fix fs t else plug fs t) q \<and>
      frame T T' (insert (null T) (ptrs (plug fs t))))"
proof (cases c)
  case Black
  with remove_deficit [of fs l x r t] assms obtain n where "cinv fs (Suc n)" "deficit n t" by auto
  from delete_fixup_refines [OF assms(1,2) this] Black show ?thesis by simp
qed (use assms(1) in simp)

lemma clear_rule:
  assumes "lay T t q" "mem T a = Some n" "a \<notin> ptrs t" "a \<noteq> null T" "a \<noteq> NULL"
  shows "wp (rbt_clear_node T a) (\<lambda>T'. lay T' t q \<and> frame T T' {a})"
  using assms by (simp add: rbt_clear_node_def heap_ops lay_def sent_def frame_def)

lemma foc_frame:
  assumes "foc T fs t q" "lay T' (plug fs t) q" "frame T T' A" "null T \<notin> A"
  shows "foc T' fs t q"
proof (cases t)
  case Lf
  with assms show ?thesis by (simp add: foc_def get_def load_def frame_def)
next
  case (Nd c l x r)
  with foc_Nd [of T' fs c l x r q] assms(2) show ?thesis by simp
qed

text \<open>Deleting where the node itself leaves its position, and where its successor replaces it.\<close>

lemma delete_single:
  assumes lay: "lay T (plug (f # gs) (Nd c l x r)) q" and rbt: "rbt (plug (f # gs) (Nd c l x r))"
    and one: "l = Lf \<and> t = r \<or> r = Lf \<and> t = l" and s: "s = rp (null T) t"
  shows "wp (do {
       isblack \<leftarrow> util_rbt_isblack T (adr x);
       T \<leftarrow> delete_unlink T (adr x) (adr x) (rp (null T) t);
       T \<leftarrow> delete_replace T (adr x) (adr x);
       T \<leftarrow> rbt_clear_node T (adr x);
       if isblack then rbtree_delete_fixup T s else Some T })
     (\<lambda>T'. lay T' (if c = Black then del_fix (f # gs) t else plug (f # gs) t) q \<and>
        frame T T' (insert (null T) (ptrs (plug (f # gs) (Nd c l x r)))))"
proof -
  define A where "A = insert (null T) (ptrs (plug (f # gs) (Nd c l x r)))"
  from lay have x: "adr x \<noteq> null T" "adr x \<noteq> NULL" "adr x \<notin> ptrs (plug (f # gs) t)"
      "adr x \<noteq> adr (frame_elem f)"
    using one unfolding lay_def dist_plug dist_Nd ptrs_plug by (cases f; auto)+
  from unlink_rule [OF lay one x(4)] obtain T1 where
    T1: "delete_unlink T (adr x) (adr x) (rp (null T) t) = Some T1" "lay T1 (plug (f # gs) t) q"
      "foc T1 (f # gs) t q" "mem T1 (adr x) = mem T (adr x)" "frame T T1 A"
    unfolding A_def by (auto elim: wpE)
  from T1(4) lay_node [OF lay] obtain n where n: "mem T1 (adr x) = Some n" by simp
  have x1: "adr x \<noteq> null T1" using x frame_null [OF T1(5)] by simp
  from clear_rule [OF T1(2) n x(3) x1 x(2)] obtain T2 where
    T2: "rbt_clear_node T1 (adr x) = Some T2" "lay T2 (plug (f # gs) t) q" "frame T1 T2 {adr x}"
    by (auto elim: wpE)
  have foc2: "foc T2 (f # gs) t q" using foc_frame [OF T1(3) T2(2,3)] x1 by simp
  have fr2: "frame T T2 A"
    by (rule frame_trans [OF T1(5) frame_mono [OF T2(3)]]) (simp add: A_def ptrs_plug del: plug.simps)
  have comp: "frame T T' A" if "frame T2 T' (insert (null T) (ptrs (plug (f # gs) t)))" for T'
  proof (rule frame_trans [OF fr2 frame_mono [OF that]])
    show "insert (null T) (ptrs (plug (f # gs) t)) \<subseteq> A"
      using one frame_null [OF T1(5)] frame_null [OF T2(3)] by (auto simp: A_def ptrs_plug simp del: plug.simps)
  qed
  have "util_rbt_isblack T (adr x) = Some (c = Black)"
    using lay_isblack [OF lay] by (cases c) simp_all
  moreover have "null T2 = null T" using frame_null [OF T1(5)] frame_null [OF T2(3)] by simp
  ultimately show ?thesis
    using T1(1) T2(1) remove_step [OF T2(2) foc2 rbt one] s
    by (auto simp: delete_replace_def A_def [symmetric] elim!: wp_mono intro: comp fr2 simp del: plug.simps del_fix.simps)
qed

lemma ptrs_split:
  "ptrs (plug (ms @ FR c l x # fs) t) = ptrs (plug fs (Nd c l x (plug ms t)))"
  by (simp add: plug_append)

lemma delete_double:
  assumes lay: "lay T (plug fs (Nd c l x r)) q" and rbt: "rbt (plug fs (Nd c l x r))"
    and r: "r = plug ms (Nd mc Lf m mr)" and s: "s = rp (null T) mr"
  shows "wp (do {
       isblack \<leftarrow> util_rbt_isblack T (adr m);
       T \<leftarrow> delete_unlink T (adr x) (adr m) s;
       T \<leftarrow> delete_replace T (adr x) (adr m);
       T \<leftarrow> rbt_clear_node T (adr x);
       if isblack then rbtree_delete_fixup T s else Some T })
     (\<lambda>T'. lay T' (if mc = Black then del_fix (ms @ FR c l m # fs) mr else plug (ms @ FR c l m # fs) mr) q \<and>
        frame T T' (insert (null T) (ptrs (plug fs (Nd c l x r)))))"
proof -
  let ?A = "insert (null T) (ptrs (plug fs (Nd c l x r)))"
  let ?FS = "ms @ FR c l m # fs"
  from lay r have lm: "lay T (plug (ms @ FR c l x # fs) (Nd mc Lf m mr)) q" by (simp add: plug_append)
  have m: "adr m \<noteq> null T" "adr m \<noteq> NULL" "adr m \<notin> ptrs (plug fs (Nd c l x (plug ms mr)))"
    "adr x \<noteq> adr m" "adr x \<noteq> null T" "adr x \<noteq> NULL" "adr x \<notin> ptrs (plug ?FS mr)" "adr x \<notin> fptrs ms"
    using lay unfolding lay_def r by (auto simp: dist_plug dist_Nd ptrs_plug fptrs_append)
  have nm: "mem T (adr m) = Some (node_of mc (null T) m (rp (null T) mr) (cp q (ms @ FR c l x # fs)))"
    using lay_node [OF lm] by simp
  obtain T1 pr where T1: "delete_unlink T (adr x) (adr m) s = Some T1"
    "lay_hole T1 fs c l x (plug ms mr) q pr" "get T1 (rp (null T) mr) parent = Some (cp (adr m) ms)"
    "mem T1 (adr m) = mem T (adr m)" "frame T T1 ?A"
  proof (cases ms)
    case Nil
    with unlink_hole [of T c l x fs mc m mr q] lm r s that show thesis
      by (auto elim!: wpE)
  next
    case (Cons g ms')
    then have "adr x \<noteq> adr (frame_elem g)" using m(8) by (cases g) auto
    from unlink_rule [OF lm [unfolded Cons append_Cons] _ this, of mr] obtain T1 where
      T1: "delete_unlink T (adr x) (adr m) s = Some T1" "lay T1 (plug (ms @ FR c l x # fs) mr) q"
        "foc T1 (ms @ FR c l x # fs) mr q" "mem T1 (adr m) = mem T (adr m)" "frame T T1 ?A"
      using Cons r s by (auto elim!: wpE simp: plug_append)
    show thesis
    proof (rule that [OF T1(1) _ _ T1(4,5)])
      show "lay_hole T1 fs c l x (plug ms mr) q (adr x)"
        using T1(2) by (simp add: lay_hole_lay [symmetric] plug_append)
      show "get T1 (rp (null T) mr) parent = Some (cp (adr m) ms)"
        using T1(3) Cons frame_null [OF T1(5)] by (simp add: foc_def)
    qed
  qed
  have null1: "null T1 = null T" by (rule frame_null [OF T1(5)])
  from m(3) r have A: "insert (adr m) (ptrs (plug fs (Nd c l x (plug ms mr)))) \<subseteq> ?A"
    by (auto simp: ptrs_plug)
  from replace_rule [OF T1(2) T1(4) [unfolded nm], of m] m null1 obtain T2 where
    T2: "delete_replace T1 (adr x) (adr m) = Some T2" "lay T2 (plug ?FS mr) q"
      "mem T2 (adr x) = mem T1 (adr x)" "frame T1 T2 (insert (adr m) (ptrs (plug fs (Nd c l x (plug ms mr)))))"
    by (auto elim!: wpE simp: plug_append)
  have nA: "null T1 \<notin> insert (adr m) (ptrs (plug fs (Nd c l x (plug ms mr))))"
    using T1(2) m null1 by (simp add: lay_hole_def dist_def)
  have null2: "null T2 = null T" using frame_null [OF T2(4)] null1 by simp
  obtain n where n: "mem T2 (adr x) = Some n" using T2(3) T1(2) by (simp add: lay_hole_def)
  from clear_rule [OF T2(2) n m(7)] m null2 obtain T3 where
    T3: "rbt_clear_node T2 (adr x) = Some T3" "lay T3 (plug ?FS mr) q" "frame T2 T3 {adr x}"
    by (auto elim: wpE)
  have null3: "null T3 = null T" using frame_null [OF T3(3)] null2 by simp
  have fr: "frame T T3 ?A"
    by (rule frame_trans [OF T1(5) frame_trans [OF frame_mono [OF T2(4) A] frame_mono [OF T3(3)]]])
      (simp add: ptrs_plug)
  have "foc T3 ?FS mr q"
  proof (cases mr)
    case Lf
    have "mem T3 (null T) = mem T1 (null T)"
      using T2(4) T3(3) nA m(5) null1 by (auto simp: frame_def)
    then show ?thesis using T1(3) Lf null3 by (simp add: foc_def get_def load_def cp_append)
  next
    case (Nd c' l' x' r')
    with foc_Nd [of T3 ?FS c' l' x' r' q] T3(2) show ?thesis by simp
  qed
  moreover have "rbt (plug ?FS (Nd mc Lf m mr))"
    using rbt_plug_elem [of fs c l x r m] rbt by (simp add: plug_append r)
  moreover have "util_rbt_isblack T (adr m) = Some (mc = Black)"
    using lay_isblack [OF lm] by (cases mc) simp_all
  moreover have comp: "frame T T' ?A" if "frame T3 T' (insert (null T) (ptrs (plug ?FS mr)))" for T'
    by (rule frame_trans [OF fr frame_mono [OF that]]) (use null3 r in \<open>auto simp: ptrs_plug fptrs_append\<close>)
  ultimately show ?thesis
    using T1(1) T2(1) T3(1) remove_step [OF T3(2), of mc Lf m mr] s fr null3
    by (auto elim!: wp_mono intro: comp)
qed

theorem delete_refines:
  assumes lay: "lay T (plug fs (Nd c l x r)) q" and rbt: "rbt (plug fs (Nd c l x r))"
  shows "wp (util_rbtree_delete T (adr x)) (\<lambda>T'.
     lay T' (rb_delete_at fs c l x r) (if fs = [] \<and> (l = Lf \<or> r = Lf) then adr x else q) \<and>
     rsize T' = rsize T - 1 \<and> outside T T' (insert (null T) (ptrs (plug fs (Nd c l x r)))))"
proof -
  let ?T = "T\<lparr>rsize := rsize T - 1\<rparr>"
  from lay have lay': "lay ?T (plug fs (Nd c l x r)) q" by simp
  obtain fs' c' m t where tg: "del_target fs c l x r = (fs', c', m, t)" by (metis prod.exhaust)
  note find = delete_find_refines [OF lay' tg]
  have x: "adr x \<noteq> null T" "adr x \<noteq> NULL"
    using lay_null_notin [OF lay] by (auto simp: ptrs_plug)
  have out: "outside T T' A" if "frame ?T T' A" for T' A
    using that by (simp add: outside_def frame_def)
  have rs: "rsize T' = rsize T - 1" if "frame ?T T' A" for T' A
    using that by (simp add: frame_def)
  show ?thesis
  proof (cases "l = Lf \<or> r = Lf")
    case True
    with tg have t: "fs' = fs" "c' = c" "m = x" "l = Lf \<and> t = r \<or> r = Lf \<and> t = l" by (cases l; cases r; auto)+
    have del: "rb_delete_at fs c l x r = (if c = Black then del_fix fs t else plug fs t)"
      using t(4) by (auto simp: rb_delete_at_def Let_def split: rbt.split)
    show ?thesis
    proof (cases fs)
      case Nil
      let ?R = "?T\<lparr>root := rp (null T) t\<rparr>"
      from rbt Nil have c: "c = Black" by (simp add: rbt_def)
      from lay Nil t(4) have xt: "adr x \<notin> ptrs t" by (auto simp: lay_def dist_Nd)
      from lay Nil t(4) have "lay ?R (plug [] t) (adr x)" by (auto simp: lay_def sent_def dist_Nd)
      from black_focus [OF this] obtain T2 where
        T2: "util_rbt_black ?R (rp (null T) t) = Some T2" "lay T2 (paint Black t) (adr x)"
          "frame ?R T2 (insert (null T) (ptrs t))"
        by (auto elim!: wpE)
      from T2(3) have n2: "null T2 = null T" "mem T2 (adr x) = mem T (adr x)"
        using xt x by (simp_all add: frame_def)
      from lay_node [OF lay] n2(2) obtain n where n: "mem T2 (adr x) = Some n" by simp
      have "adr x \<notin> ptrs (paint Black t)" using xt by (cases t) simp_all
      from clear_rule [OF T2(2) n this] x n2(1) have
        cl: "wp (rbt_clear_node T2 (adr x)) (\<lambda>T'. lay T' (paint Black t) (adr x) \<and> frame T2 T' {adr x})"
        by simp
      have A: "insert (null T) (ptrs t) \<subseteq> insert (null T) (ptrs (Nd c l x r))"
        "{adr x} \<subseteq> insert (null T) (ptrs (Nd c l x r))" using t(4) by auto
      have fin: "outside T T' (insert (null T) (ptrs (Nd c l x r))) \<and> rsize T' = rsize T - 1"
        if "frame T2 T' {adr x}" for T'
      proof -
        from T2(3) have "frame ?T T2 (insert (null T) (ptrs t))" by (simp add: frame_def)
        from frame_trans [OF frame_mono [OF this A(1)] frame_mono [OF that A(2)]]
        show ?thesis using out rs by blast
      qed
      have "root T = adr x" using lay_root [OF lay] Nil by simp
      then show ?thesis
        using cl fin t find x del c Nil T2(1)
        by (auto simp: util_rbtree_delete_def elim!: wp_mono)
    next
      case (Cons f gs)
      have "adr x \<noteq> root T" using focus_not_root [of T f gs "Nd c l x r" q] lay Cons by simp
      then show ?thesis
        using delete_single [of ?T f gs c l x r q t] lay' rbt t find Cons x out rs del
        by (auto simp: util_rbtree_delete_def elim!: wp_mono)
    qed
  next
    case False
    then obtain rc rl y rr where r: "r = Nd rc rl y rr" by (cases r) auto
    obtain ms mc m' mr where sp: "split_min [] rc rl y rr = (ms, mc, m', mr)" by (metis prod.exhaust)
    have t: "fs' = ms @ FR c l x # fs" "m = m'" "t = mr" "c' = mc" using False tg r sp by (cases l; auto)+
    have rm: "r = plug ms (Nd mc Lf m' mr)" using split_min_plug [OF sp] r by simp
    have "plug (ms @ FR c l x # fs) (Nd mc Lf m' mr) = plug fs (Nd c l x r)"
      using rm by (simp add: plug_append)
    with lay have lm: "lay T (plug (ms @ FR c l x # fs) (Nd mc Lf m' mr)) q" by simp
    have mroot: "adr m' \<noteq> root T"
      using lm focus_not_root [of T "FR c l x" fs "Nd mc Lf m' mr" q]
        focus_not_root [of T "hd ms" "tl ms @ FR c l x # fs" "Nd mc Lf m' mr" q]
      by (cases ms) simp_all
    have del: "rb_delete_at fs c l x r = (if mc = Black then del_fix (ms @ FR c l m' # fs) mr else plug (ms @ FR c l m' # fs) mr)"
      using False r sp by (simp add: rb_delete_at_def Let_def)
    have "rp (null T) mr = rp (null ?T) mr" by simp
    from delete_double [OF lay' rbt rm this] show ?thesis
      using find x out rs del t mroot False
      by (auto simp: util_rbtree_delete_def elim!: wp_mono)
  qed
qed

end
