(* ===== verification/Rbtree_Query.thy ===== *)
theory Rbtree_Query
  imports Rbtree_Delete
begin

text \<open>
  The read-only operations of \<open>util_rbtree.c\<close>, and the contract of the whole component over
  the list of its elements in key order (\<open>tree_rep\<close>).
\<close>

subsection \<open>Search and lookup\<close>

lemma lay_left: "lay T (plug fs (Nd c l x r)) q \<Longrightarrow> lay T (plug (FL c x r # fs) l) q"
  and lay_right: "lay T (plug fs (Nd c l x r)) q \<Longrightarrow> lay T (plug (FR c l x # fs) r) q"
  by simp_all

lemma lay_adr_null: "lay T (plug fs (Nd c l x r)) q \<Longrightarrow> adr x \<noteq> null T \<and> adr x \<noteq> NULL"
  using lay_null_notin [of T "plug fs (Nd c l x r)" q] by (auto simp: ptrs_plug)

lemma search_loop_refines:
  assumes "lay T (plug fs t) q" "sorted_keys (inorder t)"
  shows "case rbtree_search_loop T k (rp (null T) t) of
     None \<Rightarrow> False
   | Some p \<Rightarrow> if k \<in> ekey ` set (inorder t) then \<exists>e \<in> set (inorder t). ekey e = k \<and> p = adr e
              else p = NULL"
  using assms
proof (induction t arbitrary: fs)
  case Lf
  then show ?case by (subst rbtree_search_loop.simps) simp
next
  case (Nd c l x r)
  note l = lay_left [OF Nd.prems(1)] and r = lay_right [OF Nd.prems(1)]
  have s: "sorted_keys (inorder l)" "sorted_keys (inorder r)"
    "\<forall>e \<in> set (inorder l). ekey e \<le> ekey x" "\<forall>e \<in> set (inorder r). ekey x \<le> ekey e"
    using Nd.prems(2) by (auto simp: sorted_append)
  have unf: "rbtree_search_loop T k (adr x) =
      (if k < ekey x then rbtree_search_loop T k (rp (null T) l)
       else if k > ekey x then rbtree_search_loop T k (rp (null T) r) else Some (adr x))"
    using lay_adr_null [OF Nd.prems(1)]
    by (subst rbtree_search_loop.simps) (simp add: lay_get [OF Nd.prems(1)])
  consider "k < ekey x" | "k > ekey x" | "k = ekey x" by linarith
  then show ?case
  proof cases
    case 1
    with s(4) have "k \<notin> ekey ` set (inorder r)" by force
    with 1 Nd.IH(1) [OF l s(1)] show ?thesis
      by (auto simp: unf split: option.splits if_splits simp del: split_paired_Ex)
  next
    case 2
    with s(3) have "k \<notin> ekey ` set (inorder l)" by force
    with 2 Nd.IH(2) [OF r s(2)] show ?thesis
      by (auto simp: unf split: option.splits if_splits simp del: split_paired_Ex)
  next
    case 3
    then have "rbtree_search_loop T k (adr x) = Some (adr x)" by (subst unf) simp
    with 3 show ?thesis by auto
  qed
qed

text \<open>The lookup loop finds the first element, in order, whose key is at least \<open>k\<close>.\<close>

lemma lookup_loop_refines:
  assumes "lay T (plug fs t) q" "sorted_keys (inorder t)"
  shows "rbtree_lookup_loop T k node (rp (null T) t) =
     Some (case dropWhile (\<lambda>e. ekey e < k) (inorder t) of [] \<Rightarrow> node | e # _ \<Rightarrow> adr e)"
  using assms
proof (induction t arbitrary: fs node)
  case Lf
  then show ?case by (subst rbtree_lookup_loop.simps) simp
next
  case (Nd c l x r)
  note l = lay_left [OF Nd.prems(1)] and r = lay_right [OF Nd.prems(1)]
  have s: "sorted_keys (inorder l)" "sorted_keys (inorder r)"
    "\<forall>e \<in> set (inorder l). ekey e \<le> ekey x"
    using Nd.prems(2) by (auto simp: sorted_append)
  have unf: "rbtree_lookup_loop T k node (adr x) =
      (if k \<le> ekey x then rbtree_lookup_loop T k (adr x) (rp (null T) l)
       else rbtree_lookup_loop T k node (rp (null T) r))"
    using lay_adr_null [OF Nd.prems(1)]
    by (subst rbtree_lookup_loop.simps) (simp add: lay_get [OF Nd.prems(1)])
  show ?case
  proof (cases "k \<le> ekey x")
    case True
    have "(case dropWhile (\<lambda>e. ekey e < k) (inorder l) of [] \<Rightarrow> adr x | e # _ \<Rightarrow> adr e) =
      (case dropWhile (\<lambda>e. ekey e < k) (inorder l @ x # inorder r) of [] \<Rightarrow> node | e # _ \<Rightarrow> adr e)"
    proof (cases "dropWhile (\<lambda>e. ekey e < k) (inorder l)")
      case Nil
      then have "\<forall>e \<in> set (inorder l). ekey e < k" unfolding dropWhile_eq_Nil_conv .
      with True show ?thesis unfolding Nil by (simp add: dropWhile_append2)
    next
      case (Cons e es)
      then have "\<not> (\<forall>e \<in> set (inorder l). ekey e < k)" unfolding dropWhile_eq_Nil_conv [symmetric] by simp
      then have "dropWhile (\<lambda>e. ekey e < k) (inorder l @ x # inorder r) = (e # es) @ x # inorder r"
        using Cons dropWhile_append1 [of _ "inorder l" "\<lambda>e. ekey e < k"] by metis
      then show ?thesis unfolding Cons by simp
    qed
    with True Nd.IH(1) [OF l s(1)] show ?thesis by (simp add: unf)
  next
    case False
    with s(3) have "\<forall>e \<in> set (inorder l @ [x]). ekey e < k" by auto
    then have "dropWhile (\<lambda>e. ekey e < k) (inorder l @ x # inorder r) = dropWhile (\<lambda>e. ekey e < k) (inorder r)"
      by (simp add: dropWhile_append2)
    with False Nd.IH(2) [OF r s(2)] show ?thesis by (simp add: unf)
  qed
qed

lemma min_refines:
  assumes "lay T t q" "t \<noteq> Lf"
  shows "util_rbsubtree_min T (root T) (null T) = Some (adr (hd (inorder t)))"
proof -
  from assms(2) obtain c l x r where t: "t = Nd c l x r" by (cases t) auto
  obtain ms mc m mr where sp: "split_min [] c l x r = (ms, mc, m, mr)" by (metis prod.exhaust)
  have "plug ms (Nd mc Lf m mr) = t" using split_min_plug [OF sp] t by simp
  from arg_cong [OF this, of inorder] have "inorder t = m # inorder mr @ after ms"
    using split_min_before [OF sp] by (simp add: inorder_plug)
  moreover have "rbsubtree_min_loop T (adr x) (null T) = Some (adr m)"
    using min_loop_refines [of T "[]" c l x r q] sp assms(1) t by simp
  ultimately show ?thesis
    using lay_root [OF assms(1)] lay_adr_null [of T "[]" c l x r q] assms(1) t
    by (simp add: util_rbsubtree_min_def)
qed

subsection \<open>Traversal\<close>

lemma mid_travel_refines:
  assumes "lay T (plug fs t) q" "t \<noteq> Lf"
  shows "rbtree_mid_travel T opera (rp (null T) t) (null T) s =
    Some (fold (\<lambda>e. opera (the (mem T (adr e)))) (inorder t) s)"
  using assms
proof (induction t arbitrary: fs s)
  case (Nd c l x r)
  note l = lay_left [OF Nd.prems(1)] and r = lay_right [OF Nd.prems(1)]
  have ne: "rp (null T) l \<noteq> null T \<longleftrightarrow> l \<noteq> Lf" "rp (null T) r \<noteq> null T \<longleftrightarrow> r \<noteq> Lf"
    using lay_null_notin [OF l] lay_null_notin [OF r] by (cases l; cases r; simp add: ptrs_plug)+
  from Nd.IH(1) [OF l] Nd.IH(2) [OF r] show ?case
    by (cases "l = Lf"; cases "r = Lf"; subst rbtree_mid_travel.simps)
      (simp_all add: lay_get [OF Nd.prems(1)] ne lay_node [OF Nd.prems(1)])
qed simp


subsection \<open>The self-check\<close>

text \<open>
  On a red-black tree with sorted keys the check succeeds: \<open>check_ok\<close> is the accumulator's
  invariant, \<open>h\<close> the black height of the whole tree.
\<close>

definition check_ok :: "int \<Rightarrow> rbtree_check \<Rightarrow> bool" where
  "check_ok h c \<longleftrightarrow> fini c = 0 \<and> (rbh c = 0 \<or> rbh c = h)"

lemma check_rb_height_ok: "check_ok h c \<Longrightarrow> check_ok h (check_rb_height c level h)"
  by (auto simp: check_ok_def check_rb_height_def Let_def)

lemma check_subtree_ok:
  assumes "lay T (plug fs t) q" "t \<noteq> Lf" "good n t" "sorted_keys (inorder t)"
    and "check_ok (cur + int n) c"
  shows "wp (rbtree_check_subtree T (rp (null T) t) c level cur) (check_ok (cur + int n))"
  using assms
proof (induction t arbitrary: fs n cur c level)
  case (Nd cl l x r)
  note lay = Nd.prems(1)
  note ll = lay_left [OF lay] and lr = lay_right [OF lay]
  define cur' where "cur' = (if cl = Black then cur + 1 else cur)"
  have s: "sorted_keys (inorder l)" "sorted_keys (inorder r)"
    "\<forall>e \<in> set (inorder l). ekey e \<le> ekey x" "\<forall>e \<in> set (inorder r). ekey x \<le> ekey e"
    using Nd.prems(4) by (auto simp: sorted_append)
  have ne: "rp (null T) l = null T \<longleftrightarrow> l = Lf" "rp (null T) r = null T \<longleftrightarrow> r = Lf"
    using lay_null_notin [OF ll] lay_null_notin [OF lr] by (cases l; cases r; simp add: ptrs_plug)+
  obtain m where m: "good m l" "good m r" "cur' + int m = cur + int n" "cl = Red \<longrightarrow> \<not> is_red l \<and> \<not> is_red r"
    using Nd.prems(3) by (cases cl) (auto simp: cur'_def)
  have leaf: "check_ok (cur + int n) (check_rb_height c' level cur')"
    if "l = Lf \<or> r = Lf" "check_ok (cur + int n) c'" for c' level
    using m(1-3) that check_rb_height_ok [of "cur + int n" c' level] by auto
  have node: "mem T (adr x) = Some (node_of cl (rp (null T) l) x (rp (null T) r) (cp q fs))"
    by (rule lay_node [OF lay])
  have fini: "fini c = 0" using Nd.prems(5) by (simp add: check_ok_def)
  have right: "wp (if rp (null T) r \<noteq> null T then do {
         rn \<leftarrow> get T (rp (null T) r) (\<lambda>n. n);
         if col cl = 0 \<and> color rn = 0 then Some (c'\<lparr>fini := 4\<rparr>)
         else if ekey x > key rn then Some (c'\<lparr>fini := 5\<rparr>)
         else rbtree_check_subtree T (rp (null T) r) c' (level + 1) cur'
       } else Some (check_rb_height c' level cur')) (check_ok (cur + int n))"
    if "check_ok (cur + int n) c'" for c'
  proof (cases r)
    case Lf
    with leaf that ne show ?thesis by simp
  next
    case (Nd rc rl y rr)
    have "get T (adr y) (\<lambda>n. n) = Some (node_of rc (rp (null T) rl) y (rp (null T) rr) (adr x))"
      using lay_get [of T "FR cl l x # fs" rc rl y rr q] lr Nd by simp
    moreover have "ekey x \<le> ekey y" using s(4) Nd by simp
    moreover have "wp (rbtree_check_subtree T (adr y) c' (level + 1) cur') (check_ok (cur + int n))"
      using Nd.IH(2) [OF lr _ m(2) s(2), of cur' c' "level + 1"] Nd m(3) that by simp
    moreover have "adr y \<noteq> null T" using lay_adr_null [of T _ rc rl y rr q] lr Nd by blast
    ultimately show ?thesis using Nd m(4) by auto
  qed
  show ?case
  proof (cases l)
    case Lf
    with leaf Nd.prems(5) ne fini show ?thesis
      by (subst rp.simps, subst rbtree_check_subtree.simps) (cases cl; simp add: get_def node cur'_def)
  next
    case (Nd lc ll y lr)
    have "get T (adr y) (\<lambda>n. n) = Some (node_of lc (rp (null T) ll) y (rp (null T) lr) (adr x))"
      using lay_get [of T "FL cl x r # fs" lc ll y lr q] \<open>lay T (plug (FL cl x r # fs) l) q\<close> Nd by simp
    moreover have "ekey y \<le> ekey x" using s(3) Nd by simp
    moreover have "wp (rbtree_check_subtree T (adr y) c (level + 1) cur') (check_ok (cur + int n))"
      using Nd.IH(1) [OF \<open>lay T (plug (FL cl x r # fs) l) q\<close> _ m(1) s(1), of cur' c "level + 1"] Nd m(3) Nd.prems(5) by simp
    moreover have "adr y \<noteq> null T"
      using lay_adr_null [of T _ lc ll y lr q] \<open>lay T (plug (FL cl x r # fs) l) q\<close> Nd by blast
    ultimately show ?thesis using Nd m(4) fini
      apply (subst rp.simps, subst rbtree_check_subtree.simps)
      apply (cases cl; simp add: get_def node)
       apply (auto elim!: wp_mono dest!: right simp: wp_bind cur'_def get_def)
      done
  qed
qed simp

lemma check_refines:
  assumes lay: "lay T t q" and "rbt t" "sorted_keys (inorder t)"
  shows "\<exists>c. util_rbtree_check T = Some (0, c)"
proof (cases t)
  case Lf
  with lay_root [OF lay] show ?thesis by (simp add: util_rbtree_check_def)
next
  case (Nd c l x r)
  from assms(2) obtain n where n: "good n t" "\<not> is_red t" by (auto simp: rbt_good)
  have "check_ok (0 + int n) \<lparr>rbh = 0, maxd = 0, fini = 0\<rparr>" by (simp add: check_ok_def)
  with check_subtree_ok [of T "[]" t q n 0 _ 1] lay Nd n assms(3) obtain c' where
    "rbtree_check_subtree T (adr x) \<lparr>rbh = 0, maxd = 0, fini = 0\<rparr> 1 0 = Some c'" "check_ok (int n) c'"
    by (auto elim!: wpE)
  with lay_root [OF lay] lay_adr_null [of T "[]" c l x r q] lay_isblack [of T "[]" t q] lay Nd n show ?thesis
    by (simp add: util_rbtree_check_def check_ok_def)
qed

text \<open>Where the left child is missing, the check ends without looking at the right subtree.\<close>

lemma check_skips_right:
  assumes "lay T (Nd Black Lf x r) q"
  shows "util_rbtree_check T = Some (0, \<lparr>rbh = 1, maxd = 1, fini = 0\<rparr>)"
proof -
  from assms lay_node [of T "[]" Black Lf x r q] have
    "mem T (adr x) = Some (node_of Black (null T) x (rp (null T) r) q)" by simp
  with lay_root [OF assms] lay_adr_null [of T "[]" Black Lf x r q] assms show ?thesis
    by (simp add: util_rbtree_check_def util_rbt_isblack_def get_def rbtree_check_subtree.simps
      check_rb_height_def)
qed

end
