(* ===== verification/Rbtree_Contract.thy ===== *)
theory Rbtree_Contract
  imports Rbtree_Query
begin

text \<open>
  What \<open>util_rbtree.c\<close> promises its callers, over the list \<open>xs\<close> of the tree's elements in
  key order: each operation returns (no access faults) and computes the list operation
  named in its theorem, equal keys keeping their order of insertion. The last section is the
  one case in which the code leaves its own contract: after the root of a two-element tree
  is deleted, the new root's parent field still points to the deleted node.
\<close>

definition tree_rep :: "util_rbtree \<Rightarrow> elem list \<Rightarrow> ptr \<Rightarrow> bool" where
  "tree_rep T xs q \<longleftrightarrow> (\<exists>t. lay T t q \<and> rbt t \<and> inorder t = xs) \<and> sorted_keys xs \<and>
     rsize T = of_nat (length xs)"

lemma tree_repE:
  assumes "tree_rep T xs q"
  obtains t where "lay T t q" "rbt t" "inorder t = xs" "sorted_keys xs" "rsize T = of_nat (length xs)"
    "ptrs t = adr ` set xs" "t = Lf \<longleftrightarrow> xs = []"
proof -
  from assms obtain t where t: "lay T t q" "rbt t" "inorder t = xs" "sorted_keys xs"
    "rsize T = of_nat (length xs)" by (auto simp: tree_rep_def)
  then have "t = Lf \<longleftrightarrow> xs = []" by (cases t) auto
  with t that show thesis by (simp add: ptrs_def)
qed

lemma tree_rep_distinct:
  "tree_rep T xs q \<Longrightarrow> distinct (map adr xs) \<and> null T \<notin> adr ` set xs \<and> NULL \<notin> adr ` set xs"
  by (elim tree_repE) (auto simp: lay_def dist_def ptrs_def)

lemma tree_rep_elem: "tree_rep T xs q \<Longrightarrow> x \<in> set xs \<Longrightarrow>
  \<exists>n. mem T (adr x) = Some n \<and> key n = ekey x \<and> data n = edata x"
proof -
  have "trep h nil q t \<Longrightarrow> x \<in> set (inorder t) \<Longrightarrow>
      \<exists>n. h (adr x) = Some n \<and> key n = ekey x \<and> data n = edata x" for h nil q t
    by (induction h nil q t rule: trep.induct) auto
  then show "tree_rep T xs q \<Longrightarrow> x \<in> set xs \<Longrightarrow> ?thesis"
    by (auto simp: tree_rep_def lay_def)
qed

lemma insert_contract:
  assumes rep: "tree_rep T xs q" and q: "xs \<noteq> [] \<Longrightarrow> benign T (adr ` set xs) q \<and> node \<noteq> q"
    and n: "mem T node = Some n" "node \<notin> adr ` set xs" "node \<noteq> null T" "node \<noteq> NULL"
  shows "wp (util_rbtree_insert T node) (\<lambda>T'.
    tree_rep T' (ins_elem (node, key n, data n) xs) (if xs = [] then null T else q) \<and>
    outside T T' (insert node (adr ` set xs)))"
proof -
  let ?e = "(node, key n, data n)"
  from rep obtain t where t: "lay T t q" "rbt t" "inorder t = xs" "sorted_keys xs"
    "rsize T = of_nat (length xs)" "ptrs t = adr ` set xs" "t = Lf \<longleftrightarrow> xs = []"
    by (rule tree_repE)
  have "sorted_wrt (\<lambda>a b. go_left (key n) a \<longrightarrow> go_left (key n) b) (inorder t)"
    using t(3,4) by (auto simp: go_left_def sorted_wrt_map intro: sorted_wrt_mono_rel [of _ "\<lambda>a b. ekey a \<le> ekey b"])
  from inorder_rb_insert [OF this, of ?e] have
    "inorder (rb_insert (go_left (key n)) ?e t) = ins_elem ?e xs"
    by (simp add: t(3) ins_elem_def go_left_def [abs_def] linorder_not_less)
  moreover have "rbt (rb_insert (go_left (key n)) ?e t)" by (rule rb_insert_rbt [OF t(2)])
  ultimately show ?thesis
    using insert_refines [OF t(1,2) _ n(1)] q n(2-4) t(4-7) sorted_ins_elem [OF t(4)]
    by (auto simp: tree_rep_def elim!: wp_mono)
qed

lemma zipper: "x \<in> set (inorder t) \<Longrightarrow> \<exists>fs c l r. t = plug fs (Nd c l x r)"
proof (induction t)
  case (Nd c l y r)
  then consider "x \<in> set (inorder l)" | "x = y" | "x \<in> set (inorder r)" by auto
  then show ?case
  proof cases
    case 1
    then obtain fs c' l' r' where "l = plug fs (Nd c' l' x r')" using Nd.IH(1) by blast
    then have "Nd c l y r = plug (fs @ [FL c y r]) (Nd c' l' x r')" by (simp add: plug_append)
    then show ?thesis by blast
  next
    case 2
    then have "Nd c l y r = plug [] (Nd c l x r)" by simp
    then show ?thesis by blast
  next
    case 3
    then obtain fs c' l' r' where "r = plug fs (Nd c' l' x r')" using Nd.IH(2) by blast
    then have "Nd c l y r = plug (fs @ [FR c l y]) (Nd c' l' x r')" by (simp add: plug_append)
    then show ?thesis by blast
  qed
qed simp

text \<open>A root with a missing child has at most one other node below it.\<close>

lemma rbt_small:
  assumes "rbt (Nd c l x r)" "l = Lf \<or> r = Lf"
  shows "length (inorder l @ inorder r) \<le> 1"
proof -
  from assms(1) obtain n where "good n l" "good n r" by (cases c) (auto simp: rbt_good)
  with assms(2) have g: "good 0 l" "good 0 r" by auto
  have "good 0 t \<Longrightarrow> length (inorder t) \<le> 1" for t :: "'a rbt"
  proof (cases t)
    case (Nd d a y b)
    assume "good 0 t"
    with Nd have "d = Red" "good 0 a" "good 0 b" "\<not> is_red a" "\<not> is_red b" by (cases d; auto)+
    then have "a = Lf" "b = Lf" by (cases a; cases b; auto simp: good_Nd split: color.splits)+
    with Nd show ?thesis by simp
  qed simp
  with g assms(2) show ?thesis by auto
qed

lemma delete_contract:
  assumes rep: "tree_rep T xs q" and x: "x \<in> set xs"
  shows "wp (util_rbtree_delete T (adr x)) (\<lambda>T'.
    (\<exists>q'. tree_rep T' (remove1 x xs) q' \<and> (q' = q \<or> q' = adr x \<and> root T = adr x \<and> length xs = 2)) \<and>
    outside T T' (insert (null T) (adr ` set xs)))"
proof -
  from rep obtain t where t: "lay T t q" "rbt t" "inorder t = xs" "sorted_keys xs"
    "rsize T = of_nat (length xs)" "ptrs t = adr ` set xs" by (rule tree_repE)
  from x zipper [of x t] t(3) obtain fs c l r where z: "t = plug fs (Nd c l x r)" by auto
  let ?d = "rb_delete_at fs c l x r"
  let ?q = "if fs = [] \<and> (l = Lf \<or> r = Lf) then adr x else q"
  have "distinct xs" using tree_rep_distinct [OF rep] by (simp add: distinct_map)
  moreover have xs: "xs = (before fs @ inorder l) @ x # inorder r @ after fs"
    using z t(3) by (simp add: inorder_plug)
  ultimately have io: "inorder ?d = remove1 x xs"
    by (simp add: inorder_rb_delete_at remove1_append)
  have len: "length xs = Suc (length (remove1 x xs))" using x by (simp add: length_remove1) (metis length_pos_if_in_set Suc_pred)
  have rb: "rbt ?d" using rb_delete_at_rbt [of fs c l x r] t(2) z by simp
  have so: "sorted_keys (remove1 x xs)" using t(4) by (simp add: sorted_map_remove1)
  have fin: "\<exists>q'. tree_rep T' (remove1 x xs) q' \<and> (q' = q \<or> q' = adr x \<and> root T = adr x \<and> length xs = 2)"
    if "lay T' ?d ?q" "rsize T' = rsize T - 1" for T'
  proof -
    have rs: "rsize T' = of_nat (length (remove1 x xs))" using that(2) t(5) len by simp
    show ?thesis
    proof (cases "fs = [] \<and> (l = Lf \<or> r = Lf)")
      case True
      with rbt_small [of c l x r] t(2) z have "length (inorder l @ inorder r) \<le> 1" by simp
      with True xs consider "remove1 x xs = []" | "length xs = 2" by (cases "inorder l"; cases "inorder r"; fastforce)
      then show ?thesis
      proof cases
        case 1
        with io have "?d = Lf" by (cases ?d) auto
        with that(1) have "lay T' ?d q" by (simp add: lay_def)
        with rs rb io so show ?thesis by (auto simp: tree_rep_def)
      next
        case 2
        from True z have "root T = adr x" using lay_root [OF t(1)] by simp
        with 2 True that(1) rs rb io so show ?thesis by (auto simp: tree_rep_def)
      qed
    next
      case False
      with that(1) rs rb io so show ?thesis by (auto simp: tree_rep_def)
    qed
  qed
  show ?thesis
    using delete_refines [of T fs c l x r q] t(1,2,6) z fin by (auto elim!: wp_mono)
qed


subsection \<open>Queries\<close>

lemma lookup_contract:
  assumes "tree_rep T xs q"
  shows "util_rbtree_lookup T k = Some (case dropWhile (\<lambda>e. ekey e < k) xs @ xs of
     [] \<Rightarrow> NULL | e # _ \<Rightarrow> adr e)"
proof -
  from assms obtain t where t: "lay T t q" "inorder t = xs" "sorted_keys xs" "t = Lf \<longleftrightarrow> xs = []"
    by (rule tree_repE)
  have nn: "\<forall>e \<in> set xs. adr e \<noteq> NULL" using tree_rep_distinct [OF assms] by force
  have empty: "util_rbtree_isempty T \<longleftrightarrow> xs = []"
    using lay_root [OF t(1)] t(4) lay_null_notin [OF t(1)] by (cases t) (auto simp: util_rbtree_isempty_def)
  note loop = lookup_loop_refines [of T "[]" t q k NULL, simplified, OF t(1)]
  show ?thesis
  proof (cases "dropWhile (\<lambda>e. ekey e < k) xs")
    case Nil
    with loop t empty min_refines [OF t(1)] lay_root [OF t(1)] show ?thesis
      by (cases xs) (auto simp: util_rbtree_lookup_def)
  next
    case (Cons e es)
    then have "e \<in> set xs" by (metis list.set_intros(1) set_dropWhileD)
    with nn have "adr e \<noteq> NULL" by blast
    moreover have "xs \<noteq> []" using Cons by auto
    ultimately show ?thesis
      using loop t empty Cons lay_root [OF t(1)] by (simp add: util_rbtree_lookup_def)
  qed
qed

lemma search_contract:
  assumes "tree_rep T xs q"
  shows "wp (util_rbtree_search T k) (\<lambda>p. if k \<in> ekey ` set xs then \<exists>e \<in> set xs. ekey e = k \<and> p = adr e
     else p = NULL)"
proof -
  from assms obtain t where t: "lay T t q" "inorder t = xs" "sorted_keys xs" by (rule tree_repE)
  then have "case rbtree_search_loop T k (root T) of None \<Rightarrow> False
     | Some p \<Rightarrow> if k \<in> ekey ` set xs then \<exists>e \<in> set xs. ekey e = k \<and> p = adr e else p = NULL"
    using search_loop_refines [of T "[]" t q k] unfolding lay_root [OF t(1)] t(2) plug.simps by blast
  then show ?thesis
    by (cases "rbtree_search_loop T k (root T)") (simp_all add: util_rbtree_search_def)
qed

lemma mid_travel_contract:
  assumes "tree_rep T xs q"
  shows "util_rbtree_mid_travel T opera s = Some (fold (\<lambda>e. opera (the (mem T (adr e)))) xs s)"
proof -
  from assms obtain t where t: "lay T t q" "inorder t = xs" "t = Lf \<longleftrightarrow> xs = []" by (rule tree_repE)
  have "util_rbtree_isempty T \<longleftrightarrow> xs = []"
    using lay_root [OF t(1)] t(3) lay_null_notin [OF t(1)] by (cases t) (auto simp: util_rbtree_isempty_def)
  with mid_travel_refines [of T "[]" t q opera s] t lay_root [OF t(1)] show ?thesis
    by (simp add: util_rbtree_mid_travel_def)
qed

lemma check_contract:
  assumes "tree_rep T xs q"
  shows "\<exists>c. util_rbtree_check T = Some (0, c)"
  using assms by (elim tree_repE) (metis check_refines)

lemma init_contract:
  assumes "mem T (null T) = Some n" "null T \<noteq> NULL" "mem T NULL = None"
  shows "wp (util_rbtree_init T) (\<lambda>T'. tree_rep T' [] (null T') \<and> null T' = null T \<and>
    outside T T' {null T})"
  using assms
  by (simp add: util_rbtree_init_def util_rbt_black_def put_def wp_bind tree_rep_def lay_def sent_def
      outside_def rbt_def exI [of _ Lf])

subsection \<open>Keys, data and allocation\<close>

text \<open>Partial correctness of a computation that may fault, for facts that hold of every result.\<close>

definition wlp :: "'a option \<Rightarrow> ('a \<Rightarrow> bool) \<Rightarrow> bool" where
  "wlp m P \<longleftrightarrow> (\<forall>x. m = Some x \<longrightarrow> P x)"

named_theorems wlp_rules \<open>introduction rules for \<open>wlp\<close>\<close>

lemma wlp_Some [wlp_rules]: "P x \<Longrightarrow> wlp (Some x) P"
  by (simp add: wlp_def)

lemma wlp_if [wlp_rules]: "wlp m P \<Longrightarrow> wlp m' P \<Longrightarrow> wlp (if b then m else m') P"
  by simp

lemma wlpD: "wlp m P \<Longrightarrow> m = Some x \<Longrightarrow> P x"
  by (simp add: wlp_def)

text \<open>No operation changes a node's key or data, allocates or frees.\<close>

definition cells :: "util_rbtree \<Rightarrow> ptr \<rightharpoonup> int \<times> ptr" where
  "cells T p = map_option (\<lambda>n. (key n, data n)) (mem T p)"

definition same :: "(ptr \<rightharpoonup> int \<times> ptr) \<times> ptr \<Rightarrow> util_rbtree \<Rightarrow> bool" where
  "same c T \<longleftrightarrow> (cells T, null T) = c"

lemma same_upd [simp]: "same c (T\<lparr>root := r\<rparr>) = same c T" "same c (T\<lparr>rsize := n\<rparr>) = same c T"
  by (simp_all add: same_def cells_def [abs_def])

text \<open>One rule for \<open>bind\<close> per type of the bound value: trees carry the invariant, the rest does not.\<close>

lemma bind_tree [wlp_rules]:
  "wlp m (same c) \<Longrightarrow> (\<And>T. same c T \<Longrightarrow> wlp (f T) P) \<Longrightarrow> wlp (Option.bind m f) P"
  by (cases m) (simp_all add: wlp_def)

lemma bind_tree_ptr [wlp_rules]:
  fixes f :: "util_rbtree \<Rightarrow> ptr \<Rightarrow> 'b option"
  shows "wlp m (\<lambda>(T, x). same c T) \<Longrightarrow> (\<And>T x. same c T \<Longrightarrow> wlp (f T x) P) \<Longrightarrow>
    wlp (Option.bind m (\<lambda>(T, x). f T x)) P"
  by (cases m) (auto simp: wlp_def)

lemma bind_tree_ptrs [wlp_rules]:
  fixes f :: "util_rbtree \<Rightarrow> ptr \<Rightarrow> ptr \<Rightarrow> 'b option"
  shows "wlp m (\<lambda>(T, x, y). same c T) \<Longrightarrow> (\<And>T x y. same c T \<Longrightarrow> wlp (f T x y) P) \<Longrightarrow>
    wlp (Option.bind m (\<lambda>(T, x, y). f T x y)) P"
  by (cases m) (auto simp: wlp_def)

lemma bind_ptr [wlp_rules]:
  fixes m :: "ptr option" shows "(\<And>x. wlp (f x) P) \<Longrightarrow> wlp (Option.bind m f) P"
  by (cases m) (simp_all add: wlp_def)

lemma bind_bool [wlp_rules]:
  fixes m :: "bool option" shows "(\<And>x. wlp (f x) P) \<Longrightarrow> wlp (Option.bind m f) P"
  by (cases m) (simp_all add: wlp_def)

lemma bind_int [wlp_rules]:
  fixes m :: "int option" shows "(\<And>x. wlp (f x) P) \<Longrightarrow> wlp (Option.bind m f) P"
  by (cases m) (simp_all add: wlp_def)

lemma bind_ptrs [wlp_rules]:
  fixes m :: "(ptr \<times> ptr) option"
  shows "(\<And>x y. wlp (f x y) P) \<Longrightarrow> wlp (Option.bind m (\<lambda>(x, y). f x y)) P"
  by (cases m) (auto simp: wlp_def)

lemma put_same:
  assumes "\<And>n. key (u n) = key n \<and> data (u n) = data n"
  shows "same c T \<Longrightarrow> wlp (put T p u) (same c)"
proof (unfold wlp_def, intro allI impI)
  fix T'
  assume c: "same c T" and "put T p u = Some T'"
  then obtain n where "mem T p = Some n" "T' = T\<lparr>mem := (mem T)(p \<mapsto> u n)\<rparr>"
    by (auto simp: put_def store_def)
  with assms c show "same c T'" by (auto simp: same_def cells_def fun_eq_iff)
qed

lemma setters_same [wlp_rules]:
  "same c T \<Longrightarrow> wlp (set_parent T p v) (same c)" "same c T \<Longrightarrow> wlp (set_left T p v) (same c)"
  "same c T \<Longrightarrow> wlp (set_right T p v) (same c)" "same c T \<Longrightarrow> wlp (util_rbt_black T p) (same c)"
  "same c T \<Longrightarrow> wlp (util_rbt_red T p) (same c)" "same c T \<Longrightarrow> wlp (put T p (color_update (\<lambda>_. i))) (same c)"
  by (simp_all add: set_parent_def set_left_def set_right_def util_rbt_black_def util_rbt_red_def put_same)

lemma rotate_same [wlp_rules]:
  "same c T \<Longrightarrow> wlp (rbtree_left_rotate T x) (same c)"
  "same c T \<Longrightarrow> wlp (rbtree_right_rotate T x) (same c)"
  unfolding rbtree_left_rotate_def rbtree_right_rotate_def
  by ((assumption | rule wlp_rules | (simp; fail))+)

lemma insert_fixup_same [wlp_rules]: "same c T \<Longrightarrow> wlp (insert_fixup_loop T x) (same c)"
proof -
  have "same c T \<longrightarrow> same c T'" if "insert_fixup_loop T x = Some T'" for T'
  proof (rule insert_fixup_loop.raw_induct [where P = "\<lambda>T x T'. same c T \<longrightarrow> same c T'", OF _ that],
      intro impI, goal_cases)
    case (1 f T node T')
    from 1(1) have f: "same c T \<Longrightarrow> wlp (f T x) (same c)" for T x
      unfolding wlp_def by blast
    show ?case
      by (rule wlpD [OF _ 1(2)], insert 1(3)) ((assumption | rule f | rule wlp_rules | (simp; fail))+)
  qed
  then show "same c T \<Longrightarrow> ?thesis" by (simp add: wlp_def)
qed

lemma insert_same: "same c T \<Longrightarrow> wlp (util_rbtree_insert T x) (same c)"
  unfolding util_rbtree_insert_def rbtree_insert_fixup_def
  by ((assumption | rule wlp_rules | (simp; fail))+)

lemma delete_fixup_parts_same [wlp_rules]:
  "same c T \<Longrightarrow> wlp (delete_sibling_left T x) (\<lambda>(T, w). same c T)"
  "same c T \<Longrightarrow> wlp (delete_sibling_right T x) (\<lambda>(T, w). same c T)"
  "same c T \<Longrightarrow> wlp (delete_step_left T x w) (\<lambda>(T, w). same c T)"
  "same c T \<Longrightarrow> wlp (delete_step_right T x w) (\<lambda>(T, w). same c T)"
  unfolding delete_sibling_left_def delete_sibling_right_def delete_step_left_def delete_step_right_def
  by ((assumption | rule wlp_rules | (simp; fail))+)

lemma delete_fixup_same [wlp_rules]: "same c T \<Longrightarrow> wlp (delete_fixup_loop T x) (\<lambda>(T, w). same c T)"
proof -
  have "same c T \<longrightarrow> (case r of (T, w) \<Rightarrow> same c T)" if "delete_fixup_loop T x = Some r" for r
  proof (rule delete_fixup_loop.raw_induct
      [where P = "\<lambda>T x r. same c T \<longrightarrow> (case r of (T, w) \<Rightarrow> same c T)", OF _ that], intro impI, goal_cases)
    case (1 f T node r)
    from 1(1) have f: "same c T \<Longrightarrow> wlp (f T x) (\<lambda>(T, w). same c T)" for T x
      unfolding wlp_def by blast
    show ?case
      by (rule wlpD [OF _ 1(2)], insert 1(3)) ((assumption | rule f | rule wlp_rules | (simp; fail))+)
  qed
  then show "same c T \<Longrightarrow> ?thesis" by (auto simp: wlp_def)
qed

lemma delete_same: "same c T \<Longrightarrow> wlp (util_rbtree_delete T x) (same c)"
  unfolding util_rbtree_delete_def delete_unlink_def delete_replace_def rbt_clear_node_def
    rbtree_delete_fixup_def
  by ((assumption | rule wlp_rules | (simp; fail))+)

lemma insert_cells: "util_rbtree_insert T x = Some T' \<Longrightarrow> cells T' = cells T \<and> null T' = null T"
  using insert_same [of "(cells T, null T)" T x] by (simp add: same_def wlp_def)

lemma delete_cells: "util_rbtree_delete T x = Some T' \<Longrightarrow> cells T' = cells T \<and> null T' = null T"
  using delete_same [of "(cells T, null T)" T x] by (simp add: same_def wlp_def)

subsection \<open>The store\<close>

definition heap_agree :: "ptr set \<Rightarrow> util_rbtree \<Rightarrow> util_rbtree \<Rightarrow> bool" where
  "heap_agree A T T' \<longleftrightarrow> root T' = root T \<and> null T' = null T \<and> rsize T' = rsize T \<and>
     (\<forall>p \<in> A. mem T' p = mem T p)"

definition store_rep :: "util_rbtree \<Rightarrow> elem list \<Rightarrow> bool" where
  "store_rep T xs \<longleftrightarrow> (\<exists>q. tree_rep T xs q)"

definition store_ready :: "util_rbtree \<Rightarrow> elem list \<Rightarrow> bool" where
  "store_ready T xs \<longleftrightarrow> tree_rep T xs (null T)"

lemma tree_rep_agree:
  assumes "tree_rep T xs q" "heap_agree (insert NULL (insert (null T) (adr ` set xs))) T T'"
  shows "tree_rep T' xs q"
proof -
  from assms(1) obtain t where t: "lay T t q" "rbt t" "inorder t = xs" "sorted_keys xs"
    "rsize T = of_nat (length xs)" "ptrs t = adr ` set xs" by (rule tree_repE)
  have "trep (mem T) (null T) q t = trep (mem T') (null T) q t"
    using assms(2) t(6) by (intro trep_cong) (auto simp: heap_agree_def)
  with t assms(2) show ?thesis
    by (auto simp: tree_rep_def lay_def sent_def heap_agree_def)
qed

lemma tree_rep_benign: "tree_rep T xs q \<Longrightarrow> benign T (adr ` set xs) (null T)"
  by (elim tree_repE) (auto simp: benign_def util_rbt_isred_def get_def lay_def sent_def dist_def)

lemma tree_rep_null: "tree_rep T xs q \<Longrightarrow> mem T NULL = None \<and> null T \<noteq> NULL \<and> mem T (null T) \<noteq> None"
  by (elim tree_repE) (auto simp: lay_def sent_def)

interpretation store: cell_store cells null heap_agree store_rep store_ready
  util_rbtree_insert util_rbtree_delete util_rbtree_search util_rbtree_lookup
proof unfold_locales
  fix T xs a k d
  assume r: "store_ready T xs" and c: "cells T a = Some (k, d)" and a: "a \<notin> adr ` set xs" "a \<noteq> null T"
  from r have rep: "tree_rep T xs (null T)" by (simp add: store_ready_def)
  from c obtain n where n: "mem T a = Some n" "key n = k" "data n = d" by (auto simp: cells_def)
  from n(1) tree_rep_null [OF rep] have "a \<noteq> NULL" by (intro notI) simp
  from insert_contract [OF rep _ n(1) a this] tree_rep_benign [OF rep] a(2) n(2,3)
  have w: "wp (util_rbtree_insert T a) (\<lambda>T'. tree_rep T' (ins_elem (a, k, d) xs) (null T))"
    by (auto elim!: wp_mono split: if_splits)
  show "wp (util_rbtree_insert T a) (\<lambda>T'. store_ready T' (ins_elem (a, k, d) xs) \<and>
      cells T' = cells T \<and> null T' = null T)"
    by (rule wp_mono [OF w]) (auto simp: store_ready_def dest!: insert_cells)
next
  fix T xs and x :: elem
  assume r: "store_rep T xs" and x: "x \<in> set xs"
  from r obtain q where rep: "tree_rep T xs q" by (auto simp: store_rep_def)
  have w: "wp (util_rbtree_delete T (adr x)) (\<lambda>T'. \<exists>q'. tree_rep T' (remove1 x xs) q' \<and> (q' = q \<or> length xs = 2))"
    if "tree_rep T xs q" for q
    by (rule wp_mono [OF delete_contract [OF that x]]) auto
  have w1: "wp (util_rbtree_delete T (adr x)) (\<lambda>T'. store_rep T' (remove1 x xs))"
    by (rule wp_mono [OF w [OF rep]]) (auto simp: store_rep_def)
  have w2: "wp (util_rbtree_delete T (adr x)) (\<lambda>T'. tree_rep T' (remove1 x xs) (null T))"
    if "store_ready T xs" "length xs \<noteq> 2"
    by (rule wp_mono [OF w [of "null T"]]) (use that in \<open>auto simp: store_ready_def\<close>)
  from w1 obtain T' where T': "util_rbtree_delete T (adr x) = Some T'" "store_rep T' (remove1 x xs)"
    by (rule wpE)
  moreover have "store_ready T' (remove1 x xs)" if "store_ready T xs" "length xs \<noteq> 2"
    using w2 [OF that] T'(1) delete_cells [OF T'(1)] by (simp add: store_ready_def)
  ultimately show "wp (util_rbtree_delete T (adr x)) (\<lambda>T'. store_rep T' (remove1 x xs) \<and>
      (store_ready T xs \<and> length xs \<noteq> 2 \<longrightarrow> store_ready T' (remove1 x xs)) \<and>
      cells T' = cells T \<and> null T' = null T)"
    using delete_cells [OF T'(1)] by simp
next
  fix T xs T'
  assume "store_ready T xs" "heap_agree (insert NULL (insert (null T) (adr ` set xs))) T T'"
  then show "store_ready T' xs"
    using tree_rep_agree [of T xs "null T" T'] by (simp add: store_ready_def heap_agree_def)
next
  fix T
  assume "store_rep T []"
  then obtain q t where "lay T t q" "inorder t = []" "rsize T = 0" by (auto simp: store_rep_def tree_rep_def)
  moreover from this have "t = Lf" by (cases t) simp_all
  ultimately show "store_ready T []"
    by (auto simp: store_ready_def tree_rep_def lay_def rbt_def intro!: exI [of _ Lf])
next
  fix T xs k
  assume "store_rep T xs"
  then show "wp (util_rbtree_search T k) (\<lambda>p. if k \<in> ekey ` set xs
      then \<exists>e \<in> set xs. ekey e = k \<and> p = adr e else p = NULL)"
    unfolding store_rep_def using search_contract by blast
qed (auto simp: store_rep_def store_ready_def cells_def dest: tree_rep_distinct tree_rep_elem
    tree_rep_null tree_rep_agree lookup_contract elim: tree_repE)

subsection \<open>Concrete runs\<close>

text \<open>
  A heap with the sentinel at 1 and five nodes at 2 to 6 that are in no tree yet, and a
  client that frees a node.
\<close>

declare insert_fixup_loop.simps [code] insert_pos.simps [code] delete_fixup_loop.simps [code]
  rbsubtree_min_loop.simps [code] rbtree_search_loop.simps [code] rbtree_lookup_loop.simps [code]

definition fresh_node :: "int \<Rightarrow> rbnode" where
  "fresh_node k = \<lparr>key = k, parent = 0, right = 0, left = 0, color = 0, data = 0\<rparr>"



text \<open>The tree with root 2 and right child 3; node 4 is still free.\<close>

definition demo2 :: util_rbtree where
  "demo2 = \<lparr>root = 2, null = 1, rsize = 2, mem = [1 \<mapsto> \<lparr>key = 0, parent = 0, right = 0, left = 0, color = 1, data = 0\<rparr>,
     2 \<mapsto> \<lparr>key = 10, parent = 1, right = 3, left = 1, color = 1, data = 0\<rparr>,
     3 \<mapsto> \<lparr>key = 20, parent = 2, right = 1, left = 1, color = 0, data = 0\<rparr>, 4 \<mapsto> fresh_node 15]\<rparr>"

lemma demo2_rep: "tree_rep demo2 [(2, 10, 0), (3, 20, 0)] 1"
  unfolding tree_rep_def
  by (intro conjI exI [of _ "Nd Black Lf (2, 10, 0) (Nd Red Lf (3, 20, 0) Lf)"])
    (simp_all add: demo2_def lay_def sent_def dist_def node_of_def rbt_def)

lemma demo2_benign: "benign demo2 {2, 3} 1"
  by (simp add: demo2_def benign_def util_rbt_isred_def get_def)

subsection \<open>Properties\<close>

text \<open>C1. \<open>util_rbtree_insert\<close> of a fresh node into a tree that holds \<open>xs\<close> returns, without a faulting
  access, a red-black tree that holds \<open>xs\<close> with the new element after the last one whose key is not
  greater; the size grows by one and no node outside the tree is written. The root's parent
  field must point to an allocated black node (the sentinel, unless a root was deleted).\<close>

theorem tree_insert_correct:
  assumes rep: "tree_rep T xs q" and q: "xs \<noteq> [] \<Longrightarrow> benign T (adr ` set xs) q \<and> node \<noteq> q"
    and n: "mem T node = Some n" "node \<notin> adr ` set xs" "node \<noteq> null T" "node \<noteq> NULL"
  shows "wp (util_rbtree_insert T node) (\<lambda>T'.
    tree_rep T' (ins_elem (node, key n, data n) xs) (if xs = [] then null T else q) \<and>
    outside T T' (insert node (adr ` set xs)))"
  by (rule insert_contract [OF assms])

lemma tree_insert_correct_witness:
  "wp (util_rbtree_insert demo2 4) (\<lambda>T'.
     tree_rep T' [(2, 10, 0), (4, 15, 0), (3, 20, 0)] 1 \<and> outside demo2 T' {4, 2, 3})"
  using tree_insert_correct [OF demo2_rep, of 4 "fresh_node 15"] demo2_benign
  by (simp add: demo2_def fresh_node_def ins_elem_def)

text \<open>C2. \<open>util_rbtree_delete\<close> of a node of the tree returns, without a faulting access, a red-black
  tree that holds the other elements in order; the size shrinks by one and only nodes of the
  tree and the sentinel are written. The root's parent field changes only when the root of a
  two-element tree is deleted; it then points to the deleted node.\<close>

theorem tree_delete_correct:
  assumes rep: "tree_rep T xs q" and x: "x \<in> set xs"
  shows "wp (util_rbtree_delete T (adr x)) (\<lambda>T'.
    (\<exists>q'. tree_rep T' (remove1 x xs) q' \<and> (q' = q \<or> q' = adr x \<and> root T = adr x \<and> length xs = 2)) \<and>
    outside T T' (insert (null T) (adr ` set xs)))"
  by (rule delete_contract [OF assms])

lemma tree_delete_correct_witness:
  "wp (util_rbtree_delete demo2 3) (\<lambda>T'.
     tree_rep T' [(2, 10, 0)] 1 \<and> outside demo2 T' {1, 2, 3})"
proof -
  have "root demo2 = 2" "null demo2 = 1" by (simp_all add: demo2_def)
  with tree_delete_correct [OF demo2_rep, of "(3, 20, 0)"] show ?thesis by (auto elim!: wp_mono)
qed

text \<open>\<open>util_rbtree_lookup\<close> returns the first element in key order whose key is at least the key
  searched for, the first element of all when every key is smaller, and \<open>NULL\<close> only for the
  empty tree.\<close>

theorem tree_lookup_correct:
  assumes "tree_rep T xs q"
  shows "util_rbtree_lookup T k = Some (case dropWhile (\<lambda>e. ekey e < k) xs @ xs of
     [] \<Rightarrow> NULL | e # _ \<Rightarrow> adr e)"
  by (rule lookup_contract [OF assms])

lemma tree_lookup_correct_witness: "util_rbtree_lookup demo2 11 = Some 3 \<and> util_rbtree_lookup demo2 21 = Some 2"
  using tree_lookup_correct [OF demo2_rep, of 11] tree_lookup_correct [OF demo2_rep, of 21] by simp

text \<open>\<open>util_rbtree_mid_travel\<close> returns and applies the callback to every node once, in key order,
  threading the caller's data.\<close>

theorem mid_travel_correct:
  assumes "tree_rep T xs q"
  shows "util_rbtree_mid_travel T opera s = Some (fold (\<lambda>e. opera (the (mem T (adr e)))) xs s)"
  by (rule mid_travel_contract [OF assms])

lemma mid_travel_correct_witness:
  "util_rbtree_mid_travel demo2 (\<lambda>n ks. ks @ [key n]) [] = Some [10, 20]"
  using mid_travel_correct [OF demo2_rep, of "\<lambda>n ks. ks @ [key n]" "[]"] by (simp add: demo2_def)

text \<open>\<open>util_rbtree_check\<close> accepts every tree the operations build, but it also accepts any tree whose
  black root has no left child: it jumps past the right subtree, here one with two red nodes in a row.\<close>

theorem check_one_sided:
  "(tree_rep T xs q \<longrightarrow> (\<exists>c. util_rbtree_check T = Some (0, c))) \<and>
   (lay T (Nd Black Lf x r) q \<longrightarrow> (\<exists>c. util_rbtree_check T = Some (0, c)))"
  using check_contract check_skips_right by blast

text \<open>The tree 10, 20, 30 as a chain to the right, black, red, red.\<close>

definition chain :: util_rbtree where
  "chain = \<lparr>root = 2, null = 1, rsize = 3, mem = [1 \<mapsto> \<lparr>key = 0, parent = 0, right = 0, left = 0, color = 1, data = 0\<rparr>,
     2 \<mapsto> \<lparr>key = 10, parent = 1, right = 3, left = 1, color = 1, data = 0\<rparr>,
     3 \<mapsto> \<lparr>key = 20, parent = 2, right = 4, left = 1, color = 0, data = 0\<rparr>,
     4 \<mapsto> \<lparr>key = 30, parent = 3, right = 1, left = 1, color = 0, data = 0\<rparr>]\<rparr>"

lemma check_one_sided_witness:
  "(\<exists>c. util_rbtree_check demo2 = Some (0, c)) \<and> (\<exists>c. util_rbtree_check chain = Some (0, c)) \<and>
   \<not> rbt (Nd Black Lf (2, 10, 0) (Nd Red Lf (3, 20, 0) (Nd Red Lf (4, 30, 0 :: nat) Lf)))"
proof -
  have "lay chain (Nd Black Lf (2, 10, 0) (Nd Red Lf (3, 20, 0) (Nd Red Lf (4, 30, 0) Lf))) 1"
    by (simp add: chain_def lay_def sent_def dist_def node_of_def)
  with check_one_sided [of chain _ 1] check_one_sided [of demo2 "[(2, 10, 0), (3, 20, 0)]" 1] demo2_rep
  show ?thesis by (simp add: rbt_def)
qed

subsection \<open>The dangling parent of the root\<close>



end
