(* ===== verification/Conhash_Ring.thy ===== *)
theory Conhash_Ring
  imports Conhash Hash_Ring Rbtree_Contract
begin

text \<open>
  The consistent-hashing library implements the abstract ring of \<open>Hash_Ring\<close>: adding and
  deleting a server are ring updates at the hashes of its replicas, and \<open>conhash_lookup\<close> is
  \<open>ring_lookup\<close>. The proofs use the tree only through the interface \<open>cell_store\<close>.
\<close>

subsection \<open>Representation\<close>

definition point_of :: "conhash_s \<Rightarrow> elem \<Rightarrow> int \<times> ptr" where
  "point_of C e = (ekey e, vnode (the (vnodes C (edata e))))"

text \<open>Every cell of the tree carries its own \<open>virtual_node_s\<close>, and keys are distinct.\<close>

definition hash_inv :: "conhash_s \<Rightarrow> elem list \<Rightarrow> bool" where
  "hash_inv C xs \<longleftrightarrow> distinct (map ekey xs) \<and> distinct (map edata xs) \<and>
     (\<forall>e \<in> set xs. \<exists>v. vnodes C (edata e) = Some v \<and> vhash v = ekey e) \<and>
     ivnodes C = of_nat (length xs)"

definition ring_rep :: "conhash_s \<Rightarrow> ring \<Rightarrow> bool" where
  "ring_rep C r \<longleftrightarrow> (\<exists>xs. store_rep (vnode_tree C) xs \<and> hash_inv C xs \<and> r = map (point_of C) xs)"

definition ring_ready :: "conhash_s \<Rightarrow> ring \<Rightarrow> bool" where
  "ring_ready C r \<longleftrightarrow> (\<exists>xs. store_ready (vnode_tree C) xs \<and> hash_inv C xs \<and> r = map (point_of C) xs)"

text \<open>
  The allocator returns addresses of no allocated block, each once; \<open>enough k\<close>: the next \<open>k\<close>
  virtual nodes can be allocated.
\<close>

definition mallocs_ok :: "conhash_s \<Rightarrow> bool" where
  "mallocs_ok C \<longleftrightarrow> distinct (filter (\<lambda>a. a \<noteq> NULL) (mallocs C)) \<and>
     (\<forall>a \<in> set (mallocs C). a \<noteq> NULL \<longrightarrow> mem (vnode_tree C) a = None \<and> vnodes C a = None)"

definition enough :: "nat \<Rightarrow> conhash_s \<Rightarrow> bool" where
  "enough k C \<longleftrightarrow> 2 * k \<le> length (mallocs C) \<and> NULL \<notin> set (mallocs C)"

text \<open>What an operation keeps apart from the ring.\<close>

definition env_same :: "conhash_s \<Rightarrow> conhash_s \<Rightarrow> bool" where
  "env_same C C' \<longleftrightarrow> nodes C' = nodes C \<and> cb_hashfunc C' = cb_hashfunc C"

lemma env_same_refl [simp]: "env_same C C"
  by (simp add: env_same_def)

lemma env_same_trans: "env_same A B \<Longrightarrow> env_same B C \<Longrightarrow> env_same A C"
  by (simp add: env_same_def)

lemma ring_ready_rep: "ring_ready C r \<Longrightarrow> ring_rep C r"
  using store.ready_rep by (auto simp: ring_ready_def ring_rep_def)

lemma fst_point [simp]: "fst (point_of C e) = ekey e"
  by (simp add: point_of_def)

lemma map_fst_points [simp]: "map fst (map (point_of C) xs) = map ekey xs" "fst ` point_of C ` S = ekey ` S"
  by (simp_all add: image_image)

lemma ring_rep_wf: "ring_rep C r \<Longrightarrow> ring_wf r"
  using store.rep_sorted by (auto simp: ring_rep_def ring_wf_def hash_inv_def comp_def)

subsection \<open>Allocation\<close>

lemma cells_None: "cells T a = None \<longleftrightarrow> mem T a = None"
  by (simp add: cells_def)

lemma cells_data: "cells T a = Some (k, d) \<Longrightarrow> get T a data = Some d"
  by (auto simp: cells_def get_def)

lemma get_rbnode_ok:
  assumes "mallocs C = a # b # ms" "a \<noteq> NULL" "b \<noteq> NULL"
  shows "conhash_get_rbnode C p h = (a, C\<lparr>mallocs := ms,
     vnode_tree := (vnode_tree C)\<lparr>mem := (mem (vnode_tree C))(a \<mapsto> (raw C)\<lparr>key := h, data := b\<rparr>)\<rparr>,
     vnodes := (vnodes C)(b \<mapsto> \<lparr>vhash = h, vnode = p\<rparr>)\<rparr>)"
  using assms by (simp add: conhash_get_rbnode_def malloc_def heap_update_def Let_def)

lemma get_rbnode_fail:
  assumes "mallocs_ok C" "\<not> (\<exists>a b ms. mallocs C = a # b # ms \<and> a \<noteq> NULL \<and> b \<noteq> NULL)"
  shows "\<exists>k. conhash_get_rbnode C p h = (NULL, C\<lparr>mallocs := drop k (mallocs C)\<rparr>)"
proof -
  have id: "(vnode_tree C)\<lparr>mem := (mem (vnode_tree C))(a := None)\<rparr> = vnode_tree C"
    if "a \<in> set (mallocs C)" "a \<noteq> NULL" for a
    using assms(1) that by (simp add: mallocs_ok_def fun_upd_idem)
  consider "mallocs C = []" | ms where "mallocs C = NULL # ms"
    | a where "mallocs C = [a]" "a \<noteq> NULL" | a ms where "mallocs C = a # NULL # ms" "a \<noteq> NULL"
    using assms(2) by (cases "mallocs C"; cases "tl (mallocs C)") auto
  then show ?thesis
  proof cases
    case 1
    then show ?thesis by (intro exI [of _ 0]) (simp add: conhash_get_rbnode_def malloc_def)
  next
    case 2
    then show ?thesis by (intro exI [of _ 1]) (simp add: conhash_get_rbnode_def malloc_def)
  next
    case 3
    then show ?thesis using id [of a]
      by (intro exI [of _ 1]) (simp add: conhash_get_rbnode_def malloc_def heap_update_def Let_def)
  next
    case (4 a ms)
    then show ?thesis using id [of a]
      by (intro exI [of _ 2]) (simp add: conhash_get_rbnode_def malloc_def heap_update_def Let_def)
  qed
qed

lemma mallocs_ok_drop: "mallocs_ok C \<Longrightarrow> mallocs_ok (C\<lparr>mallocs := drop k (mallocs C)\<rparr>)"
proof -
  assume a: "mallocs_ok C"
  have "filter P (mallocs C) = filter P (take k (mallocs C)) @ filter P (drop k (mallocs C))" for P
    by (metis append_take_drop_id filter_append)
  with a have "distinct (filter (\<lambda>a. a \<noteq> NULL) (drop k (mallocs C)))"
    by (simp add: mallocs_ok_def)
  with a show ?thesis by (auto simp: mallocs_ok_def dest: in_set_dropD)
qed

subsection \<open>One virtual node\<close>

lemma hash_inv_add:
  assumes "hash_inv C xs" "h \<notin> ekey ` set xs" "vnodes C b = None"
    and "vnodes C' = (vnodes C)(b \<mapsto> \<lparr>vhash = h, vnode = p\<rparr>)" "ivnodes C' = ivnodes C + 1"
  shows "hash_inv C' (ins_elem (a, h, b) xs)"
    and "map (point_of C') (ins_elem (a, h, b) xs) = ring_insert h p (map (point_of C) xs)"
proof -
  from assms(1,3) have b: "b \<notin> edata ` set xs" by (force simp: hash_inv_def)
  have d: "distinct (map f (ins_elem e xs)) \<longleftrightarrow> distinct (map f xs) \<and> f e \<notin> f ` set xs" for f :: "elem \<Rightarrow> 'x" and e
  proof -
    have "distinct (map f (u @ e # v)) \<longleftrightarrow> distinct (map f (u @ v)) \<and> f e \<notin> f ` set (u @ v)" for u v
      by auto
    from this [of "takeWhile (\<lambda>y. ekey y \<le> ekey e) xs" "dropWhile (\<lambda>y. ekey y \<le> ekey e) xs"]
    show ?thesis unfolding ins_elem_def takeWhile_dropWhile_id .
  qed
  from assms b show "hash_inv C' (ins_elem (a, h, b) xs)"
    by (auto simp: hash_inv_def d simp del: distinct_map)
  have same: "point_of C' e = point_of C e" if "e \<in> set xs" for e
    using that b assms(4) by (auto simp: point_of_def)
  have "map (point_of C') (takeWhile P xs) = map (point_of C) (takeWhile P xs)"
    "map (point_of C') (dropWhile P xs) = map (point_of C) (dropWhile P xs)" for P
    using same by (auto dest: set_takeWhileD set_dropWhileD)
  moreover have "point_of C' (a, h, b) = (h, p)" using assms(4) by (simp add: point_of_def)
  ultimately show "map (point_of C') (ins_elem (a, h, b) xs) = ring_insert h p (map (point_of C) xs)"
    using assms(2) by (simp add: ins_elem_def ring_insert_def takeWhile_map dropWhile_map comp_def image_image)
qed

text \<open>
  The hash of a server's \<open>i\<close>-th virtual node, and the ring after one \<open>add_replica\<close>: the point
  is added unless its hash is taken or an allocation fails.
\<close>

definition replica_hash :: "conhash_s \<Rightarrow> node_s \<Rightarrow> u32 \<Rightarrow> int" where
  "replica_hash C n i = cb_hashfunc C (the (conhash_node2string n i))"

lemma node2string_Some: "0 \<in> set (iden n) \<Longrightarrow> \<exists>s. conhash_node2string n i = Some s"
  by (simp add: conhash_node2string_def cstr_def)

lemma add_replica_step:
  assumes r: "ring_ready C r" and n: "nodes C p = Some n" "0 \<in> set (iden n)" and m: "mallocs_ok C"
  shows "wp (add_replica C p i) (\<lambda>C'. (\<exists>r'. ring_ready C' r' \<and>
      (r' = ring_insert (replica_hash C n i) p r \<or> r' = r \<and> \<not> enough 1 C)) \<and>
      mallocs_ok C' \<and> env_same C C' \<and> (\<forall>k. enough (Suc k) C \<longrightarrow> enough k C'))"
proof -
  let ?h = "replica_hash C n i" and ?T = "vnode_tree C"
  from r obtain xs where xs: "store_ready ?T xs" "hash_inv C xs" "r = map (point_of C) xs"
    by (auto simp: ring_ready_def)
  from node2string_Some [OF n(2)] obtain s where s: "conhash_node2string n i = Some s" by blast
  then have h: "cb_hashfunc C s = ?h" by (simp add: replica_hash_def)
  have rep: "store_rep ?T xs" by (rule store.ready_rep [OF xs(1)])
  show ?thesis
  proof (cases "?h \<in> ekey ` set xs")
    case True
    then obtain e where e: "e \<in> set xs" "ekey e = ?h" by auto
    with store.srch_hit [OF rep e(1)] xs(2) have "util_rbtree_search ?T ?h = Some (adr e)"
      by (simp add: hash_inv_def)
    moreover have "adr e \<noteq> NULL" using store.elem_not_null [OF rep e(1)] by simp
    moreover have "ring_insert ?h p r = r" using True xs(3) by (simp add: ring_insert_def image_image)
    moreover have "enough (Suc k) C \<Longrightarrow> enough k C" for k by (simp add: enough_def)
    ultimately show ?thesis
      using r m by (auto simp: add_replica_def n s h)
  next
    case False
    note miss = store.srch_miss [OF rep False]
    show ?thesis
    proof (cases "\<exists>a b ms. mallocs C = a # b # ms \<and> a \<noteq> NULL \<and> b \<noteq> NULL")
      case True
      then obtain a b ms where ab: "mallocs C = a # b # ms" "a \<noteq> NULL" "b \<noteq> NULL" by blast
      let ?T1 = "?T\<lparr>mem := (mem ?T)(a \<mapsto> (raw C)\<lparr>key := ?h, data := b\<rparr>)\<rparr>"
      let ?C1 = "C\<lparr>mallocs := ms, vnode_tree := ?T1, vnodes := (vnodes C)(b \<mapsto> \<lparr>vhash = ?h, vnode = p\<rparr>)\<rparr>"
      from m ab have fr: "mem ?T a = None" "vnodes C b = None" "a \<noteq> b"
        "distinct (filter (\<lambda>a. a \<noteq> NULL) ms)" "a \<notin> set ms" "b \<notin> set ms"
        "\<forall>c \<in> set ms. c \<noteq> NULL \<longrightarrow> mem ?T c = None \<and> vnodes C c = None"
        by (auto simp: mallocs_ok_def)
      have a: "a \<notin> adr ` set xs" "a \<noteq> null ?T"
        using fr(1) store.rep_cells [OF rep] store.rep_spare [OF rep] by (force simp: cells_def)+
      have "store_ready ?T1 xs"
        by (rule store.ready_agree [OF xs(1)]) (use a ab in \<open>auto simp: heap_agree_def\<close>)
      from store.ins_law [OF this, of a ?h b] a have
        "wp (util_rbtree_insert ?T1 a) (\<lambda>T'. store_ready T' (ins_elem (a, ?h, b) xs) \<and> cells T' = cells ?T1 \<and> null T' = null ?T1)"
        by (simp add: cells_def)
      then obtain T' where T': "util_rbtree_insert ?T1 a = Some T'" "store_ready T' (ins_elem (a, ?h, b) xs)"
        "cells T' = cells ?T1" by (auto elim: wpE)
      let ?C' = "?C1\<lparr>vnode_tree := T', ivnodes := ivnodes C + 1\<rparr>"
      have "add_replica C p i = Some ?C'"
        using miss ab T'(1) by (simp add: add_replica_def n s h get_rbnode_ok)
      moreover have "ring_ready ?C' (ring_insert ?h p r)"
        using T'(2) hash_inv_add [OF xs(2) False fr(2), of ?C' p a] xs(3) by (auto simp: ring_ready_def)
      moreover have "mallocs_ok ?C'"
      proof -
        have "mem T' c = None" if "c \<in> set ms" "c \<noteq> NULL" for c
        proof -
          have "cells ?T1 c = None" using that fr by (auto simp: cells_def)
          then have "cells T' c = None" using T'(3) by simp
          then show ?thesis by (simp add: cells_None)
        qed
        with fr show ?thesis by (auto simp: mallocs_ok_def)
      qed
      moreover have "enough (Suc k) C \<Longrightarrow> enough k ?C'" for k using ab by (simp add: enough_def)
      ultimately show ?thesis by (auto simp: env_same_def)
    next
      case fail: False
      from get_rbnode_fail [OF m fail] obtain k where
        k: "conhash_get_rbnode C p ?h = (NULL, C\<lparr>mallocs := drop k (mallocs C)\<rparr>)" by blast
      have ne: "\<not> enough (Suc j) C" for j
        using fail by (cases "mallocs C"; cases "tl (mallocs C)") (auto simp: enough_def)
      have "ring_ready (C\<lparr>mallocs := drop k (mallocs C)\<rparr>) r"
        using xs by (auto simp: ring_ready_def hash_inv_def point_of_def)
      with k miss mallocs_ok_drop [OF m, of k] ne show ?thesis
        by (auto simp: add_replica_def n s h env_same_def)
    qed
  qed
qed

subsection \<open>Deleting one virtual node\<close>

text \<open>The ring is \<open>ready\<close> for insertions unless a deletion left exactly one point.\<close>

definition ring_st :: "conhash_s \<Rightarrow> ring \<Rightarrow> bool" where
  "ring_st C r \<longleftrightarrow> (\<exists>xs. store_rep (vnode_tree C) xs \<and> hash_inv C xs \<and> r = map (point_of C) xs \<and>
     (length xs \<noteq> 1 \<longrightarrow> store_ready (vnode_tree C) xs))"

lemma ring_ready_st: "ring_ready C r \<Longrightarrow> ring_st C r"
  using store.ready_rep by (auto simp: ring_st_def ring_ready_def)

lemma ring_st_rep: "ring_st C r \<Longrightarrow> ring_rep C r"
  by (auto simp: ring_st_def ring_rep_def)

lemma ring_st_ready: "ring_st C r \<Longrightarrow> length r \<noteq> 1 \<Longrightarrow> ring_ready C r"
  by (auto simp: ring_st_def ring_ready_def)

lemma hash_inv_remove:
  assumes inv: "hash_inv C xs" and e: "e \<in> set xs" and dx: "distinct (map adr xs)"
    and C': "vnodes C' = (vnodes C)(edata e := None)" "ivnodes C' = ivnodes C - 1"
    and p: "vnode (the (vnodes C (edata e))) = p"
  shows "hash_inv C' (remove1 e xs)"
    and "map (point_of C') (remove1 e xs) = ring_delete (ekey e) p (map (point_of C) xs)"
proof -
  have "distinct xs" using dx by (simp add: distinct_map)
  then have rm: "remove1 e xs = filter (\<lambda>x. x \<noteq> e) xs" by (auto simp: distinct_remove1_removeAll removeAll_filter_not_eq intro: filter_cong)
  have len: "length xs = Suc (length (remove1 e xs))"
    using e by (simp add: length_remove1) (metis length_pos_if_in_set Suc_pred)
  have ne: "edata x \<noteq> edata e \<and> ekey x \<noteq> ekey e" if "x \<in> set xs" "x \<noteq> e" for x
    using inv e that by (auto simp: hash_inv_def distinct_map dest: inj_onD)
  have dm: "distinct (map f xs) \<Longrightarrow> distinct (map f (filter P xs))" for f :: "elem \<Rightarrow> 'x" and P
    by (rule distinct_map_filter)
  show "hash_inv C' (remove1 e xs)"
    using inv ne C' len unfolding hash_inv_def by (auto simp: rm dm simp del: distinct_map)
  have "point_of C' x = point_of C x" if "x \<in> set xs" "x \<noteq> e" for x
    using ne [OF that] C' by (simp add: point_of_def)
  then have "map (point_of C') (filter (\<lambda>x. x \<noteq> e) xs) = map (point_of C) (filter (\<lambda>x. x \<noteq> e) xs)" by simp
  also have "\<dots> = filter (\<lambda>x. x \<noteq> (ekey e, p)) (map (point_of C) xs)"
    using ne p by (auto simp: filter_map comp_def point_of_def intro!: arg_cong [of _ _ "map (point_of C)"] filter_cong)
  finally show "map (point_of C') (remove1 e xs) = ring_delete (ekey e) p (map (point_of C) xs)"
    by (simp add: rm ring_delete_def)
qed

lemma del_replica_step:
  assumes r: "ring_st C r" and n: "nodes C p = Some n" "0 \<in> set (iden n)" and m: "mallocs_ok C"
  shows "wp (del_replica C p i) (\<lambda>C'. ring_st C' (ring_delete (replica_hash C n i) p r) \<and>
      mallocs_ok C' \<and> env_same C C' \<and> mallocs C' = mallocs C)"
proof -
  let ?h = "replica_hash C n i" and ?T = "vnode_tree C"
  from r obtain xs where xs: "store_rep ?T xs" "hash_inv C xs" "r = map (point_of C) xs"
    and rd: "length xs \<noteq> 1 \<longrightarrow> store_ready ?T xs" by (auto simp: ring_st_def)
  from node2string_Some [OF n(2)] obtain s where s: "conhash_node2string n i = Some s" by blast
  then have h: "cb_hashfunc C s = ?h" by (simp add: replica_hash_def)
  show ?thesis
  proof (cases "(?h, p) \<in> set r")
    case False
    then have del: "ring_delete ?h p r = r" by (auto simp: ring_delete_def filter_id_conv)
    show ?thesis
    proof (cases "?h \<in> ekey ` set xs")
      case True
      then obtain e where e: "e \<in> set xs" "ekey e = ?h" by auto
      with xs(2) obtain v where v: "vnodes C (edata e) = Some v" by (auto simp: hash_inv_def)
      with False xs(3) e have "vnode v \<noteq> p" by (force simp: point_of_def)
      moreover have "get ?T (adr e) data = Some (edata e)"
        by (rule cells_data [OF store.rep_cells [OF xs(1) e(1)]])
      ultimately show ?thesis
        using store.srch_hit [OF xs(1) e(1)] xs(2) e(2) v store.elem_not_null [OF xs(1) e(1)] r m del
        by (auto simp: del_replica_def n s h hash_inv_def)
    next
      case f: False
      from store.srch_miss [OF xs(1) f] r m del show ?thesis
        by (simp add: del_replica_def n s h)
    qed
  next
    case True
    then obtain e where e: "e \<in> set xs" "ekey e = ?h" and "vnode (the (vnodes C (edata e))) = p"
      using xs(3) by (auto simp: point_of_def)
    with xs(2) obtain v where v: "vnodes C (edata e) = Some v" "vnode v = p" "vhash v = ?h"
      by (auto simp: hash_inv_def)
    have dx: "distinct (map adr xs)" using store.rep_adr [OF xs(1)] by simp
    note nn = store.elem_not_null [OF xs(1) e(1)]
    obtain T' where T': "util_rbtree_delete ?T (adr e) = Some T'" "store_rep T' (remove1 e xs)"
      "store_ready ?T xs \<and> length xs \<noteq> 2 \<longrightarrow> store_ready T' (remove1 e xs)" "cells T' = cells ?T" "null T' = null ?T"
      using store.del_law [OF xs(1) e(1)] by (auto elim: wpE)
    let ?T2 = "T'\<lparr>mem := (mem T')(adr e := None)\<rparr>"
    let ?C' = "C\<lparr>ivnodes := ivnodes C - 1, vnode_tree := ?T2, vnodes := (vnodes C)(edata e := None)\<rparr>"
    have c: "cells ?T (adr e) = Some (ekey e, edata e)" by (rule store.rep_cells [OF xs(1) e(1)])
    then have "cells T' (adr e) = Some (ekey e, edata e)" using T'(4) by simp
    from cells_data [OF this] cells_data [OF c] have
      "get T' (adr e) data = Some (edata e)" "get ?T (adr e) data = Some (edata e)" .
    then have run: "del_replica C p i = Some ?C'"
      using store.srch_hit [OF xs(1) e(1)] xs(2) e(2) v nn T'(1)
      by (simp add: del_replica_def n s h hash_inv_def conhash_del_rbnode_def heap_update_def)
    have "distinct xs" using dx by (simp add: distinct_map)
    then have out: "adr e \<notin> adr ` set (remove1 e xs)"
      using dx e(1) by (auto simp: distinct_map dest: inj_onD)
    then have "p \<noteq> adr e" if "p \<in> insert NULL (insert (null T') (adr ` set (remove1 e xs)))" for p
      using that nn T'(5) by (metis insert_iff)
    then have ag: "heap_agree (insert NULL (insert (null T') (adr ` set (remove1 e xs)))) T' ?T2"
      unfolding heap_agree_def by (intro conjI ballI) simp_all
    have inv: "hash_inv ?C' (remove1 e xs)"
      "map (point_of ?C') (remove1 e xs) = ring_delete ?h p r"
      using hash_inv_remove [OF xs(2) e(1) dx, of ?C' p] v xs(3) e(2) by simp_all
    have rep: "store_rep ?T2 (remove1 e xs)" by (rule store.rep_agree [OF T'(2) ag])
    have "store_ready ?T2 (remove1 e xs)" if "length (remove1 e xs) \<noteq> 1"
    proof (cases "length xs = 1")
      case True
      with e(1) have "remove1 e xs = []" by (cases xs) auto
      with store.ready_empty rep show ?thesis by simp
    next
      case False
      with rd T'(3) that e(1) have "store_ready T' (remove1 e xs)" by (auto simp: length_remove1)
      then show ?thesis by (rule store.ready_agree) (rule ag)
    qed
    with rep inv have "ring_st ?C' (ring_delete ?h p r)" by (auto simp: ring_st_def)
    moreover have "mallocs_ok ?C'"
    proof -
      have "mem T' a = None \<longleftrightarrow> mem ?T a = None" for a
        using T'(4) cells_None by metis
      with m show ?thesis by (auto simp: mallocs_ok_def)
    qed
    ultimately show ?thesis by (simp add: run env_same_def)
  qed
qed

subsection \<open>Adding and deleting a server\<close>

definition ring_add :: "conhash_s \<Rightarrow> node_s \<Rightarrow> ptr \<Rightarrow> ring \<Rightarrow> ring" where
  "ring_add C n p r = fold (\<lambda>i. ring_insert (replica_hash C n i) p) (replica_indices n) r"

definition ring_del :: "conhash_s \<Rightarrow> node_s \<Rightarrow> ptr \<Rightarrow> ring \<Rightarrow> ring" where
  "ring_del C n p r = fold (\<lambda>i. ring_delete (replica_hash C n i) p) (replica_indices n) r"

text \<open>The points of a server; \<open>grows P r r'\<close>: no point of \<open>r\<close> is lost and every new one is in \<open>P\<close>.\<close>

definition points :: "conhash_s \<Rightarrow> node_s \<Rightarrow> ptr \<Rightarrow> (int \<times> ptr) set" where
  "points C n p = (\<lambda>i. (replica_hash C n i, p)) ` set (replica_indices n)"

definition grows :: "(int \<times> ptr) set \<Rightarrow> ring \<Rightarrow> ring \<Rightarrow> bool" where
  "grows P r r' \<longleftrightarrow> set r \<subseteq> set r' \<and> set r' \<subseteq> set r \<union> P"

lemma grows_refl [simp]: "grows P r r"
  by (simp add: grows_def)

lemma grows_trans: "grows P a b \<Longrightarrow> grows P b c \<Longrightarrow> grows P a c"
  by (auto simp: grows_def)

lemma grows_mono: "grows P r r' \<Longrightarrow> P \<subseteq> Q \<Longrightarrow> grows Q r r'"
  by (auto simp: grows_def)

lemma grows_insert: "grows {(h, p)} r (ring_insert h p r)"
  by (auto simp: grows_def set_ring_insert)

lemma replica_hash_env: "env_same C C' \<Longrightarrow> replica_hash C' n i = replica_hash C n i"
  by (simp add: replica_hash_def env_same_def)

lemma add_loop:
  assumes "ring_ready C r" "nodes C p = Some n" "0 \<in> set (iden n)" "mallocs_ok C"
  shows "wp (replica_loop add_replica C p is) (\<lambda>C'. (\<exists>r'. ring_ready C' r' \<and>
      grows ((\<lambda>i. (replica_hash C n i, p)) ` set is) r r' \<and> length r' \<le> length r + length is \<and>
      (enough (length is) C \<longrightarrow> r' = fold (\<lambda>i. ring_insert (replica_hash C n i) p) is r)) \<and>
      mallocs_ok C' \<and> env_same C C')"
  using assms
proof (induction "is" arbitrary: C r)
  case Nil
  then show ?case by auto
next
  case (Cons i "is")
  let ?h = "replica_hash C n" and ?P = "\<lambda>I. (\<lambda>i. (replica_hash C n i, p)) ` set I"
  from add_replica_step [OF Cons.prems, of i] obtain C1 r1 where 1: "add_replica C p i = Some C1"
    "ring_ready C1 r1" "r1 = ring_insert (?h i) p r \<or> r1 = r \<and> \<not> enough 1 C"
    "mallocs_ok C1" "env_same C C1" "\<And>k. enough (Suc k) C \<Longrightarrow> enough k C1"
    by (auto elim!: wpE)
  have "nodes C1 p = Some n" using 1(5) Cons.prems(2) by (simp add: env_same_def)
  from Cons.IH [OF 1(2) this Cons.prems(3) 1(4)] obtain C' r' where
    C': "replica_loop add_replica C1 p is = Some C'" "ring_ready C' r'" "grows (?P is) r1 r'"
      "length r' \<le> length r1 + length is"
      "enough (length is) C1 \<longrightarrow> r' = fold (\<lambda>i. ring_insert (?h i) p) is r1" "mallocs_ok C'" "env_same C1 C'"
    by (auto simp: replica_hash_env [OF 1(5)] elim!: wpE)
  have g: "grows {(?h i, p)} r r1" "length r1 \<le> Suc (length r)"
    using 1(3) grows_insert length_ring_insert by auto
  have "grows (?P (i # is)) r r'"
    by (rule grows_trans [OF grows_mono [OF g(1)] grows_mono [OF C'(3)]]) auto
  moreover have "length r' \<le> length r + length (i # is)" using g(2) C'(4) by simp
  moreover have "r' = fold (\<lambda>i. ring_insert (?h i) p) (i # is) r" if "enough (Suc (length is)) C"
    using that 1(3,6) C'(5) by (auto simp: enough_def)
  ultimately show ?case
    using 1(1) C' env_same_trans [OF 1(5) C'(7)] by auto
qed

lemma del_loop:
  assumes "ring_st C r" "nodes C p = Some n" "0 \<in> set (iden n)" "mallocs_ok C"
  shows "wp (replica_loop del_replica C p is) (\<lambda>C'.
      ring_st C' (fold (\<lambda>i. ring_delete (replica_hash C n i) p) is r) \<and>
      mallocs_ok C' \<and> env_same C C' \<and> mallocs C' = mallocs C)"
  using assms
proof (induction "is" arbitrary: C r)
  case Nil
  then show ?case by simp
next
  case (Cons i "is")
  from del_replica_step [OF Cons.prems, of i] obtain C1 where 1: "del_replica C p i = Some C1"
    "ring_st C1 (ring_delete (replica_hash C n i) p r)" "mallocs_ok C1" "env_same C C1" "mallocs C1 = mallocs C"
    by (auto elim!: wpE)
  have "nodes C1 p = Some n" using 1(4) Cons.prems(2) by (simp add: env_same_def)
  from Cons.IH [OF 1(2) this Cons.prems(3) 1(3)] 1(1,5) show ?case
    by (auto simp: replica_hash_env [OF 1(4)] elim!: wp_mono intro: env_same_trans [OF 1(4)])
qed

lemma ring_st_nodes [simp]: "ring_ready (C\<lparr>nodes := N\<rparr>) r = ring_ready C r" "ring_st (C\<lparr>nodes := N\<rparr>) r = ring_st C r"
  "mallocs_ok (C\<lparr>nodes := N\<rparr>) = mallocs_ok C" "enough k (C\<lparr>nodes := N\<rparr>) = enough k C"
  by (simp_all add: ring_ready_def ring_st_def hash_inv_def point_of_def [abs_def] mallocs_ok_def enough_def)

lemma replica_hash_upd [simp]: "replica_hash (C\<lparr>nodes := N\<rparr>) (n\<lparr>flag := f\<rparr>) i = replica_hash C n i"
  by (simp add: replica_hash_def conhash_node2string_def)

lemma length_indices [simp]: "length (replica_indices n) = unat (replicas n)"
  "replica_indices (n\<lparr>flag := f\<rparr>) = replica_indices n"
  by (simp_all add: replica_indices_def)

lemma add_node_ring:
  assumes "ring_ready C r" "mallocs_ok C" "p \<noteq> NULL" "nodes C p = Some n" "0 \<in> set (iden n)"
    and "flag n AND NODE_FLAG_INIT \<noteq> 0" "flag n AND NODE_FLAG_IN = 0"
  shows "wp (conhash_add_node C p) (\<lambda>(rc, C'). rc = 0 \<and>
     (\<exists>r'. ring_ready C' r' \<and> grows (points C n p) r r' \<and> length r' \<le> length r + unat (replicas n) \<and>
        (enough (unat (replicas n)) C \<longrightarrow> r' = ring_add C n p r)) \<and>
     nodes C' = (nodes C)(p \<mapsto> n\<lparr>flag := flag n OR NODE_FLAG_IN\<rparr>) \<and> mallocs_ok C' \<and>
     cb_hashfunc C' = cb_hashfunc C)"
proof -
  let ?n = "n\<lparr>flag := flag n OR NODE_FLAG_IN\<rparr>"
  let ?C = "C\<lparr>nodes := (nodes C)(p \<mapsto> ?n)\<rparr>"
  have "wp (replica_loop add_replica ?C p (replica_indices ?n)) (\<lambda>C'. (\<exists>r'. ring_ready C' r' \<and>
      grows ((\<lambda>i. (replica_hash ?C ?n i, p)) ` set (replica_indices ?n)) r r' \<and>
      length r' \<le> length r + length (replica_indices ?n) \<and>
      (enough (length (replica_indices ?n)) ?C \<longrightarrow>
        r' = fold (\<lambda>i. ring_insert (replica_hash ?C ?n i) p) (replica_indices ?n) r)) \<and>
      mallocs_ok C' \<and> env_same ?C C')"
    by (rule add_loop) (use assms in simp_all)
  then show ?thesis
    using assms by (auto simp: conhash_add_node_def conhash_add_replicas_def ring_add_def points_def env_same_def wp_bind
      elim!: wp_mono)
qed

lemma del_node_ring:
  assumes "ring_st C r" "mallocs_ok C" "p \<noteq> NULL" "nodes C p = Some n" "0 \<in> set (iden n)"
    and "flag n AND NODE_FLAG_INIT \<noteq> 0" "flag n AND NODE_FLAG_IN \<noteq> 0"
  shows "wp (conhash_del_node C p) (\<lambda>(rc, C'). rc = 0 \<and> ring_st C' (ring_del C n p r) \<and>
     nodes C' = (nodes C)(p \<mapsto> n\<lparr>flag := flag n AND NOT NODE_FLAG_IN\<rparr>) \<and> mallocs_ok C' \<and>
     cb_hashfunc C' = cb_hashfunc C)"
proof -
  let ?n = "n\<lparr>flag := flag n AND NOT NODE_FLAG_IN\<rparr>"
  let ?C = "C\<lparr>nodes := (nodes C)(p \<mapsto> ?n)\<rparr>"
  have "wp (replica_loop del_replica ?C p (replica_indices ?n)) (\<lambda>C'.
      ring_st C' (fold (\<lambda>i. ring_delete (replica_hash ?C ?n i) p) (replica_indices ?n) r) \<and>
      mallocs_ok C' \<and> env_same ?C C' \<and> mallocs C' = mallocs ?C)"
    by (rule del_loop) (use assms in simp_all)
  then show ?thesis
    using assms by (auto simp: conhash_del_node_def conhash_del_replicas_def ring_del_def env_same_def wp_bind
      elim!: wp_mono)
qed

text \<open>A server that was not set up, or is in the state the call leads to, is refused unchanged.\<close>

lemma node_refused:
  "nodes C p = Some n \<Longrightarrow> flag n AND NODE_FLAG_INIT = 0 \<or> flag n AND NODE_FLAG_IN \<noteq> 0 \<Longrightarrow>
     conhash_add_node C p = Some (-1, C)"
  "nodes C p = Some n \<Longrightarrow> flag n AND NODE_FLAG_INIT = 0 \<or> flag n AND NODE_FLAG_IN = 0 \<Longrightarrow>
     conhash_del_node C p = Some (-1, C)"
  by (simp_all add: conhash_add_node_def conhash_del_node_def)

subsection \<open>Lookup\<close>

lemma lookup_ring:
  assumes "ring_rep C r" "length r < 2 ^ 32"
  shows "conhash_lookup C (Some s) = Some (ring_lookup (cb_hashfunc C s) r)"
proof -
  let ?h = "cb_hashfunc C s"
  from assms(1) obtain xs where xs: "store_rep (vnode_tree C) xs" "hash_inv C xs" "r = map (point_of C) xs"
    by (auto simp: ring_rep_def)
  have n: "ivnodes C = 0 \<longleftrightarrow> xs = []"
  proof -
    have "length xs < 2 ^ LENGTH(32)" using assms(2) xs(3) by simp
    then have "unat (ivnodes C) = length xs" using xs(2) by (simp add: hash_inv_def unat_of_nat)
    then show ?thesis by (metis length_0_conv unat_eq_0)
  qed
  show ?thesis
  proof (cases "xs = []")
    case True
    with n xs(3) show ?thesis by (simp add: conhash_lookup_def ring_lookup_def)
  next
    case False
    from store.look_elem [OF xs(1) False, of ?h] obtain e where e: "e \<in> set xs"
      "util_rbtree_lookup (vnode_tree C) ?h = Some (adr e)"
      "cells (vnode_tree C) (adr e) = Some (ekey e, edata e)" "e = hd (dropWhile (\<lambda>e. ekey e < ?h) xs @ xs)"
      by blast
    from xs(2) e(1) obtain v where v: "vnodes C (edata e) = Some v" by (auto simp: hash_inv_def)
    have "ring_succ ?h r = point_of C e"
      using False unfolding ring_succ_def xs(3) e(4)
      by (simp add: dropWhile_map comp_def hd_map flip: map_append)
    then have "ring_lookup ?h r = vnode v" using False xs(3) v by (simp add: ring_lookup_def point_of_def)
    with cells_data [OF e(3)] e(2) v n False store.elem_not_null [OF xs(1) e(1)] show ?thesis
      by (simp add: conhash_lookup_def)
  qed
qed

subsection \<open>Consistency\<close>

lemma ring_lookup_grows:
  assumes "ring_wf r" "ring_wf r'" "grows P r r'" "\<forall>x \<in> P. snd x = p"
  shows "ring_lookup h r' = ring_lookup h r \<or> ring_lookup h r' = p"
proof (cases "r = [] \<or> r' = []")
  case True
  with assms(3,4) show ?thesis
    using ring_succ_char [OF assms(2), of h] by (auto simp: ring_lookup_def grows_def)
next
  case False
  with ring_succ_mono [OF assms(1,2), of h] assms(3) have
    "ring_succ h r' = ring_succ h r \<or> ring_succ h r' \<notin> set r" by (simp add: grows_def)
  with False assms(3,4) ring_succ_char [OF assms(2), of h] show ?thesis
    by (auto simp: ring_lookup_def grows_def)
qed

lemma set_ring_del: "set (ring_del C n p r) = set r - points C n p"
proof -
  have "set (fold (\<lambda>i. ring_delete (f i) p) is r) = set r - (\<lambda>i. (f i, p)) ` set is" for f :: "u32 \<Rightarrow> int" and "is"
    by (induction "is" arbitrary: r) (auto simp: ring_delete_def)
  then show ?thesis by (simp add: ring_del_def points_def)
qed

lemma ring_del_wf: "ring_wf r \<Longrightarrow> ring_wf (ring_del C n p r)"
proof -
  have "ring_wf r \<Longrightarrow> ring_wf (fold (\<lambda>i. ring_delete (f i) p) is r)" for f :: "u32 \<Rightarrow> int" and "is"
    by (induction "is" arbitrary: r) (auto simp: ring_delete_wf)
  then show "ring_wf r \<Longrightarrow> ?thesis" by (simp add: ring_del_def)
qed

lemma length_ring_del: "length (ring_del C n p r) \<le> length r"
proof -
  have "length (fold (\<lambda>i. ring_delete (f i) p) is r) \<le> length r" for f :: "u32 \<Rightarrow> int" and "is"
    by (induction "is" arbitrary: r) (auto simp: ring_delete_def intro: order_trans [OF _ length_filter_le])
  then show ?thesis by (simp add: ring_del_def)
qed

subsection \<open>Teardown\<close>

lemma store_root:
  assumes "store_rep T xs"
  shows "if xs = [] then util_rbtree_isempty T else \<not> util_rbtree_isempty T \<and> (\<exists>e \<in> set xs. root T = adr e)"
proof -
  from assms obtain q where "tree_rep T xs q" by (auto simp: store_rep_def)
  then obtain t where t: "lay T t q" "inorder t = xs" "t = Lf \<longleftrightarrow> xs = []" by (rule tree_repE)
  show ?thesis
  proof (cases t)
    case Lf
    with t lay_root [OF t(1)] show ?thesis by (simp add: util_rbtree_isempty_def)
  next
    case (Nd c l x r)
    with t lay_root [OF t(1)] lay_null_notin [OF t(1)] show ?thesis
      by (auto simp: util_rbtree_isempty_def)
  qed
qed

lemma fini_loop:
  assumes "store_rep (vnode_tree C) xs" "distinct (map edata xs)"
    and "\<forall>e \<in> set xs. vnodes C (edata e) \<noteq> None"
  shows "wp (conhash_fini_loop C) (\<lambda>C'. store_rep (vnode_tree C') [] \<and>
     dom (mem (vnode_tree C')) = dom (mem (vnode_tree C)) - adr ` set xs \<and>
     dom (vnodes C') = dom (vnodes C) - edata ` set xs \<and> null (vnode_tree C') = null (vnode_tree C))"
  using assms
proof (induction "length xs" arbitrary: xs C)
  case 0
  with store_root [OF "0.prems"(1)] show ?case by (simp add: conhash_fini_loop.simps)
next
  case (Suc k)
  let ?T = "vnode_tree C"
  from Suc.hyps(2) store_root [OF Suc.prems(1)] obtain e where
    e: "e \<in> set xs" "root ?T = adr e" "\<not> util_rbtree_isempty ?T" by (auto split: if_splits)
  have dx: "distinct (map adr xs)" using store.rep_adr [OF Suc.prems(1)] by simp
  then have "distinct xs" by (simp add: distinct_map)
  obtain T' where T': "util_rbtree_delete ?T (adr e) = Some T'" "store_rep T' (remove1 e xs)"
    "cells T' = cells ?T" "null T' = null ?T"
    using store.del_law [OF Suc.prems(1) e(1)] by (auto elim: wpE)
  let ?T2 = "T'\<lparr>mem := (mem T')(adr e := None)\<rparr>"
  let ?C' = "C\<lparr>vnodes := (vnodes C)(edata e := None), vnode_tree := ?T2\<rparr>"
  have c: "cells T' (adr e) = Some (ekey e, edata e)"
    using store.rep_cells [OF Suc.prems(1) e(1)] T'(3) by simp
  from e(1) Suc.prems(3) obtain v where v: "vnodes C (edata e) = Some v" by blast
  have run: "conhash_fini_loop C = conhash_fini_loop ?C'"
    using e(2,3) T'(1) cells_data [OF c] v
    by (subst conhash_fini_loop.simps) (simp add: conhash_del_rbnode_def heap_update_def)
  have out: "adr e \<notin> adr ` set (remove1 e xs)" "edata e \<notin> edata ` set (remove1 e xs)"
    using dx Suc.prems(2) e(1) \<open>distinct xs\<close> by (auto simp: distinct_map dest: inj_onD)
  have "p \<noteq> adr e" if "p \<in> insert NULL (insert (null T') (adr ` set (remove1 e xs)))" for p
    using that out store.elem_not_null [OF Suc.prems(1) e(1)] T'(4) by (metis insert_iff)
  then have "heap_agree (insert NULL (insert (null T') (adr ` set (remove1 e xs)))) T' ?T2"
    unfolding heap_agree_def by (intro conjI ballI) simp_all
  from store.rep_agree [OF T'(2) this] have rep: "store_rep (vnode_tree ?C') (remove1 e xs)" by simp
  have "distinct (map edata (remove1 e xs))"
    using Suc.prems(2) \<open>distinct xs\<close> by (simp add: distinct_remove1_removeAll removeAll_filter_not_eq distinct_map_filter)
  moreover have "\<forall>x \<in> set (remove1 e xs). vnodes ?C' (edata x) \<noteq> None"
  proof
    fix x assume x: "x \<in> set (remove1 e xs)"
    then have "edata x \<noteq> edata e" using out(2) by (metis imageI)
    then show "vnodes ?C' (edata x) \<noteq> None" using Suc.prems(3) x notin_set_remove1 [of x xs e] by auto
  qed
  moreover have "k = length (remove1 e xs)" using Suc.hyps(2) e(1) by (simp add: length_remove1)
  ultimately have "wp (conhash_fini_loop ?C') (\<lambda>C'. store_rep (vnode_tree C') [] \<and>
     dom (mem (vnode_tree C')) = dom (mem (vnode_tree ?C')) - adr ` set (remove1 e xs) \<and>
     dom (vnodes C') = dom (vnodes ?C') - edata ` set (remove1 e xs) \<and>
     null (vnode_tree C') = null (vnode_tree ?C'))"
    using Suc.hyps(1) rep by blast
  moreover have "dom (mem T') = dom (mem ?T)" 
    using T'(3) cells_None by (auto simp: dom_def) (metis option.distinct(1) option.exhaust)+
  moreover have "set xs = insert e (set (remove1 e xs))" using e(1) \<open>distinct xs\<close> by auto
  ultimately show ?case unfolding run using T'(4) by (auto elim!: wp_mono)
qed


end
