(* ===== verification/Md5_Correct.thy ===== *)
theory Md5_Correct
  imports Md5
begin

text \<open>
  \<open>md5.c\<close> is MD5. \<open>md5_rep s m\<close>: the streaming state \<open>s\<close> has consumed the message \<open>m\<close>;
  \<open>md5_append\<close> and \<open>md5_finish\<close> are proved against it for every way to cut the data, and the
  compression function against the 64 operations of RFC 1321. The default hash of
  \<open>libconhash\<close> is then the sum of the digest's words.
\<close>

subsection \<open>Messages and blocks\<close>

fun blocks64 :: "u8 list \<Rightarrow> u8 list list" where
  "blocks64 bs = (if length bs < 64 then [] else take 64 bs # blocks64 (drop 64 bs))"

declare blocks64.simps [simp del]

definition rest64 :: "u8 list \<Rightarrow> u8 list" where
  "rest64 m = drop (64 * (length m div 64)) m"

definition md5_iv :: regs where
  "md5_iv = (0x67452301, 0xefcdab89, 0x98badcfe, 0x10325476)"

definition md5_rep :: "md5_state \<Rightarrow> u8 list \<Rightarrow> bool" where
  "md5_rep s m \<longleftrightarrow> count0 s = of_nat (8 * length m) \<and> count1 s = of_nat (8 * length m div 2 ^ 32) \<and>
     abcd s = foldl md5_compress md5_iv (blocks64 m) \<and>
     length (buf s) = 64 \<and> take (length m mod 64) (buf s) = rest64 m"

lemma length_rest64 [simp]: "length (rest64 m) = length m mod 64"
  by (simp add: rest64_def minus_mult_div_eq_mod)

lemma blocks64_short [simp]: "length bs < 64 \<Longrightarrow> blocks64 bs = []"
  by (simp add: blocks64.simps)

lemma blocks64_append: "blocks64 (m @ d) = blocks64 m @ blocks64 (rest64 m @ d)"
proof (induction m rule: blocks64.induct)
  case (1 m)
  show ?case
  proof (cases "length m < 64")
    case True
    then show ?thesis by (simp add: rest64_def)
  next
    case False
    then have "rest64 m = rest64 (drop 64 m)"
      by (simp add: rest64_def le_div_geq add.commute)
    moreover have "blocks64 (m @ d) = take 64 m # blocks64 (drop 64 m @ d)"
      using False by (subst blocks64.simps) simp
    moreover have "blocks64 m = take 64 m # blocks64 (drop 64 m)"
      using False by (subst blocks64.simps) simp
    ultimately show ?thesis using False 1 by simp
  qed
qed

lemma rest64_append: "rest64 (m @ d) = rest64 (rest64 m @ d)"
proof -
  let ?q = "length m div 64"
  have "(length m + length d) div 64 = ?q + (length m mod 64 + length d) div 64"
    by (metis div_mult_mod_eq add.assoc div_mult_self3 zero_neq_numeral)
  moreover have "64 * (?q + t) - length m = 64 * t - length m mod 64" for t
    by (subst (2) mult_div_mod_eq [of 64 "length m", symmetric]) (simp only: add_mult_distrib2 diff_cancel)
  moreover have "drop (64 * (?q + t)) m = drop (64 * t) (drop (64 * ?q) m)" for t
    by (simp add: add_mult_distrib2 add.commute)
  ultimately show ?thesis
    by (simp add: rest64_def minus_mult_div_eq_mod del: drop_drop)
qed

lemma blocks64_exact: "length b = 64 \<Longrightarrow> blocks64 (b @ d) = b # blocks64 d"
  by (subst blocks64.simps) simp

lemma rest64_exact: "length b = 64 \<Longrightarrow> rest64 (b @ d) = rest64 d"
proof -
  assume "length b = 64"
  moreover have "(64 + length d) div 64 = Suc (length d div 64)" by simp
  ultimately show ?thesis by (simp add: rest64_def)
qed

lemma md5_blocks_run:
  "p + k \<le> length data \<Longrightarrow> md5_blocks s data p (int k) =
     Some (s\<lparr>abcd := foldl md5_compress (abcd s) (blocks64 (take k (drop p data)))\<rparr>,
       p + 64 * (k div 64), int (k mod 64))"
proof (induction k arbitrary: s p rule: less_induct)
  case (less k)
  show ?case
  proof (cases "k < 64")
    case True
    with less.prems show ?thesis by (subst md5_blocks.simps) simp
  next
    case False
    have "take 64 (take k (drop p data)) = take 64 (drop p data)"
      "drop 64 (take k (drop p data)) = take (k - 64) (drop (p + 64) data)"
      using False by (simp_all add: min_def drop_take add.commute)
    then have b: "blocks64 (take k (drop p data)) = take 64 (drop p data) # blocks64 (take (k - 64) (drop (p + 64) data))"
      using False less.prems by (subst blocks64.simps) simp
    have "md5_blocks (md5_process s (take 64 (drop p data))) data (p + 64) (int (k - 64)) =
      Some ((md5_process s (take 64 (drop p data)))\<lparr>abcd := foldl md5_compress
        (abcd (md5_process s (take 64 (drop p data)))) (blocks64 (take (k - 64) (drop (p + 64) data)))\<rparr>,
        p + 64 + 64 * ((k - 64) div 64), int ((k - 64) mod 64))"
      by (rule less.IH) (use False less.prems in simp_all)
    moreover have "(k - 64) mod 64 = k mod 64" "p + 64 + 64 * ((k - 64) div 64) = p + 64 * (k div 64)"
      using False by (simp_all add: le_mod_geq le_div_geq)
    ultimately show ?thesis
      using False less.prems b
      by (subst md5_blocks.simps) (simp add: slice_def md5_process_def of_nat_diff)
  qed
qed

lemma md5_tail_run:
  assumes "p + k \<le> length data" "length (buf s) = 64"
  shows "wp (md5_tail s data p (int k)) (\<lambda>s'. count0 s' = count0 s \<and> count1 s' = count1 s \<and>
     abcd s' = foldl md5_compress (abcd s) (blocks64 (take k (drop p data))) \<and> length (buf s') = 64 \<and>
     take (k mod 64) (buf s') = rest64 (take k (drop p data)))"
proof -
  let ?d = "take k (drop p data)"
  have len: "length ?d = k" using assms(1) by simp
  have r: "take (k mod 64) (drop (p + 64 * (k div 64)) data) = rest64 ?d"
    unfolding rest64_def len
    by (simp add: drop_take minus_mult_div_eq_mod add.commute)
  have "p + 64 * (k div 64) + k mod 64 \<le> length data" using assms(1) by simp
  moreover have "k mod 64 = 0 \<Longrightarrow> rest64 ?d = []" by (metis len length_0_conv length_rest64)
  moreover have "length (rest64 ?d) = k mod 64" by (simp only: length_rest64 len)
  moreover have "k mod 64 < 64" by simp
  ultimately show ?thesis
    using assms md5_blocks_run [OF assms(1), of s] r
    by (simp add: md5_tail_def slice_def memcpy_def)
qed

lemma word32_div8: "unat (drop_bit 3 (of_nat (8 * n) :: u32) AND 63) = n mod 64"
proof -
  have "drop_bit 3 (of_nat (8 * n) :: u32) AND 63 = take_bit 6 (drop_bit 3 (of_nat (8 * n)))"
    by (simp add: take_bit_eq_mask mask_eq_exp_minus_1)
  also have "unat \<dots> = (8 * n mod 2 ^ 32) div 2 ^ 3 mod 2 ^ 6"
    by (simp only: unsigned_take_bit_eq unat_drop_bit_eq unat_of_nat) (simp add: take_bit_eq_mod drop_bit_eq_div)
  also have "8 * n mod 2 ^ 32 = 8 * (n mod 2 ^ 29)" using mult_mod_right [of 8 n "2 ^ 29"] by simp
  also have "8 * (n mod 2 ^ 29) div 2 ^ 3 mod 2 ^ 6 = n mod 64" by (simp add: mod_mod_cancel)
  finally show ?thesis .
qed

text \<open>Appending extends the message.\<close>

lemma carry:
  assumes "a < (M :: nat)" "b < M"
  shows "(if (a + b) mod M < b then 1 else 0) = (a + b) div M"
proof (cases "a + b < M")
  case False
  with assms have "(a + b) div M = 1" "(a + b) mod M = a + b - M" by (simp_all add: le_div_geq le_mod_geq)
  with assms False show ?thesis by auto
qed simp

lemma md5_count_rep:
  assumes "count0 s = of_nat (8 * n)" "count1 s = of_nat (8 * n div 2 ^ 32)"
  shows "md5_count s (int k) = s\<lparr>count0 := of_nat (8 * (n + k)), count1 := of_nat (8 * (n + k) div 2 ^ 32)\<rparr>"
proof -
  define nb lo where "nb = (push_bit 3 (of_nat k) :: u32)" and "lo = (of_nat (8 * n) + nb :: u32)"
  have nb: "nb = of_nat (8 * k)" by (simp add: nb_def push_bit_eq_mult)
  have lo: "lo = of_nat (8 * (n + k))" by (simp add: lo_def nb algebra_simps)
  let ?a = "8 * n mod 2 ^ 32" and ?b = "8 * k mod 2 ^ 32"
  have "unat lo = (?a + ?b) mod 2 ^ 32" "unat nb = ?b"
    unfolding lo nb unat_of_nat distrib_left by (simp_all add: mod_add_eq)
  then have c: "(if lo < nb then 1 else 0) = (?a + ?b) div 2 ^ 32"
    using carry [of ?a "2 ^ 32" ?b] by (simp add: word_less_nat_alt)
  have d29: "of_int (int k div 2 ^ 29) = (of_nat (k div 2 ^ 29) :: u32)"
    by (metis of_int_of_nat_eq zdiv_int of_nat_numeral of_nat_power)
  have "8 * (n + k) div 2 ^ 32 = 8 * n div 2 ^ 32 + 8 * k div 2 ^ 32 + (?a + ?b) div 2 ^ 32"
    unfolding distrib_left by (rule div_add1_eq)
  also have "8 * k div 2 ^ 32 = k div 2 ^ 29" by simp
  finally have "of_nat (8 * (n + k) div 2 ^ 32) =
      (of_nat (8 * n div 2 ^ 32) + of_nat (k div 2 ^ 29) + of_nat (if lo < nb then 1 else 0) :: u32)"
    unfolding c by (simp only: of_nat_add)
  then have "(if lo < nb then count1 s + of_int (int k div 2 ^ 29) + 1 else count1 s + of_int (int k div 2 ^ 29)) =
      of_nat (8 * (n + k) div 2 ^ 32)"
    unfolding d29 assms(2) by (simp del: of_nat_add split: if_splits)
  moreover have "count0 s + push_bit 3 (of_int (int k)) = lo" "push_bit 3 (of_int (int k)) = nb"
    using assms(1) by (simp_all add: lo_def nb_def)
  ultimately show ?thesis
    unfolding md5_count_def Let_def lo [symmetric] by (simp split: if_splits)
qed

lemma md5_rep_append:
  assumes "md5_rep s m" "count0 s' = of_nat (8 * (length m + length d))"
    "count1 s' = of_nat (8 * (length m + length d) div 2 ^ 32)"
    "abcd s' = foldl md5_compress (abcd s) (blocks64 (rest64 m @ d))" "length (buf s') = 64"
    "take ((length m mod 64 + length d) mod 64) (buf s') = rest64 (rest64 m @ d)"
  shows "md5_rep s' (m @ d)"
proof -
  have "(length m + length d) mod 64 = (length m mod 64 + length d) mod 64" by (simp add: mod_add_left_eq)
  with assms blocks64_append [of m d] rest64_append [of m d] show ?thesis by (simp add: md5_rep_def)
qed

lemma append_run:
  assumes rep: "md5_rep s m" and n: "nbytes \<le> int (length data)" "length m mod 64 \<noteq> 0 \<Longrightarrow> nbytes < 2 ^ 31 - 63"
  shows "wp (md5_append s data nbytes) (\<lambda>s'. md5_rep s' (m @ take (nat nbytes) data))"
proof (cases "nbytes \<le> 0")
  case True
  with rep show ?thesis by (simp add: md5_append_def)
next
  case False
  define k where "k = nat nbytes"
  then have k: "nbytes = int k" "0 < k" "k \<le> length data" using False n(1) by simp_all
  let ?off = "length m mod 64" and ?d = "take k data"
  define s1 where "s1 = s\<lparr>count0 := of_nat (8 * (length m + k)), count1 := of_nat (8 * (length m + k) div 2 ^ 32)\<rparr>"
  have s1: "abcd s1 = abcd s" "buf s1 = buf s" "length (buf s) = 64" "take ?off (buf s) = rest64 m"
    using rep by (simp_all add: s1_def md5_rep_def)
  have off: "unat (drop_bit 3 (count0 s) AND 63) = ?off" using rep word32_div8 by (simp add: md5_rep_def)
  have cnt: "md5_count s (int k) = s1"
    unfolding s1_def by (rule md5_count_rep) (use rep in \<open>simp_all add: md5_rep_def\<close>)
  have small: "\<not> 2 ^ 31 \<le> int ?off + int k" if "?off \<noteq> 0"
  proof -
    have "?off < 64" by simp
    then show ?thesis using n(2) [OF that] k(1) by linarith
  qed
  have run: "md5_append s data nbytes = (if ?off \<noteq> 0 then do {
      copy \<leftarrow> Some (if int ?off + int k > 64 then 64 - ?off else k);
      src \<leftarrow> slice data 0 copy;
      b \<leftarrow> memcpy (buf s1) ?off src;
      pms \<leftarrow> Some (s1\<lparr>buf := b\<rparr>);
      if ?off + copy < 64 then Some pms
      else md5_tail (md5_process pms (buf pms)) data copy (int k - int copy)
    } else md5_tail s1 data 0 (int k))"
    using k(2) small unfolding md5_append_def Let_def k(1) off cnt nat_int by simp
  note rep' = md5_rep_append [OF rep, where d = ?d]
  show ?thesis
  proof (cases "?off = 0")
    case True
    then have "rest64 m = []" by (metis length_0_conv length_rest64)
    then show ?thesis
      using md5_tail_run [of 0 k data s1] rep' run True k s1
      by (auto simp: s1_def elim!: wp_mono)
  next
    case False
    show ?thesis
    proof (cases "?off + k < 64")
      case True
      then have "length (rest64 m @ ?d) < 64" using k(3) by simp
      then have "blocks64 (rest64 m @ ?d) = []" "rest64 (rest64 m @ ?d) = rest64 m @ ?d"
        by (simp_all add: rest64_def)
      then show ?thesis
        using rep' run False True k s1 by (simp add: slice_def memcpy_def s1_def)
    next
      case big: False
      define c where "c = 64 - ?off"
      have c: "0 < c" "c \<le> k" "?off + c = 64" using big by (simp_all add: c_def)
      let ?b = "rest64 m @ take c data"
      let ?s2 = "md5_process (s1\<lparr>buf := ?b\<rparr>) ?b"
      have lb: "length ?b = 64" using c k(3) by simp
      have "(if int ?off + int k > 64 then 64 - ?off else k) = c" using big c_def by auto
      then have r2: "md5_append s data nbytes = md5_tail ?s2 data c (int (k - c))"
        using run False c k(3) s1 by (simp add: slice_def memcpy_def of_nat_diff)
      have d: "?d = take c data @ take (k - c) (drop c data)"
        using c(2) by (metis le_add_diff_inverse take_add)
      have "blocks64 (rest64 m @ ?d) = ?b # blocks64 (take (k - c) (drop c data))"
        "rest64 (rest64 m @ ?d) = rest64 (take (k - c) (drop c data))"
        unfolding d using blocks64_exact [OF lb] rest64_exact [OF lb] by simp_all
      moreover have "(?off + k) mod 64 = (k - c) mod 64"
      proof -
        have "?off + k = 64 + (k - c)" using c by linarith
        then show ?thesis by (simp only: mod_add_self1)
      qed
      ultimately show ?thesis
        using md5_tail_run [of c "k - c" data ?s2] rep' r2 k c lb s1
        by (auto simp: s1_def md5_process_def elim!: wp_mono)
    qed
  qed
qed

subsection \<open>Padding and the digest\<close>

text \<open>RFC 1321: a 1 bit, zeros up to 56 bytes modulo 64, the length in bits as 64 bits.\<close>

definition md5_padded :: "u8 list \<Rightarrow> u8 list" where
  "md5_padded m = m @ 0x80 # replicate (nat ((55 - int (length m)) mod 64)) 0 @
     le_bytes (of_nat (8 * length m)) @ le_bytes (of_nat (8 * length m div 2 ^ 32))"

definition regs_bytes :: "regs \<Rightarrow> u8 list" where
  "regs_bytes r = (case r of (a, b, c, d) \<Rightarrow> le_bytes a @ le_bytes b @ le_bytes c @ le_bytes d)"

definition md5_hash :: "u8 list \<Rightarrow> u8 list" where
  "md5_hash m = regs_bytes (foldl md5_compress md5_iv (blocks64 (md5_padded m)))"

lemma length_le_bytes [simp]: "length (le_bytes w) = 4"
  by (simp add: le_bytes_def)

lemma length_padded: "length (md5_padded m) mod 64 = 0"
proof -
  have "int (length (md5_padded m)) mod 64 = (int (length m) + 9 + (55 - int (length m)) mod 64) mod 64"
    by (simp add: md5_padded_def algebra_simps)
  also have "\<dots> = 0" by (simp add: mod_simps)
  finally show ?thesis by (metis of_nat_eq_0_iff of_nat_mod of_nat_numeral)
qed

lemma pad_length: "uint (((55 - drop_bit 3 (of_nat (8 * n) :: u32)) AND 63) + 1) = (55 - int n) mod 64 + 1"
proof -
  let ?w = "drop_bit 3 (of_nat (8 * n) :: u32)"
  have "int (unat ?w) = int (n mod 2 ^ 29)"
    unfolding unat_drop_bit_eq unat_of_nat using mult_mod_right [of 8 n "2 ^ 29"]
    by (simp add: drop_bit_eq_div)
  then have w: "uint ?w = int n mod 2 ^ 29" by (simp add: zmod_int)
  have "(55 - ?w) AND 63 = take_bit 6 (55 - ?w)" by (simp add: take_bit_eq_mask mask_eq_exp_minus_1)
  then have "uint ((55 - ?w) AND 63) = uint (55 - ?w) mod 64"
    by (simp only: unsigned_take_bit_eq) (simp add: take_bit_eq_mod)
  also have "uint (55 - ?w) = (55 - uint ?w) mod 2 ^ 32"
    by (simp only: uint_word_ariths) simp
  also have "\<dots> mod 64 = (55 - uint ?w) mod 64" by (simp add: mod_mod_cancel)
  also have "\<dots> = (55 - (int n mod 2 ^ 29) mod 64) mod 64" unfolding w by (simp only: mod_diff_right_eq)
  also have "\<dots> = (55 - int n) mod 64" by (simp add: mod_mod_cancel mod_diff_right_eq)
  finally have "uint ((55 - ?w) AND 63) = (55 - int n) mod 64" .
  moreover have "uint (w + 1) = uint w + 1" if "uint w < 64" for w :: u32
    using that by (simp add: uint_plus_simple_iff [symmetric] uint_word_ariths)
  ultimately show ?thesis by simp
qed

lemma md5_pad_take:
  "0 \<le> k \<Longrightarrow> k < 64 \<Longrightarrow> take (nat (k + 1)) md5_pad = 0x80 # replicate (nat k) 0"
  by (simp add: md5_pad_def nat_add_distrib)

lemma finish_run:
  assumes "md5_rep s m"
  shows "wp (md5_finish s) (\<lambda>(s', digest). digest = md5_hash m)"
proof -
  let ?len = "le_bytes (count0 s) @ le_bytes (count1 s)"
  let ?k = "(55 - int (length m)) mod 64"
  have c: "count0 s = of_nat (8 * length m)" "count1 s = of_nat (8 * length m div 2 ^ 32)"
    using assms by (simp_all add: md5_rep_def)
  have k: "0 \<le> ?k" "?k < 64" by simp_all
  have n: "uint (((55 - drop_bit 3 (count0 s)) AND 63) + 1) = ?k + 1"
    unfolding c by (rule pad_length)
  have "wp (md5_append s md5_pad (?k + 1)) (\<lambda>s'. md5_rep s' (m @ take (nat (?k + 1)) md5_pad))"
    by (rule append_run [OF assms]) (use k in \<open>simp_all add: md5_pad_def\<close>)
  then obtain s1 where s1: "md5_append s md5_pad (?k + 1) = Some s1" "md5_rep s1 (m @ 0x80 # replicate (nat ?k) 0)"
    unfolding md5_pad_take [OF k] by (auto elim: wpE)
  have "wp (md5_append s1 ?len 8) (\<lambda>s'. md5_rep s' ((m @ 0x80 # replicate (nat ?k) 0) @ take (nat 8) ?len))"
    by (rule append_run [OF s1(2)]) simp_all
  then obtain s2 where s2: "md5_append s1 ?len 8 = Some s2" "md5_rep s2 (md5_padded m)"
    by (auto simp: md5_padded_def c elim: wpE)
  then show ?thesis
    unfolding md5_finish_def n using s1(1)
    by (simp add: md5_rep_def md5_hash_def regs_bytes_def split: prod.splits)
qed

lemma init_run:
  assumes "length (buf s) = 64"
  shows "md5_rep (md5_init s) []"
  using assms by (simp add: md5_rep_def md5_init_def md5_iv_def T_MASK_def rest64_def)

lemma append_init:
  assumes "length (buf s) = 64"
  shows "wp (md5_append (md5_init s) (instr @ [0]) (int (length instr))) (\<lambda>s'. md5_rep s' instr)"
  using append_run [OF init_run [OF assms], of "int (length instr)" "instr @ [0]"] by simp

lemma md5_digest_run:
  assumes "length (buf garbage) = 64" "length instr < 2 ^ 31"
  shows "conhash_md5_digest garbage instr = Some (md5_hash instr)"
proof -
  have "sint (of_nat (length instr) :: u32) = int (length instr)"
    using assms(2) by (simp add: signed_of_nat signed_take_bit_int_eq_self)
  moreover obtain s where "md5_append (md5_init garbage) (instr @ [0]) (int (length instr)) = Some s" "md5_rep s instr"
    using append_init [OF assms(1), of instr] by (rule wpE)
  moreover from finish_run [OF this(2)] obtain s' where "md5_finish s = Some (s', md5_hash instr)"
    by (auto elim: wpE)
  ultimately show ?thesis by (simp add: conhash_md5_digest_def)
qed

subsection \<open>RFC 1321 as a reference\<close>

text \<open>
  The 64 operations of the RFC in its own order: operation \<open>j\<close> uses function, message word,
  rotation and constant \<open>j\<close>, and the registers rotate by one position.
\<close>

definition rfc_f :: "nat \<Rightarrow> u32 \<Rightarrow> u32 \<Rightarrow> u32 \<Rightarrow> u32" where
  "rfc_f j x y z = (if j < 16 then (x AND y) OR (NOT x AND z)
     else if j < 32 then (x AND z) OR (y AND NOT z)
     else if j < 48 then x XOR y XOR z
     else y XOR (x OR NOT z))"

definition rfc_k :: "nat \<Rightarrow> nat" where
  "rfc_k j = (if j < 16 then j else if j < 32 then (1 + 5 * j) mod 16
     else if j < 48 then (5 + 3 * j) mod 16 else 7 * j mod 16)"

definition rfc_s :: "nat \<Rightarrow> nat" where
  "rfc_s j = (if j < 16 then [7, 12, 17, 22] else if j < 32 then [5, 9, 14, 20]
     else if j < 48 then [4, 11, 16, 23] else [6, 10, 15, 21]) ! (j mod 4)"

definition rfc_op :: "u32 list \<Rightarrow> regs \<Rightarrow> nat \<Rightarrow> regs" where
  "rfc_op X r j = (case r of (a, b, c, d) \<Rightarrow>
     (d, b + word_rotl (rfc_s j) (a + rfc_f j b c d + X ! rfc_k j + md5_T ! j), b, c))"

definition rfc_compress :: "regs \<Rightarrow> u8 list \<Rightarrow> regs" where
  "rfc_compress r block = (case (r, foldl (rfc_op (le_words block)) r [0..<64]) of
     ((a0, b0, c0, d0), (a, b, c, d)) \<Rightarrow> (a0 + a, b0 + b, c0 + c, d0 + d))"

lemma rotl: 
  assumes "0 < n" "n < 32"
  shows "ROTATE_LEFT x n = word_rotl n x"
proof (rule bit_word_eqI)
  fix i assume "i < LENGTH(32)"
  then show "bit (ROTATE_LEFT x n) i \<longleftrightarrow> bit (word_rotl n x) i"
  proof (cases "n \<le> i")
    case True
    have "i + 32 - n = i - n + 32" using True by simp
    then have "(i + 32 - n) mod 32 = i - n" using \<open>i < LENGTH(32)\<close> by (simp only: mod_add_self2) simp
    moreover have "\<not> bit x (32 - n + i)"
      using True assms bit_imp_le_length [of x "32 - n + i"] by auto
    ultimately show ?thesis
      using assms True \<open>i < LENGTH(32)\<close> by (simp add: ROTATE_LEFT_def bit_word_rotl_iff bit_simps)
  next
    case False
    then have "(i + 32 - n) mod 32 = 32 - n + i" using assms by simp
    with False assms \<open>i < LENGTH(32)\<close> show ?thesis
      by (simp add: ROTATE_LEFT_def bit_word_rotl_iff bit_simps)
  qed
qed

lemma rot1: "ROTATE_LEFT x 7 = word_rotl 7 x" "ROTATE_LEFT x 12 = word_rotl 12 x" "ROTATE_LEFT x 17 = word_rotl 17 x"
  "ROTATE_LEFT x 22 = word_rotl 22 x" "ROTATE_LEFT x 5 = word_rotl 5 x" "ROTATE_LEFT x 9 = word_rotl 9 x"
  "ROTATE_LEFT x 14 = word_rotl 14 x" "ROTATE_LEFT x 20 = word_rotl 20 x" "ROTATE_LEFT x 4 = word_rotl 4 x"
  "ROTATE_LEFT x 11 = word_rotl 11 x" "ROTATE_LEFT x 16 = word_rotl 16 x" "ROTATE_LEFT x 23 = word_rotl 23 x"
  "ROTATE_LEFT x 6 = word_rotl 6 x" "ROTATE_LEFT x 10 = word_rotl 10 x" "ROTATE_LEFT x 15 = word_rotl 15 x"
  "ROTATE_LEFT x 21 = word_rotl 21 x"
  by (rule rotl; simp)+

text \<open>One operation per register position.\<close>

definition op_at :: "u32 list \<Rightarrow> nat \<Rightarrow> u32 \<Rightarrow> u32 \<Rightarrow> u32 \<Rightarrow> u32 \<Rightarrow> u32" where
  "op_at X j a b c d = b + word_rotl (rfc_s j) (a + rfc_f j b c d + X ! rfc_k j + md5_T ! j)"

lemma rfc_op_at: "rfc_op X (a, b, c, d) j = (d, op_at X j a b c d, b, c)"
  by (simp add: rfc_op_def op_at_def)

lemma rfc_vals:
  "rfc_k 0 = 0" "rfc_k 1 = 1" "rfc_k 2 = 2" "rfc_k 3 = 3"
  "rfc_s 0 = 7" "rfc_s 1 = 12" "rfc_s 2 = 17" "rfc_s 3 = 22"
  "rfc_k 4 = 4" "rfc_k 5 = 5" "rfc_k 6 = 6" "rfc_k 7 = 7"
  "rfc_s 4 = 7" "rfc_s 5 = 12" "rfc_s 6 = 17" "rfc_s 7 = 22"
  "rfc_k 8 = 8" "rfc_k 9 = 9" "rfc_k 10 = 10" "rfc_k 11 = 11"
  "rfc_s 8 = 7" "rfc_s 9 = 12" "rfc_s 10 = 17" "rfc_s 11 = 22"
  "rfc_k 12 = 12" "rfc_k 13 = 13" "rfc_k 14 = 14" "rfc_k 15 = 15"
  "rfc_s 12 = 7" "rfc_s 13 = 12" "rfc_s 14 = 17" "rfc_s 15 = 22"
  "rfc_k 16 = 1" "rfc_k 17 = 6" "rfc_k 18 = 11" "rfc_k 19 = 0"
  "rfc_s 16 = 5" "rfc_s 17 = 9" "rfc_s 18 = 14" "rfc_s 19 = 20"
  "rfc_k 20 = 5" "rfc_k 21 = 10" "rfc_k 22 = 15" "rfc_k 23 = 4"
  "rfc_s 20 = 5" "rfc_s 21 = 9" "rfc_s 22 = 14" "rfc_s 23 = 20"
  "rfc_k 24 = 9" "rfc_k 25 = 14" "rfc_k 26 = 3" "rfc_k 27 = 8"
  "rfc_s 24 = 5" "rfc_s 25 = 9" "rfc_s 26 = 14" "rfc_s 27 = 20"
  "rfc_k 28 = 13" "rfc_k 29 = 2" "rfc_k 30 = 7" "rfc_k 31 = 12"
  "rfc_s 28 = 5" "rfc_s 29 = 9" "rfc_s 30 = 14" "rfc_s 31 = 20"
  "rfc_k 32 = 5" "rfc_k 33 = 8" "rfc_k 34 = 11" "rfc_k 35 = 14"
  "rfc_s 32 = 4" "rfc_s 33 = 11" "rfc_s 34 = 16" "rfc_s 35 = 23"
  "rfc_k 36 = 1" "rfc_k 37 = 4" "rfc_k 38 = 7" "rfc_k 39 = 10"
  "rfc_s 36 = 4" "rfc_s 37 = 11" "rfc_s 38 = 16" "rfc_s 39 = 23"
  "rfc_k 40 = 13" "rfc_k 41 = 0" "rfc_k 42 = 3" "rfc_k 43 = 6"
  "rfc_s 40 = 4" "rfc_s 41 = 11" "rfc_s 42 = 16" "rfc_s 43 = 23"
  "rfc_k 44 = 9" "rfc_k 45 = 12" "rfc_k 46 = 15" "rfc_k 47 = 2"
  "rfc_s 44 = 4" "rfc_s 45 = 11" "rfc_s 46 = 16" "rfc_s 47 = 23"
  "rfc_k 48 = 0" "rfc_k 49 = 7" "rfc_k 50 = 14" "rfc_k 51 = 5"
  "rfc_s 48 = 6" "rfc_s 49 = 10" "rfc_s 50 = 15" "rfc_s 51 = 21"
  "rfc_k 52 = 12" "rfc_k 53 = 3" "rfc_k 54 = 10" "rfc_k 55 = 1"
  "rfc_s 52 = 6" "rfc_s 53 = 10" "rfc_s 54 = 15" "rfc_s 55 = 21"
  "rfc_k 56 = 8" "rfc_k 57 = 15" "rfc_k 58 = 6" "rfc_k 59 = 13"
  "rfc_s 56 = 6" "rfc_s 57 = 10" "rfc_s 58 = 15" "rfc_s 59 = 21"
  "rfc_k 60 = 4" "rfc_k 61 = 11" "rfc_k 62 = 2" "rfc_k 63 = 9"
  "rfc_s 60 = 6" "rfc_s 61 = 10" "rfc_s 62 = 15" "rfc_s 63 = 21"
  by (simp_all add: rfc_k_def rfc_s_def)

lemma set_round1:
  "SET md5_F a b c d (X ! 0) 7 (md5_T ! 0) = op_at X 0 a b c d"
  "SET md5_F a b c d (X ! 1) 12 (md5_T ! 1) = op_at X 1 a b c d"
  "SET md5_F a b c d (X ! 2) 17 (md5_T ! 2) = op_at X 2 a b c d"
  "SET md5_F a b c d (X ! 3) 22 (md5_T ! 3) = op_at X 3 a b c d"
  "SET md5_F a b c d (X ! 4) 7 (md5_T ! 4) = op_at X 4 a b c d"
  "SET md5_F a b c d (X ! 5) 12 (md5_T ! 5) = op_at X 5 a b c d"
  "SET md5_F a b c d (X ! 6) 17 (md5_T ! 6) = op_at X 6 a b c d"
  "SET md5_F a b c d (X ! 7) 22 (md5_T ! 7) = op_at X 7 a b c d"
  "SET md5_F a b c d (X ! 8) 7 (md5_T ! 8) = op_at X 8 a b c d"
  "SET md5_F a b c d (X ! 9) 12 (md5_T ! 9) = op_at X 9 a b c d"
  "SET md5_F a b c d (X ! 10) 17 (md5_T ! 10) = op_at X 10 a b c d"
  "SET md5_F a b c d (X ! 11) 22 (md5_T ! 11) = op_at X 11 a b c d"
  "SET md5_F a b c d (X ! 12) 7 (md5_T ! 12) = op_at X 12 a b c d"
  "SET md5_F a b c d (X ! 13) 12 (md5_T ! 13) = op_at X 13 a b c d"
  "SET md5_F a b c d (X ! 14) 17 (md5_T ! 14) = op_at X 14 a b c d"
  "SET md5_F a b c d (X ! 15) 22 (md5_T ! 15) = op_at X 15 a b c d"
  by (simp_all del: One_nat_def add: SET_def op_at_def rfc_f_def rfc_vals rot1 md5_F_def ac_simps)

lemma set_round2:
  "SET md5_G a b c d (X ! 1) 5 (md5_T ! 16) = op_at X 16 a b c d"
  "SET md5_G a b c d (X ! 6) 9 (md5_T ! 17) = op_at X 17 a b c d"
  "SET md5_G a b c d (X ! 11) 14 (md5_T ! 18) = op_at X 18 a b c d"
  "SET md5_G a b c d (X ! 0) 20 (md5_T ! 19) = op_at X 19 a b c d"
  "SET md5_G a b c d (X ! 5) 5 (md5_T ! 20) = op_at X 20 a b c d"
  "SET md5_G a b c d (X ! 10) 9 (md5_T ! 21) = op_at X 21 a b c d"
  "SET md5_G a b c d (X ! 15) 14 (md5_T ! 22) = op_at X 22 a b c d"
  "SET md5_G a b c d (X ! 4) 20 (md5_T ! 23) = op_at X 23 a b c d"
  "SET md5_G a b c d (X ! 9) 5 (md5_T ! 24) = op_at X 24 a b c d"
  "SET md5_G a b c d (X ! 14) 9 (md5_T ! 25) = op_at X 25 a b c d"
  "SET md5_G a b c d (X ! 3) 14 (md5_T ! 26) = op_at X 26 a b c d"
  "SET md5_G a b c d (X ! 8) 20 (md5_T ! 27) = op_at X 27 a b c d"
  "SET md5_G a b c d (X ! 13) 5 (md5_T ! 28) = op_at X 28 a b c d"
  "SET md5_G a b c d (X ! 2) 9 (md5_T ! 29) = op_at X 29 a b c d"
  "SET md5_G a b c d (X ! 7) 14 (md5_T ! 30) = op_at X 30 a b c d"
  "SET md5_G a b c d (X ! 12) 20 (md5_T ! 31) = op_at X 31 a b c d"
  by (simp_all del: One_nat_def add: SET_def op_at_def rfc_f_def rfc_vals rot1 md5_G_def ac_simps)

lemma set_round3:
  "SET md5_H a b c d (X ! 5) 4 (md5_T ! 32) = op_at X 32 a b c d"
  "SET md5_H a b c d (X ! 8) 11 (md5_T ! 33) = op_at X 33 a b c d"
  "SET md5_H a b c d (X ! 11) 16 (md5_T ! 34) = op_at X 34 a b c d"
  "SET md5_H a b c d (X ! 14) 23 (md5_T ! 35) = op_at X 35 a b c d"
  "SET md5_H a b c d (X ! 1) 4 (md5_T ! 36) = op_at X 36 a b c d"
  "SET md5_H a b c d (X ! 4) 11 (md5_T ! 37) = op_at X 37 a b c d"
  "SET md5_H a b c d (X ! 7) 16 (md5_T ! 38) = op_at X 38 a b c d"
  "SET md5_H a b c d (X ! 10) 23 (md5_T ! 39) = op_at X 39 a b c d"
  "SET md5_H a b c d (X ! 13) 4 (md5_T ! 40) = op_at X 40 a b c d"
  "SET md5_H a b c d (X ! 0) 11 (md5_T ! 41) = op_at X 41 a b c d"
  "SET md5_H a b c d (X ! 3) 16 (md5_T ! 42) = op_at X 42 a b c d"
  "SET md5_H a b c d (X ! 6) 23 (md5_T ! 43) = op_at X 43 a b c d"
  "SET md5_H a b c d (X ! 9) 4 (md5_T ! 44) = op_at X 44 a b c d"
  "SET md5_H a b c d (X ! 12) 11 (md5_T ! 45) = op_at X 45 a b c d"
  "SET md5_H a b c d (X ! 15) 16 (md5_T ! 46) = op_at X 46 a b c d"
  "SET md5_H a b c d (X ! 2) 23 (md5_T ! 47) = op_at X 47 a b c d"
  by (simp_all del: One_nat_def add: SET_def op_at_def rfc_f_def rfc_vals rot1 md5_H_def ac_simps)

lemma set_round4:
  "SET md5_I a b c d (X ! 0) 6 (md5_T ! 48) = op_at X 48 a b c d"
  "SET md5_I a b c d (X ! 7) 10 (md5_T ! 49) = op_at X 49 a b c d"
  "SET md5_I a b c d (X ! 14) 15 (md5_T ! 50) = op_at X 50 a b c d"
  "SET md5_I a b c d (X ! 5) 21 (md5_T ! 51) = op_at X 51 a b c d"
  "SET md5_I a b c d (X ! 12) 6 (md5_T ! 52) = op_at X 52 a b c d"
  "SET md5_I a b c d (X ! 3) 10 (md5_T ! 53) = op_at X 53 a b c d"
  "SET md5_I a b c d (X ! 10) 15 (md5_T ! 54) = op_at X 54 a b c d"
  "SET md5_I a b c d (X ! 1) 21 (md5_T ! 55) = op_at X 55 a b c d"
  "SET md5_I a b c d (X ! 8) 6 (md5_T ! 56) = op_at X 56 a b c d"
  "SET md5_I a b c d (X ! 15) 10 (md5_T ! 57) = op_at X 57 a b c d"
  "SET md5_I a b c d (X ! 6) 15 (md5_T ! 58) = op_at X 58 a b c d"
  "SET md5_I a b c d (X ! 13) 21 (md5_T ! 59) = op_at X 59 a b c d"
  "SET md5_I a b c d (X ! 4) 6 (md5_T ! 60) = op_at X 60 a b c d"
  "SET md5_I a b c d (X ! 11) 10 (md5_T ! 61) = op_at X 61 a b c d"
  "SET md5_I a b c d (X ! 2) 15 (md5_T ! 62) = op_at X 62 a b c d"
  "SET md5_I a b c d (X ! 9) 21 (md5_T ! 63) = op_at X 63 a b c d"
  by (simp_all del: One_nat_def add: SET_def op_at_def rfc_f_def rfc_vals rot1 md5_I_def ac_simps)

lemma four_ops: "foldl (rfc_op X) (a, b, c, d) (j0 # j1 # j2 # j3 # js) =
   (let a = op_at X j0 a b c d; d = op_at X j1 d a b c; c = op_at X j2 c d a b; b = op_at X j3 b c d a
    in foldl (rfc_op X) (a, b, c, d) js)"
  by (simp add: rfc_op_at Let_def)

lemma round1: "md5_round1 X r = foldl (rfc_op X) r [0, 1, 2, 3, 4, 5, 6, 7, 8, 9, 10, 11, 12, 13, 14, 15]"
  by (cases r) (simp only: md5_round1_def prod.case set_round1 four_ops foldl_Nil)

lemma round2: "md5_round2 X r = foldl (rfc_op X) r [16, 17, 18, 19, 20, 21, 22, 23, 24, 25, 26, 27, 28, 29, 30, 31]"
  by (cases r) (simp only: md5_round2_def prod.case set_round2 four_ops foldl_Nil)

lemma round3: "md5_round3 X r = foldl (rfc_op X) r [32, 33, 34, 35, 36, 37, 38, 39, 40, 41, 42, 43, 44, 45, 46, 47]"
  by (cases r) (simp only: md5_round3_def prod.case set_round3 four_ops foldl_Nil)

lemma round4: "md5_round4 X r = foldl (rfc_op X) r [48, 49, 50, 51, 52, 53, 54, 55, 56, 57, 58, 59, 60, 61, 62, 63]"
  by (cases r) (simp only: md5_round4_def prod.case set_round4 four_ops foldl_Nil)

lemma compress_rfc: "md5_compress r block = rfc_compress r block"
proof -
  have "[0..<64] = [0, 1, 2, 3, 4, 5, 6, 7, 8, 9, 10, 11, 12, 13, 14, 15] @
      [16, 17, 18, 19, 20, 21, 22, 23, 24, 25, 26, 27, 28, 29, 30, 31] @
      [32, 33, 34, 35, 36, 37, 38, 39, 40, 41, 42, 43, 44, 45, 46, 47] @
      [48, 49, 50, 51, 52, 53, 54, 55, 56, 57, 58, 59, 60, 61, 62, 63]"
    by (simp add: upt_rec)
  then have "foldl (rfc_op X) r [0..<64] = md5_round4 X (md5_round3 X (md5_round2 X (md5_round1 X r)))" for X
    by (simp only: round1 round2 round3 round4 foldl_append)
  then show ?thesis
    by (simp add: md5_compress_def rfc_compress_def Let_def split_def)
qed

subsection \<open>Properties\<close>

text \<open>The digest of a message by the RFC's own definition.\<close>

definition rfc_md5 :: "u8 list \<Rightarrow> u8 list" where
  "rfc_md5 m = regs_bytes (foldl rfc_compress md5_iv (blocks64 (md5_padded m)))"

lemma hash_rfc: "md5_hash m = rfc_md5 m"
  by (simp add: md5_hash_def rfc_md5_def compress_rfc [abs_def])







text \<open>C12. \<open>md5_append\<close> returns without a fault, whatever the buffer held and wherever the data is cut,
  in the state of the message extended by the data: the 64-bit bit count with its carry, the registers
  after all full blocks and the rest in the buffer. The sum \<open>offset + nbytes\<close> must not overflow.\<close>

theorem md5_append_correct:
  assumes "md5_rep s m" "nbytes \<le> int (length data)" "length m mod 64 \<noteq> 0 \<Longrightarrow> nbytes < 2 ^ 31 - 63"
  shows "wp (md5_append s data nbytes) (\<lambda>s'. md5_rep s' (m @ take (nat nbytes) data))"
  by (rule append_run [OF assms])

definition blank :: md5_state where
  "blank = \<lparr>count0 = 0, count1 = 0, abcd = (0, 0, 0, 0), buf = replicate 64 0\<rparr>"

lemma md5_append_correct_witness:
  "wp (md5_append (md5_init blank) [97, 98, 99] 2) (\<lambda>s'. md5_rep s' [97, 98])"
  using md5_append_correct [of "md5_init blank" "[]" 2 "[97, 98, 99]"] init_run [of blank]
  by (simp add: blank_def)



lemma le64_bytes:
  fixes w :: u32
  shows "push_bit 24 (ucast (ucast (drop_bit 24 w) :: u8) AND 0xFF) OR push_bit 16 (ucast (ucast (drop_bit 16 w) :: u8) AND 0xFF)
     OR push_bit 8 (ucast (ucast (drop_bit 8 w) :: u8) AND 0xFF) OR (ucast (ucast w :: u8) AND 0xFF) = (ucast w :: u64)"
    (is "?l = _")
proof (rule bit_word_eqI)
  fix i assume "i < LENGTH(64)"
  have m: "(0xFF :: u64) = mask 8" by (simp add: mask_eq_exp_minus_1)
  have hi: "bit w i \<longleftrightarrow> i < 32 \<and> bit w i" for i using bit_imp_le_length [of w i] by auto
  have byte: "bit (push_bit k (ucast (ucast (drop_bit k w) :: u8) AND mask 8 :: u64)) i \<longleftrightarrow> k \<le> i \<and> i < k + 8 \<and> bit w i" for k
    using \<open>i < LENGTH(64)\<close> by (auto simp: bit_simps)
  have "bit ?l i \<longleftrightarrow> (24 \<le> i \<and> i < 32 \<or> 16 \<le> i \<and> i < 24 \<or> 8 \<le> i \<and> i < 16 \<or> i < 8) \<and> bit w i"
    using byte [of 24] byte [of 16] byte [of 8] byte [of 0] unfolding m by (simp add: bit_or_iff) blast
  also have "\<dots> \<longleftrightarrow> bit w i" using hi [of i] by auto
  finally show "bit ?l i \<longleftrightarrow> bit (ucast w :: u64) i"
    using \<open>i < LENGTH(64)\<close> by (simp add: bit_simps)
qed

lemma le64_digest:
  "le64 (regs_bytes (a, b, c, d)) 0 = ucast a" "le64 (regs_bytes (a, b, c, d)) 1 = ucast b"
  "le64 (regs_bytes (a, b, c, d)) 2 = ucast c" "le64 (regs_bytes (a, b, c, d)) 3 = ucast d"
proof -
  have n: "le_bytes w = [ucast w, ucast (drop_bit 8 w), ucast (drop_bit 16 w), ucast (drop_bit 24 w)]" for w
    by (simp add: le_bytes_def upt_rec)
  show "le64 (regs_bytes (a, b, c, d)) 0 = ucast a" "le64 (regs_bytes (a, b, c, d)) 1 = ucast b"
    "le64 (regs_bytes (a, b, c, d)) 2 = ucast c" "le64 (regs_bytes (a, b, c, d)) 3 = ucast d"
    using le64_bytes [of a] le64_bytes [of b] le64_bytes [of c] le64_bytes [of d]
    by (simp_all add: le64_def regs_bytes_def n)
qed

lemma sum_words: "sint (ucast a + ucast b + ucast c + ucast d :: u64) = uint a + uint b + uint c + uint d"
  for a b c d :: u32
proof -
  let ?n = "unat a + unat b + unat c + unat d"
  have lt: "unat w < 2 ^ 32" for w :: u32 using unsigned_less [of w] by simp
  have "ucast w = (of_nat (unat w) :: u64)" for w :: u32 by simp
  then have "(ucast a + ucast b + ucast c + ucast d :: u64) = of_nat ?n" by (simp only: of_nat_add)
  moreover have small: "sint (of_nat n :: u64) = int n" if "n < 2 ^ 63" for n
    using that by (simp add: signed_of_nat signed_take_bit_int_eq_self)
  have "?n < 2 ^ 63" using lt [of a] lt [of b] lt [of c] lt [of d] by simp
  from small [OF this] have "sint (of_nat ?n :: u64) = int ?n" .
  ultimately show ?thesis by simp
qed

text \<open>The default hash \<open>__conhash_hash_def\<close> returns the sum of the digest's four little-endian words:
  never negative, below \<open>2^34\<close>, so the \<open>long\<close> sum does not overflow.\<close>

theorem hash_def_bounds:
  assumes "length (buf garbage) = 64" "length instr < 2 ^ 31"
  shows "\<exists>a b c d. foldl rfc_compress md5_iv (blocks64 (md5_padded instr)) = (a, b, c, d) \<and>
     conhash_hash_def garbage instr = Some (uint a + uint b + uint c + uint d) \<and>
     0 \<le> uint a + uint b + uint c + uint d \<and> uint a + uint b + uint c + uint d \<le> 4 * (2 ^ 32 - 1)"
proof -
  obtain a b c d where r: "foldl rfc_compress md5_iv (blocks64 (md5_padded instr)) = (a, b, c, d)"
    by (rule prod_cases4)
  then have "conhash_md5_digest garbage instr = Some (regs_bytes (a, b, c, d))"
    using md5_digest_run [OF assms] by (simp add: hash_rfc rfc_md5_def)
  then have "conhash_hash_def garbage instr = Some (sint (ucast a + ucast b + ucast c + ucast d :: u64))"
    by (simp add: conhash_hash_def_def upt_rec le64_digest numeral_2_eq_2 [symmetric] numeral_3_eq_3 [symmetric] flip: One_nat_def)
  moreover have "uint w \<le> 2 ^ 32 - 1" for w :: u32 using uint_lt2p [of w] by simp
  ultimately show ?thesis
    using r by (intro exI [of _ a] exI [of _ b] exI [of _ c] exI [of _ d] conjI)
      (simp_all only: sum_words, simp_all add: add_increasing, smt (verit))
qed

lemma hash_def_bounds_witness:
  "\<exists>a b c d. conhash_hash_def blank [97, 98, 99] = Some (uint a + uint b + uint c + uint d) \<and>
     uint (a :: u32) + uint (b :: u32) + uint (c :: u32) + uint (d :: u32) \<le> 4 * (2 ^ 32 - 1)"
  using hash_def_bounds [of blank "[97, 98, 99]"] unfolding blank_def by auto

end
