(* ===== verification/Conhash_Correct.thy ===== *)
theory Conhash_Correct
  imports Conhash_Ring Md5_Correct
begin

text \<open>
  The properties of \<open>libconhash\<close>'s interface, from \<open>conhash_init\<close> to \<open>conhash_fini\<close>: each
  call against the abstract ring, the consistency of the assignment of objects to servers
  under adding and deleting a server, and a concrete ring on which each theorem is applied.
\<close>

subsection \<open>Set-up, teardown and listing\<close>

lemma fini_frees:
  assumes "store_rep (vnode_tree C) xs" "hash_inv C xs"
  shows "wp (conhash_fini C) (\<lambda>C'.
     dom (mem (vnode_tree C')) = dom (mem (vnode_tree C)) - insert (null (vnode_tree C)) (adr ` set xs) \<and>
     dom (vnodes C') = dom (vnodes C) - edata ` set xs)"
proof -
  have "wp (conhash_fini_loop C) (\<lambda>C'. store_rep (vnode_tree C') [] \<and>
     dom (mem (vnode_tree C')) = dom (mem (vnode_tree C)) - adr ` set xs \<and>
     dom (vnodes C') = dom (vnodes C) - edata ` set xs \<and> null (vnode_tree C') = null (vnode_tree C))"
    by (rule fini_loop [OF assms(1)]) (use assms(2) in \<open>auto simp: hash_inv_def\<close>)
  then show ?thesis
    by (auto simp: conhash_fini_def heap_update_def wp_bind elim!: wp_mono)
qed

lemma init_ring:
  assumes "mallocs C = a # ms" "a \<noteq> NULL" "mem (vnode_tree C) NULL = None"
    "mallocs_ok C"
  shows "wp (conhash_init g pf C) (\<lambda>(p, C'). p = a \<and> ring_ready C' [] \<and> mallocs_ok C' \<and>
     nodes C' = nodes C \<and> vnodes C' = vnodes C \<and> mallocs C' = ms \<and>
     cb_hashfunc C' = (case pf of Some f \<Rightarrow> f | None \<Rightarrow> \<lambda>s. the (conhash_hash_def g s)) \<and>
     dom (mem (vnode_tree C')) = insert a (dom (mem (vnode_tree C))))"
proof -
  let ?T = "\<lparr>root = NULL, null = a, rsize = 0, mem = (mem (vnode_tree C))
                      (a \<mapsto> \<lparr>key = 0, parent = NULL, right = NULL, left = NULL, color = 0, data = NULL\<rparr>)\<rparr>"
  have "wp (util_rbtree_init ?T) (\<lambda>T'. tree_rep T' [] (null T') \<and> null T' = null ?T \<and> outside ?T T' {null ?T})"
    by (rule init_contract) (use assms(2,3) in simp_all)
  then obtain T' where T': "util_rbtree_init ?T = Some T'" "tree_rep T' [] (null T')" "null T' = a"
    "outside ?T T' {a}" by (auto elim: wpE)
  have m: "mem T' x = mem (vnode_tree C) x" if "x \<noteq> a" for x
    using T'(4) that by (auto simp: outside_def)
  have "mem T' a \<noteq> None" using T'(2,3) tree_rep_null by metis
  then have d: "dom (mem T') = insert a (dom (mem (vnode_tree C)))"
  proof -
    have "x \<in> dom (mem T') \<longleftrightarrow> x = a \<or> x \<in> dom (mem (vnode_tree C))" for x
      using m [of x] \<open>mem T' a \<noteq> None\<close> by (cases "x = a") (simp_all add: domIff)
    then show ?thesis by blast
  qed
  let ?C = "C\<lparr>mallocs := ms, ivnodes := 0, vnode_tree := T',
     cb_hashfunc := (case pf of Some f \<Rightarrow> f | None \<Rightarrow> \<lambda>s. the (conhash_hash_def g s))\<rparr>"
  have "conhash_init g pf C = Some (a, ?C)"
    using assms(1,2) T'(1) by (simp add: conhash_init_def malloc_def Let_def)
  moreover have "ring_ready ?C []"
    using T'(2) by (auto simp: ring_ready_def store_ready_def hash_inv_def intro!: exI [of _ "[]"])
  moreover have "mallocs_ok ?C"
    using assms m by (auto simp: mallocs_ok_def) (metis neq0_conv)
  ultimately show ?thesis using d by simp
qed

lemma get_vnodes_fold:
  assumes "length values \<ge> nat n" "i \<le> nat n"
  shows "fold (\<lambda>nd. get_vnodes_cb nd) ks (Some \<lparr>gv_values = values, gv_size = n, gv_cur = i\<rparr>) =
    Some \<lparr>gv_values = take i values @ take (nat n - i) (map key ks) @ drop (min (nat n) (i + length ks)) values,
      gv_size = n, gv_cur = min (nat n) (i + length ks)\<rparr>"
  using assms
proof (induction ks arbitrary: "values" i)
  case Nil
  then show ?case by (simp add: min_def)
next
  case (Cons k ks)
  show ?case
  proof (cases "i < nat n")
    case True
    have "take (Suc i) (values[i := key k]) = take i values @ [key k]"
      using True Cons.prems(1) by (simp add: take_Suc_conv_app_nth)
    moreover have "drop (min (nat n) (Suc i + length ks)) (values[i := key k]) = drop (min (nat n) (Suc i + length ks)) values"
      using True by (simp add: drop_update_cancel)
    moreover have "take (nat n - i) (key k # map key ks) = key k # take (nat n - Suc i) (map key ks)"
      using True by (simp add: take_Cons' flip: diff_Suc_eq_diff_pred)
    moreover have "get_vnodes_cb k (Some \<lparr>gv_values = values, gv_size = n, gv_cur = i\<rparr>) =
        Some \<lparr>gv_values = values[i := key k], gv_size = n, gv_cur = Suc i\<rparr>"
      using True Cons.prems(1) by (simp add: get_vnodes_cb_def)
    ultimately show ?thesis
      using True Cons.prems Cons.IH [of "values[i := key k]" "Suc i"] by simp
  next
    case False
    then have "i = nat n" using Cons.prems(2) by simp
    moreover from this False have "get_vnodes_cb k (Some \<lparr>gv_values = values, gv_size = n, gv_cur = i\<rparr>) =
        Some \<lparr>gv_values = values, gv_size = n, gv_cur = i\<rparr>"
      by (simp add: get_vnodes_cb_def)
    ultimately show ?thesis
      using Cons.prems Cons.IH [of "values" i] by simp
  qed
qed

lemma get_vnodes_ring:
  assumes "ring_rep C r" "nat n \<le> length values"
  shows "conhash_get_vnodes C values n =
     Some (take (nat n) (map fst r) @ drop (min (nat n) (length r)) values)"
proof (cases "n \<le> 0")
  case True
  then show ?thesis by (simp add: conhash_get_vnodes_def)
next
  case False
  from assms(1) obtain xs where xs: "store_rep (vnode_tree C) xs" "r = map (point_of C) xs"
    by (auto simp: ring_rep_def)
  from xs(1) obtain q where rep: "tree_rep (vnode_tree C) xs q" by (auto simp: store_rep_def)
  have "map (\<lambda>e. key (the (mem (vnode_tree C) (adr e)))) xs = map ekey xs"
    using tree_rep_elem [OF rep] by (intro map_cong) force+
  moreover have "fold (\<lambda>e. get_vnodes_cb (f e)) xs s = fold get_vnodes_cb (map f xs) s" for s and f :: "elem \<Rightarrow> rbnode"
    by (simp add: fold_map comp_def)
  ultimately show ?thesis
    using False get_vnodes_fold [of n "values" 0] assms(2) xs(2)
    by (simp add: conhash_get_vnodes_def mid_travel_contract [OF rep] comp_def del: map_eq_conv)
qed


subsection \<open>A concrete ring\<close>

text \<open>Hashing by the sum of the bytes; two servers A and K with two replicas each.\<close>

definition byte_sum :: "cstring \<Rightarrow> int" where
  "byte_sum s = sum_list (map uint s)"

definition server :: "u8 \<Rightarrow> node_s" where
  "server c = conhash_set_node \<lparr>iden = replicate 64 0, replicas = 0, flag = 0\<rparr> [c] 2"

definition world :: conhash_s where
  "world = \<lparr>vnode_tree = \<lparr>root = 0, null = 0, rsize = 0, mem = Map.empty\<rparr>, ivnodes = 0, cb_hashfunc = byte_sum,
     vnodes = Map.empty, nodes = [100 \<mapsto> server 65, 101 \<mapsto> server 75], mallocs = [1..<12], raw = fresh_node 0\<rparr>"

definition ring1 :: conhash_s where
  "ring1 = snd (the (conhash_init blank (Some byte_sum) world))"

definition ring2 :: conhash_s where
  "ring2 = snd (the (conhash_add_node ring1 100))"

lemma server_facts: "0 \<in> set (iden (server c))" "flag (server c) = 1" "replicas (server c) = 2"
  "replica_indices (server c) = [0, 1]"
  by (simp_all add: server_def conhash_set_node_def replica_indices_def upt_rec)

lemma ring1_facts: "ring_ready ring1 [] \<and> mallocs_ok ring1 \<and> nodes ring1 = nodes world \<and>
    mallocs ring1 = [2..<12] \<and> cb_hashfunc ring1 = byte_sum"
proof -
  have "wp (conhash_init blank (Some byte_sum) world) (\<lambda>(p, C'). p = 1 \<and> ring_ready C' [] \<and> mallocs_ok C' \<and>
     nodes C' = nodes world \<and> vnodes C' = vnodes world \<and> mallocs C' = [2..<12] \<and>
     cb_hashfunc C' = (case Some byte_sum of Some f \<Rightarrow> f | None \<Rightarrow> \<lambda>s. the (conhash_hash_def blank s)) \<and>
     dom (mem (vnode_tree C')) = insert 1 (dom (mem (vnode_tree world))))"
    by (rule init_ring) (simp_all add: world_def mallocs_ok_def upt_rec)
  then show ?thesis by (auto simp: ring1_def elim!: wpE)
qed

lemma replica_hash_demo: "cb_hashfunc C = byte_sum \<Longrightarrow> replica_hash C (server 65) i = replica_hash world (server 65) i"
  by (simp add: replica_hash_def world_def)

lemma replica_hash_flag: "replica_hash C (n\<lparr>flag := f\<rparr>) i = replica_hash C n i"
  by (simp add: replica_hash_def conhash_node2string_def)

lemma replica_hash_world: "replica_hash world (server 65) 0 = 254 \<and> replica_hash world (server 65) 1 = 255"
  by code_simp

lemma ring1_add: "ring_add ring1 (server 65) 100 [] = [(254, 100), (255, 100)]"
  using ring1_facts
  by (simp add: ring_add_def server_facts replica_hash_demo replica_hash_world) (simp add: ring_insert_def)

lemma ring2_facts: "ring_ready ring2 [(254, 100), (255, 100)] \<and> mallocs_ok ring2 \<and>
    nodes ring2 = (nodes world)(100 \<mapsto> (server 65)\<lparr>flag := 3\<rparr>) \<and> cb_hashfunc ring2 = byte_sum"
proof -
  have "enough 2 ring1" using ring1_facts by (simp add: enough_def)
  with add_node_ring [of ring1 "[]" 100 "server 65"] ring1_facts ring1_add server_facts show ?thesis
    by (auto simp: ring2_def world_def elim!: wpE)
qed

subsection \<open>Properties\<close>

text \<open>\<open>conhash_init\<close>, when its allocation succeeds, returns the new block with an empty ring that is
  ready for insertions and the given hash function, or the MD5 default for \<open>NULL\<close>.\<close>

theorem init_correct:
  assumes "mallocs C = a # ms" "a \<noteq> NULL" "mem (vnode_tree C) NULL = None" "mallocs_ok C"
  shows "wp (conhash_init g pf C) (\<lambda>(p, C'). p = a \<and> ring_ready C' [] \<and> mallocs_ok C' \<and>
     nodes C' = nodes C \<and> vnodes C' = vnodes C \<and> mallocs C' = ms \<and>
     cb_hashfunc C' = (case pf of Some f \<Rightarrow> f | None \<Rightarrow> \<lambda>s. the (conhash_hash_def g s)) \<and>
     dom (mem (vnode_tree C')) = insert a (dom (mem (vnode_tree C))))"
  by (rule init_ring [OF assms])

lemma init_correct_witness:
  "wp (conhash_init blank (Some byte_sum) world) (\<lambda>(p, C'). p = 1 \<and> ring_ready C' [] \<and> cb_hashfunc C' = byte_sum)"
  using init_correct [of world 1 "[2..<12]" blank "Some byte_sum"]
  by (auto simp: world_def mallocs_ok_def upt_rec elim!: wp_mono)

text \<open>C5. \<open>conhash_add_node\<close> of a server that is set up and not in the ring returns 0 without a fault
  and marks it as in the ring. No point of another server is lost, every new point is at the hash of
  a replica of this server, and when the allocations succeed the ring is exactly the insertion of
  all its replicas at free hashes.\<close>

theorem add_node_correct:
  assumes "ring_ready C r" "mallocs_ok C" "p \<noteq> NULL" "nodes C p = Some n" "0 \<in> set (iden n)"
    and "flag n AND NODE_FLAG_INIT \<noteq> 0" "flag n AND NODE_FLAG_IN = 0"
  shows "wp (conhash_add_node C p) (\<lambda>(rc, C'). rc = 0 \<and>
     (\<exists>r'. ring_ready C' r' \<and> grows (points C n p) r r' \<and> length r' \<le> length r + unat (replicas n) \<and>
        (enough (unat (replicas n)) C \<longrightarrow> r' = ring_add C n p r)) \<and>
     nodes C' = (nodes C)(p \<mapsto> n\<lparr>flag := flag n OR NODE_FLAG_IN\<rparr>) \<and> mallocs_ok C' \<and>
     cb_hashfunc C' = cb_hashfunc C)"
  by (rule add_node_ring [OF assms])

lemma add_node_correct_witness:
  "wp (conhash_add_node ring1 100) (\<lambda>(rc, C'). rc = 0 \<and> ring_ready C' [(254, 100), (255, 100)])"
proof -
  have "enough 2 ring1" using ring1_facts by (simp add: enough_def)
  with add_node_correct [of ring1 "[]" 100 "server 65"] ring1_facts ring1_add server_facts show ?thesis
    by (auto simp: world_def elim!: wp_mono)
qed

text \<open>C6. \<open>conhash_del_node\<close> of a server that is in the ring returns 0 without a fault, clears its mark and
  removes exactly this server's replicas: a point of another server at the same hash stays.\<close>

theorem del_node_correct:
  assumes "ring_st C r" "mallocs_ok C" "p \<noteq> NULL" "nodes C p = Some n" "0 \<in> set (iden n)"
    and "flag n AND NODE_FLAG_INIT \<noteq> 0" "flag n AND NODE_FLAG_IN \<noteq> 0"
  shows "wp (conhash_del_node C p) (\<lambda>(rc, C'). rc = 0 \<and> ring_st C' (ring_del C n p r) \<and>
     nodes C' = (nodes C)(p \<mapsto> n\<lparr>flag := flag n AND NOT NODE_FLAG_IN\<rparr>) \<and> mallocs_ok C' \<and>
     cb_hashfunc C' = cb_hashfunc C)"
  by (rule del_node_ring [OF assms])

lemma del_node_correct_witness:
  "wp (conhash_del_node ring2 100) (\<lambda>(rc, C'). rc = 0 \<and> ring_st C' [] \<and> map_option flag (nodes C' 100) = Some 1)"
proof -
  have "ring_del ring2 ((server 65)\<lparr>flag := 3\<rparr>) 100 [(254, 100), (255, 100)] = []"
    using ring2_facts
    by (simp add: ring_del_def server_facts replica_hash_flag replica_hash_demo replica_hash_world ring_delete_def)
  with del_node_correct [of ring2 "[(254, 100), (255, 100)]" 100 "(server 65)\<lparr>flag := 3\<rparr>"]
    ring2_facts ring_ready_st server_facts show ?thesis
    by (auto elim!: wp_mono)
qed

text \<open>C7. \<open>conhash_lookup\<close> returns, without a fault, the server of the first point at or after the object's
  hash, of the first point of the ring when there is none, and \<open>NULL\<close> for an empty ring.\<close>

theorem lookup_correct:
  assumes "ring_rep C r" "length r < 2 ^ 32"
  shows "conhash_lookup C (Some s) = Some (case dropWhile (\<lambda>x. fst x < cb_hashfunc C s) r @ r of
     [] \<Rightarrow> NULL | x # _ \<Rightarrow> snd x)"
proof -
  have "ring_lookup h r = (case dropWhile (\<lambda>x. fst x < h) r @ r of [] \<Rightarrow> NULL | x # _ \<Rightarrow> snd x)" for h
    by (cases "dropWhile (\<lambda>x. fst x < h) r @ r") (auto simp: ring_lookup_def ring_succ_def)
  then show ?thesis using lookup_ring [OF assms] by simp
qed

lemma lookup_correct_witness:
  "conhash_lookup ring2 (Some [255]) = Some 100 \<and> conhash_lookup ring1 (Some [255]) = Some NULL"
  using lookup_correct [OF ring_ready_rep, of ring2 "[(254, 100), (255, 100)]" "[255]"]
    lookup_correct [OF ring_ready_rep, of ring1 "[]" "[255]"] ring1_facts ring2_facts
  by (simp add: byte_sum_def)

text \<open>C3. Consistency: adding a server moves an object only to the new server; every other object keeps
  the server it had, also when allocations fail half-way.\<close>

theorem add_node_consistent:
  assumes "ring_ready C r" "mallocs_ok C" "p \<noteq> NULL" "nodes C p = Some n" "0 \<in> set (iden n)"
    and "flag n AND NODE_FLAG_INIT \<noteq> 0" "flag n AND NODE_FLAG_IN = 0"
    and "length r + unat (replicas n) < 2 ^ 32"
  shows "wp (conhash_add_node C p) (\<lambda>(rc, C'). \<forall>s.
     conhash_lookup C' (Some s) = conhash_lookup C (Some s) \<or> conhash_lookup C' (Some s) = Some p)"
proof (rule wp_mono [OF add_node_ring [OF assms(1-7)]], clarify)
  fix C' r' s
  assume run: "conhash_add_node C p = Some (0, C')" and r': "ring_ready C' r'" "grows (points C n p) r r'"
    "length r' \<le> length r + unat (replicas n)"
    and cb: "cb_hashfunc C' = cb_hashfunc C" and ne: "conhash_lookup C' (Some s) \<noteq> Some p"
  have wf: "ring_wf r" "ring_wf r'" using assms(1) r'(1) ring_rep_wf ring_ready_rep by blast+
  have "ring_lookup h r' = ring_lookup h r \<or> ring_lookup h r' = p" for h
    by (rule ring_lookup_grows [OF wf r'(2)]) (auto simp: points_def)
  moreover have "conhash_lookup C (Some s) = Some (ring_lookup (cb_hashfunc C s) r)"
    using lookup_ring [OF ring_ready_rep [OF assms(1)]] assms(8) by simp
  moreover have "conhash_lookup C' (Some s) = Some (ring_lookup (cb_hashfunc C s) r')"
    using lookup_ring [OF ring_ready_rep [OF r'(1)]] r'(3) assms(8) cb by simp
  ultimately show "conhash_lookup C' (Some s) = conhash_lookup C (Some s)"
    using ne by metis
qed

lemma add_node_consistent_witness:
  "wp (conhash_add_node ring2 101) (\<lambda>(rc, C'). \<forall>s.
     conhash_lookup C' (Some s) = conhash_lookup ring2 (Some s) \<or> conhash_lookup C' (Some s) = Some 101)"
  using add_node_consistent [of ring2 "[(254, 100), (255, 100)]" 101 "server 75"] ring2_facts server_facts
  by (simp add: world_def)

text \<open>C4. Consistency: deleting a server moves only the objects that were on it.\<close>

theorem del_node_consistent:
  assumes "ring_st C r" "mallocs_ok C" "p \<noteq> NULL" "nodes C p = Some n" "0 \<in> set (iden n)"
    and "flag n AND NODE_FLAG_INIT \<noteq> 0" "flag n AND NODE_FLAG_IN \<noteq> 0"
    and "length r < 2 ^ 32"
  shows "wp (conhash_del_node C p) (\<lambda>(rc, C'). \<forall>s.
     conhash_lookup C (Some s) = Some p \<or> conhash_lookup C' (Some s) = conhash_lookup C (Some s))"
proof (rule wp_mono [OF del_node_ring [OF assms(1-7)]], clarify)
  fix C' s
  assume r': "ring_st C' (ring_del C n p r)" and cb: "cb_hashfunc C' = cb_hashfunc C"
    and ne: "conhash_lookup C' (Some s) \<noteq> conhash_lookup C (Some s)"
  have wf: "ring_wf (ring_del C n p r)" "ring_wf r"
    using assms(1) r' ring_rep_wf ring_st_rep by blast+
  have "grows (points C n p) (ring_del C n p r) r" by (auto simp: grows_def set_ring_del)
  then have "ring_lookup h r = ring_lookup h (ring_del C n p r) \<or> ring_lookup h r = p" for h
    by (rule ring_lookup_grows [OF wf]) (auto simp: points_def)
  moreover have "conhash_lookup C (Some s) = Some (ring_lookup (cb_hashfunc C s) r)"
    using lookup_ring [OF ring_st_rep [OF assms(1)]] assms(8) by simp
  moreover have "conhash_lookup C' (Some s) = Some (ring_lookup (cb_hashfunc C s) (ring_del C n p r))"
    using lookup_ring [OF ring_st_rep [OF r']] length_ring_del [of C n p r] assms(8) cb by simp
  ultimately show "conhash_lookup C (Some s) = Some p"
    using ne by metis
qed

lemma del_node_consistent_witness:
  "wp (conhash_del_node ring2 100) (\<lambda>(rc, C'). \<forall>s.
     conhash_lookup ring2 (Some s) = Some 100 \<or> conhash_lookup C' (Some s) = conhash_lookup ring2 (Some s))"
  using del_node_consistent [of ring2 "[(254, 100), (255, 100)]" 100 "(server 65)\<lparr>flag := 3\<rparr>"]
    ring2_facts ring_ready_st server_facts
  by simp

text \<open>C8. Adding a server that has no point in the ring and deleting it again returns 0 twice and restores
  the ring, also when allocations failed.\<close>

theorem add_del_roundtrip:
  assumes "ring_ready C r" "mallocs_ok C" "p \<noteq> NULL" "nodes C p = Some n" "0 \<in> set (iden n)"
    and "flag n AND NODE_FLAG_INIT \<noteq> 0" "flag n AND NODE_FLAG_IN = 0"
    and "\<forall>x \<in> set r. snd x \<noteq> p"
  shows "wp (do { (rc, C) \<leftarrow> conhash_add_node C p; conhash_del_node C p })
     (\<lambda>(rc, C'). rc = 0 \<and> ring_st C' r)"
proof -
  let ?n = "n\<lparr>flag := flag n OR NODE_FLAG_IN\<rparr>"
  from add_node_ring [OF assms(1-7)] obtain C1 r1 where 1: "conhash_add_node C p = Some (0, C1)"
    "ring_ready C1 r1" "grows (points C n p) r r1" "nodes C1 = (nodes C)(p \<mapsto> ?n)" "mallocs_ok C1"
    "cb_hashfunc C1 = cb_hashfunc C"
    by (auto elim!: wpE)
  have pts: "points C1 ?n p = points C n p"
    using 1(6) by (simp add: points_def replica_hash_def conhash_node2string_def)
  have fl: "flag ?n AND NODE_FLAG_INIT \<noteq> 0" "flag ?n AND NODE_FLAG_IN \<noteq> 0"
    using assms(6) by (simp_all add: word_ao_dist)
  have "wp (conhash_del_node C1 p) (\<lambda>(rc, C'). rc = 0 \<and> ring_st C' (ring_del C1 ?n p r1))"
    by (rule wp_mono [OF del_node_ring [of C1 r1 p ?n]])
      (use 1 fl assms(3,5) ring_ready_st in auto)
  moreover have "ring_del C1 ?n p r1 = r"
  proof (rule ring_wf_eq)
    show "ring_wf (ring_del C1 ?n p r1)" "ring_wf r"
      using ring_del_wf ring_rep_wf ring_ready_rep 1(2) assms(1) by blast+
    have "set r \<inter> points C n p = {}" using assms(8) by (auto simp: points_def)
    then show "set (ring_del C1 ?n p r1) = set r"
      using 1(3) by (auto simp: set_ring_del pts grows_def)
  qed
  ultimately show ?thesis using 1(1) by simp
qed

lemma add_del_roundtrip_witness:
  "wp (do { (rc, C) \<leftarrow> conhash_add_node ring2 101; conhash_del_node C 101 })
     (\<lambda>(rc, C'). rc = 0 \<and> ring_st C' [(254, 100), (255, 100)])"
  using add_del_roundtrip [of ring2 "[(254, 100), (255, 100)]" 101 "server 75"] ring2_facts server_facts
  by (simp add: world_def)

text \<open>C9. \<open>conhash_fini\<close> returns and frees every cell of the tree, every virtual node in the ring and the
  sentinel, each once, and no other block.\<close>

theorem fini_correct:
  assumes "store_rep (vnode_tree C) xs" "hash_inv C xs"
  shows "wp (conhash_fini C) (\<lambda>C'.
     dom (mem (vnode_tree C')) = dom (mem (vnode_tree C)) - insert (null (vnode_tree C)) (adr ` set xs) \<and>
     dom (vnodes C') = dom (vnodes C) - edata ` set xs)"
  by (rule fini_frees [OF assms])

lemma fini_correct_witness:
  "\<exists>xs. map ekey xs = [254, 255] \<and> wp (conhash_fini ring2) (\<lambda>C'.
     dom (mem (vnode_tree C')) = dom (mem (vnode_tree ring2)) - insert (null (vnode_tree ring2)) (adr ` set xs) \<and>
     dom (vnodes C') = dom (vnodes ring2) - edata ` set xs)"
proof -
  from ring2_facts obtain xs where xs: "store_rep (vnode_tree ring2) xs" "hash_inv ring2 xs"
    "map fst (map (point_of ring2) xs) = [254, 255]"
    using store.ready_rep unfolding ring_ready_def by (metis fst_conv list.simps(8,9))
  from xs(3) have "map ekey xs = [254, 255]" unfolding map_fst_points .
  then show ?thesis by (intro exI [of _ xs] conjI fini_correct [OF xs(1,2)])
qed

text \<open>\<open>conhash_get_vnodes\<close> writes the hashes of the ring in increasing order into the caller's
  array, as many as the given size allows, and leaves the rest of the array; it never writes past a
  size that fits the array.\<close>

theorem get_vnodes_correct:
  assumes "ring_rep C r" "nat n \<le> length values"
  shows "conhash_get_vnodes C values n =
     Some (take (nat n) (map fst r) @ drop (min (nat n) (length r)) values)"
  by (rule get_vnodes_ring [OF assms])

lemma get_vnodes_correct_witness:
  "conhash_get_vnodes ring2 [7, 7, 7] 3 = Some [254, 255, 7] \<and> conhash_get_vnodes ring2 [7] 1 = Some [254]"
  using get_vnodes_correct [OF ring_ready_rep, of ring2 "[(254, 100), (255, 100)]" 3 "[7, 7, 7]"]
    get_vnodes_correct [OF ring_ready_rep, of ring2 "[(254, 100), (255, 100)]" 1 "[7]"] ring2_facts
  by simp

end
