(* ===== verification/Context_Pool.thy ===== *)
theory Context_Pool
  imports Prelude
begin

text \<open>
  \<open>src/mult_process_server/context.c\<close>: the pool of connection contexts, an array whose free
  slots form a list linked by index. A context is known by its index; the contents of a new
  array are whatever \<open>malloc\<close> returned. A failed \<open>assert\<close> is \<open>None\<close>.

  The interface \<open>slot_pool\<close> is what the event handlers rely on: a slot handed out was not in
  use, a slot given back can be handed out again, and no other slot changes hands.
\<close>

subsection \<open>Data\<close>

datatype handler = Process_accept | Process_read | Process_write |
  Process_read_frontend | Process_write_backend | Process_read_backend | Process_write_frontend

record proxy_addr =
  param_port :: int
  proxyip :: u32
  param_ip :: "u8 list"

record conn_context =
  fd :: int
  fd_added :: int
  end_fd :: int
  end_fd_added :: int
  flags :: u32
  ep_fd :: int
  cpu_id :: int
  handler :: handler
  events :: u32
  data_len :: int
  next_idx :: int
  buf :: "u8 list"
  pa_num :: int
  pa :: "proxy_addr list"
  enable_proxy :: int

record context_pool =
  total :: int
  allocated :: int
  pool_next :: int
  arr :: "conn_context list"

subsection \<open>Operations\<close>

definition init_pool :: "int \<Rightarrow> conn_context list \<Rightarrow> context_pool option" where
  "init_pool n garbage =
     (if n \<le> 0 \<or> length garbage \<noteq> nat n then None
      else Some \<lparr>total = n, allocated = 0, pool_next = 0,
        arr = map (\<lambda>i. (garbage ! i)\<lparr>next_idx := (if int i < n - 1 then int i + 1 else -1)\<rparr>) [0..<nat n]\<rparr>)"

definition alloc_context :: "context_pool \<Rightarrow> (nat \<times> context_pool) option" where
  "alloc_context pool =
     (if \<not> allocated pool < total pool then None
      else if pool_next pool < 0 \<or> nat (pool_next pool) \<ge> length (arr pool) then None
      else let i = nat (pool_next pool); c = arr pool ! i in
        Some (i, pool\<lparr>allocated := allocated pool + 1, pool_next := next_idx c,
          arr := (arr pool)[i := c\<lparr>fd := 0, fd_added := 0, end_fd := 0, end_fd_added := 0, next_idx := -1\<rparr>]\<rparr>))"

definition free_context :: "context_pool \<Rightarrow> nat \<Rightarrow> context_pool option" where
  "free_context pool i =
     (if \<not> allocated pool > 0 \<or> i \<ge> length (arr pool) then None
      else Some (pool\<lparr>allocated := allocated pool - 1,
        arr := (arr pool)[i := (arr pool ! i)\<lparr>next_idx := pool_next pool\<rparr>],
        pool_next := int i\<rparr>))"

subsection \<open>The interface\<close>

locale slot_pool =
  fixes live :: "'p \<Rightarrow> nat set"
    and ok :: "'p \<Rightarrow> bool"
    and room :: "'p \<Rightarrow> nat"
    and alloc :: "'p \<Rightarrow> (nat \<times> 'p) option"
    and release :: "'p \<Rightarrow> nat \<Rightarrow> 'p option"
  assumes alloc_law: "ok p \<Longrightarrow> 0 < room p \<Longrightarrow>
      wp (alloc p) (\<lambda>(i, p'). ok p' \<and> i \<notin> live p \<and> live p' = insert i (live p) \<and> room p = Suc (room p'))"
    and full_law: "ok p \<Longrightarrow> room p = 0 \<Longrightarrow> alloc p = None"
    and release_law: "ok p \<Longrightarrow> i \<in> live p \<Longrightarrow>
      wp (release p i) (\<lambda>p'. ok p' \<and> live p' = live p - {i} \<and> room p' = Suc (room p))"
    and reuse_law: "ok p \<Longrightarrow> i \<in> live p \<Longrightarrow> release p i = Some p' \<Longrightarrow> wp (alloc p') (\<lambda>(j, q). j = i)"
begin

text \<open>Slots are handed out until the room is used up, all different.\<close>

fun alloc_many :: "nat \<Rightarrow> 'p \<Rightarrow> (nat list \<times> 'p) option" where
  "alloc_many 0 p = Some ([], p)"
| "alloc_many (Suc n) p = do { (i, p) \<leftarrow> alloc p; (is, p) \<leftarrow> alloc_many n p; Some (i # is, p) }"

lemma alloc_many:
  "ok p \<Longrightarrow> n \<le> room p \<Longrightarrow> wp (alloc_many n p) (\<lambda>(is, p'). ok p' \<and> length is = n \<and> distinct is \<and>
     set is \<inter> live p = {} \<and> live p' = set is \<union> live p \<and> room p' + n = room p)"
proof (induction n arbitrary: p)
  case (Suc n)
  then obtain i p1 where 1: "alloc p = Some (i, p1)" "ok p1" "i \<notin> live p" "live p1 = insert i (live p)" "room p = Suc (room p1)"
    using alloc_law [of p] by (auto elim!: wpE)
  with Suc.prems Suc.IH [of p1] show ?case by (auto elim!: wpE)
qed simp

lemma release_alloc:
  assumes "ok p" "i \<in> live p"
  shows "wp (do { p \<leftarrow> release p i; alloc p }) (\<lambda>(j, q). j = i \<and> ok q \<and> live q = live p \<and> room q = room p)"
proof -
  obtain p1 where 1: "release p i = Some p1" "ok p1" "live p1 = live p - {i}" "room p1 = Suc (room p)"
    using release_law [OF assms] by (auto elim!: wpE)
  with alloc_law [OF 1(2)] reuse_law [OF assms 1(1)] assms(2) show ?thesis by (auto elim!: wpE)
qed

end

subsection \<open>The free list\<close>

text \<open>\<open>chain cs k is\<close>: following \<open>next_idx\<close> from \<open>k\<close> visits \<open>is\<close> and ends in -1.\<close>

fun chain :: "conn_context list \<Rightarrow> int \<Rightarrow> nat list \<Rightarrow> bool" where
  "chain cs k [] \<longleftrightarrow> k = -1"
| "chain cs k (i # is) \<longleftrightarrow> k = int i \<and> i < length cs \<and> chain cs (next_idx (cs ! i)) is"

definition free_rep :: "context_pool \<Rightarrow> nat list \<Rightarrow> bool" where
  "free_rep p is \<longleftrightarrow> chain (arr p) (pool_next p) is \<and> distinct is \<and>
     total p = int (length (arr p)) \<and> allocated p + int (length is) = total p"

lemma chain_unique: "chain cs k is \<Longrightarrow> chain cs k js \<Longrightarrow> is = js"
  by (induction cs k "is" arbitrary: js rule: chain.induct) (case_tac js; auto)+

lemma chain_upd: "i \<notin> set is \<Longrightarrow> chain (cs[i := c]) k is = chain cs k is"
  by (induction cs k "is" rule: chain.induct) auto

lemma chain_bound: "chain cs k is \<Longrightarrow> i \<in> set is \<Longrightarrow> i < length cs"
  by (induction cs k "is" rule: chain.induct) auto

definition pool_ok :: "context_pool \<Rightarrow> bool" where
  "pool_ok p \<longleftrightarrow> (\<exists>is. free_rep p is)"

definition free_list :: "context_pool \<Rightarrow> nat list" where
  "free_list p = (THE is. chain (arr p) (pool_next p) is)"

definition live :: "context_pool \<Rightarrow> nat set" where
  "live p = {..<length (arr p)} - set (free_list p)"

definition room :: "context_pool \<Rightarrow> nat" where
  "room p = nat (total p - allocated p)"

lemma free_list: "chain (arr p) (pool_next p) is \<Longrightarrow> free_list p = is"
  unfolding free_list_def by (rule the_equality) (auto dest: chain_unique)

lemma free_rep_live: "free_rep p is \<Longrightarrow> live p = {..<length (arr p)} - set is" "free_rep p is \<Longrightarrow> room p = length is"
  by (auto simp: live_def room_def free_rep_def free_list)

lemma pool_okI: "free_rep p is \<Longrightarrow> pool_ok p"
  by (auto simp: pool_ok_def)

lemma chain_init:
  assumes "length cs = n" "\<forall>i < n. next_idx (cs ! i) = (if Suc i < n then int (Suc i) else -1)"
  shows "chain cs (if k < n then int k else -1) [k..<n]"
proof (induction "n - k" arbitrary: k)
  case (Suc m)
  then have k: "k < n" by simp
  with Suc have "chain cs (if Suc k < n then int (Suc k) else -1) [Suc k..<n]" by simp
  with k assms show ?case by (simp add: upt_rec [of k n])
qed simp

lemma init_pool_ok:
  assumes "0 < n" "length garbage = nat n"
  shows "wp (init_pool n garbage) (\<lambda>p. pool_ok p \<and> live p = {} \<and> room p = nat n)"
proof -
  let ?p = "\<lparr>total = n, allocated = 0, pool_next = 0,
        arr = map (\<lambda>i. (garbage ! i)\<lparr>next_idx := (if int i < n - 1 then int i + 1 else -1)\<rparr>) [0..<nat n]\<rparr>"
  have "chain (arr ?p) (if 0 < nat n then int 0 else -1) [0..<nat n]"
  proof (rule chain_init)
    have "Suc i < nat n \<longleftrightarrow> int i < n - 1" for i by linarith
    then show "\<forall>i < nat n. next_idx (arr ?p ! i) = (if Suc i < nat n then int (Suc i) else -1)" by simp
  qed simp
  moreover have "(if 0 < nat n then int 0 else -1) = pool_next ?p" using assms(1) by simp
  ultimately have "chain (arr ?p) (pool_next ?p) [0..<nat n]" by (simp only:)
  moreover have "distinct [0..<nat n]" "total ?p = int (length (arr ?p))"
    "allocated ?p + int (length [0..<nat n]) = total ?p" using assms(1) by simp_all
  ultimately have r: "free_rep ?p [0..<nat n]" unfolding free_rep_def by (intro conjI)
  have "live ?p = {}" unfolding free_rep_live(1) [OF r] by auto
  moreover have "room ?p = nat n" unfolding free_rep_live(2) [OF r] by simp
  ultimately have "pool_ok ?p \<and> live ?p = {} \<and> room ?p = nat n" using pool_okI [OF r] by blast
  then show ?thesis using assms by (simp add: init_pool_def)
qed

lemma alloc_free_rep:
  assumes "free_rep p (i # is)"
  shows "alloc_context p = Some (i, p\<lparr>allocated := allocated p + 1, pool_next := next_idx (arr p ! i),
      arr := (arr p)[i := (arr p ! i)\<lparr>fd := 0, fd_added := 0, end_fd := 0, end_fd_added := 0, next_idx := -1\<rparr>]\<rparr>)"
    and "free_rep (p\<lparr>allocated := allocated p + 1, pool_next := next_idx (arr p ! i), arr := (arr p)[i := c]\<rparr>) is"
  using assms by (auto simp: alloc_context_def free_rep_def chain_upd Let_def)

lemma free_free_rep:
  assumes "free_rep p is" "i \<in> live p"
  shows "free_context p i = Some (p\<lparr>allocated := allocated p - 1,
      arr := (arr p)[i := (arr p ! i)\<lparr>next_idx := pool_next p\<rparr>], pool_next := int i\<rparr>)"
    and "free_rep (p\<lparr>allocated := allocated p - 1,
      arr := (arr p)[i := (arr p ! i)\<lparr>next_idx := pool_next p\<rparr>], pool_next := int i\<rparr>) (i # is)"
proof -
  from assms have i: "i < length (arr p)" "i \<notin> set is" by (auto simp: free_rep_live)
  have "set (i # is) \<subseteq> {..<length (arr p)}" using i assms(1) chain_bound by (auto simp: free_rep_def)
  then have "length (i # is) \<le> length (arr p)"
    using assms(1) i(2) card_mono [of "{..<length (arr p)}" "set (i # is)"] distinct_card [of "i # is"]
    by (simp add: free_rep_def)
  with assms(1) have "0 < allocated p" by (simp add: free_rep_def)
  with i assms(1) show "free_context p i = Some (p\<lparr>allocated := allocated p - 1,
      arr := (arr p)[i := (arr p ! i)\<lparr>next_idx := pool_next p\<rparr>], pool_next := int i\<rparr>)"
    "free_rep (p\<lparr>allocated := allocated p - 1,
      arr := (arr p)[i := (arr p ! i)\<lparr>next_idx := pool_next p\<rparr>], pool_next := int i\<rparr>) (i # is)"
    by (auto simp: free_context_def free_rep_def chain_upd)
qed

interpretation pool: slot_pool live pool_ok room alloc_context free_context
proof unfold_locales
  fix p assume "pool_ok p" "0 < room p"
  then obtain i "is" where r: "free_rep p (i # is)"
    unfolding pool_ok_def by (metis free_rep_live(2) length_0_conv less_numeral_extra(3) list.exhaust)
  have i: "i < length (arr p)" "i \<notin> set is" using r by (auto simp: free_rep_def)
  from alloc_free_rep(1) [OF r] free_rep_live [OF r] free_rep_live [OF alloc_free_rep(2) [OF r]] pool_okI [OF alloc_free_rep(2) [OF r]] i
  show "wp (alloc_context p) (\<lambda>(i, p'). pool_ok p' \<and> i \<notin> live p \<and> live p' = insert i (live p) \<and> room p = Suc (room p'))"
    by auto
next
  fix p assume "pool_ok p" "room p = 0"
  then show "alloc_context p = None" by (auto simp: pool_ok_def room_def free_rep_def alloc_context_def)
next
  fix p i assume "pool_ok p" and l: "i \<in> live p"
  then obtain "is" where r: "free_rep p is" by (auto simp: pool_ok_def)
  from l free_rep_live [OF r] free_free_rep [OF r l] free_rep_live [OF free_free_rep(2) [OF r l]]
  show "wp (free_context p i) (\<lambda>p'. pool_ok p' \<and> live p' = live p - {i} \<and> room p' = Suc (room p))"
    by (auto intro: pool_okI)
next
  fix p i p' assume "pool_ok p" and l: "i \<in> live p" and f: "free_context p i = Some p'"
  then obtain "is" where r: "free_rep p is" by (auto simp: pool_ok_def)
  from alloc_free_rep(1) [OF free_free_rep(2) [OF r l]] free_free_rep(1) [OF r l] f
  show "wp (alloc_context p') (\<lambda>(j, q). j = i)" by simp
qed

end
