(* ===== verification/Conn_Server.thy ===== *)
theory Conn_Server
  imports Context_Pool
begin

text \<open>
  The event handlers of \<open>src/mult_process_server\<close>: \<open>conn_process.c\<close> (accept and close),
  \<open>web_server.c\<close> (read a request, write a fixed response) and \<open>proxy_server.c\<close> (forward a
  request to a backend and the answer to the client). A handler is called for the context an
  \<open>epoll\<close> event carries; the context's \<open>handler\<close> field says which one.

  The kernel is a parameter: \<open>os\<close> gives the reply to each system call from all calls and
  replies before it, so every behaviour of the kernel is some \<open>os\<close>. The worker keeps the
  calls it made in \<open>trace\<close>. Messages printed to the log are left out.
\<close>

unbundle bit_operations_syntax

subsection \<open>System calls\<close>

datatype syscall =
    Accept int
  | Getfl int
  | Setfl int u32
  | Read int nat
  | Write int "u8 list"
  | Socket
  | Setsockopt int
  | Connect int u32 u32
  | Epoll_add int int u32 nat
  | Epoll_mod int int u32 nat
  | Epoll_del int int nat
  | Close int
  | Bind int u32 u32
  | Listen int
  | Setrlimit
  | Setaffinity int
  | Epoll_create int

record reply =
  ret :: int
  errno :: int
  bytes :: "u8 list"

type_synonym trace = "(syscall \<times> reply) list"

type_synonym os = "trace \<Rightarrow> syscall \<Rightarrow> reply"

subsection \<open>State\<close>

record worker_data =
  process :: int
  trancnt :: u64
  trancnt_prev :: u64
  wcpu_id :: int
  polls_max :: u64
  polls_min :: u64
  polls_avg :: u64
  polls_cnt :: u64
  polls_sum :: u64
  polls_mpt :: u64
  polls_lst :: u64
  accept_cnt :: u64
  read_cnt :: u64
  write_cnt :: u64

text \<open>\<open>last_backend\<close> is the static variable of \<open>select_backend\<close>.\<close>

record worker =
  wpool :: context_pool
  wdata :: "worker_data list"
  last_backend :: nat
  trace :: trace

abbreviation (input) EPOLLIN :: u32 where "EPOLLIN \<equiv> 1"
abbreviation (input) EPOLLOUT :: u32 where "EPOLLOUT \<equiv> 4"
abbreviation (input) EPOLLERR :: u32 where "EPOLLERR \<equiv> 8"
abbreviation (input) EPOLLHUP :: u32 where "EPOLLHUP \<equiv> 16"
abbreviation (input) O_NONBLOCK :: u32 where "O_NONBLOCK \<equiv> 2048"
abbreviation (input) PROXY_BACKEND_EVENT :: u32 where "PROXY_BACKEND_EVENT \<equiv> 1"
abbreviation (input) MAX_BUFSIZE :: nat where "MAX_BUFSIZE \<equiv> 2048"
abbreviation (input) EINPROGRESS :: int where "EINPROGRESS \<equiv> 115"
abbreviation (input) EINTR :: int where "EINTR \<equiv> 4"

definition sys :: "os \<Rightarrow> syscall \<Rightarrow> worker \<Rightarrow> reply \<times> worker" where
  "sys os c w = (let r = os (trace w) c in (r, w\<lparr>trace := trace w @ [(c, r)]\<rparr>))"

text \<open>Contexts and worker statistics are read and written by index; outside the array is a fault.\<close>

definition ctx_get :: "worker \<Rightarrow> nat \<Rightarrow> conn_context option" where
  "ctx_get w c = (if c < length (arr (wpool w)) then Some (arr (wpool w) ! c) else None)"

definition ctx_upd :: "nat \<Rightarrow> (conn_context \<Rightarrow> conn_context) \<Rightarrow> worker \<Rightarrow> worker option" where
  "ctx_upd c f w = (let p = wpool w in
     if c < length (arr p) then Some (w\<lparr>wpool := p\<lparr>arr := (arr p)[c := f (arr p ! c)]\<rparr>\<rparr>) else None)"

definition wd_upd :: "int \<Rightarrow> (worker_data \<Rightarrow> worker_data) \<Rightarrow> worker \<Rightarrow> worker option" where
  "wd_upd i f w = (if 0 \<le> i \<and> nat i < length (wdata w)
     then Some (w\<lparr>wdata := (wdata w)[nat i := f (wdata w ! nat i)]\<rparr>) else None)"

subsection \<open>Closing and accepting\<close>

definition process_close :: "os \<Rightarrow> nat \<Rightarrow> worker \<Rightarrow> worker option" where
  "process_close os c w = do {
     x \<leftarrow> ctx_get w c;
     w \<leftarrow> Some (if fd_added x \<noteq> 0 then snd (sys os (Epoll_del (ep_fd x) (fd x) c) w) else w);
     w \<leftarrow> Some (snd (sys os (Close (fd x)) w));
     if end_fd x \<noteq> 0 then do {
       w \<leftarrow> Some (if end_fd_added x \<noteq> 0 then snd (sys os (Epoll_del (ep_fd x) (end_fd x) c) w) else w);
       Some (snd (sys os (Close (end_fd x)) w))
     } else Some w
   }"

text \<open>The label \<open>free_back\<close> of every handler.\<close>

definition free_back :: "os \<Rightarrow> nat \<Rightarrow> worker \<Rightarrow> worker option" where
  "free_back os c w = do {
     w \<leftarrow> process_close os c w;
     p \<leftarrow> free_context (wpool w) c;
     Some (w\<lparr>wpool := p\<rparr>)
   }"

definition copy_backends :: "conn_context \<Rightarrow> conn_context \<Rightarrow> conn_context option" where
  "copy_backends l x =
     (let n = nat (pa_num l) in
      if n \<le> length (pa l) \<and> n \<le> length (pa x)
      then Some (x\<lparr>pa_num := pa_num l, pa := take n (pa l) @ drop n (pa x)\<rparr>) else None)"

definition process_accept :: "os \<Rightarrow> nat \<Rightarrow> worker \<Rightarrow> worker option" where
  "process_accept os c w = do {
     l \<leftarrow> ctx_get w c;
     if events l AND (EPOLLHUP OR EPOLLERR) \<noteq> 0 then Some w
     else do {
       (r, w) \<leftarrow> Some (sys os (Accept (fd l)) w);
       if ret r < 0 then wd_upd (cpu_id l) (\<lambda>d. d\<lparr>accept_cnt := accept_cnt d + 1\<rparr>) w
       else do {
         (fl, w) \<leftarrow> Some (sys os (Getfl (ret r)) w);
         (_, w) \<leftarrow> Some (sys os (Setfl (ret r) (of_int (ret fl) OR O_NONBLOCK)) w);
         (k, p) \<leftarrow> alloc_context (wpool w);
         w \<leftarrow> ctx_upd k (\<lambda>x. x\<lparr>fd := ret r\<rparr>) (w\<lparr>wpool := p\<rparr>);
         l \<leftarrow> ctx_get w c;
         w \<leftarrow> (if enable_proxy l \<noteq> 0 then do {
                x \<leftarrow> ctx_get w k;
                x \<leftarrow> copy_backends l (x\<lparr>handler := Process_read_frontend, enable_proxy := enable_proxy l\<rparr>);
                ctx_upd k (\<lambda>_. x) w
              } else ctx_upd k (\<lambda>x. x\<lparr>handler := Process_read\<rparr>) w);
         w \<leftarrow> ctx_upd k (\<lambda>x. x\<lparr>cpu_id := cpu_id l, ep_fd := ep_fd l\<rparr>) w;
         x \<leftarrow> ctx_get w k;
         (r, w) \<leftarrow> Some (sys os (Epoll_add (ep_fd x) (fd x) (EPOLLIN OR EPOLLHUP OR EPOLLERR) k) w);
         if ret r < 0 then free_back os k w
         else ctx_upd k (\<lambda>x. x\<lparr>fd_added := 1\<rparr>) w
       }
     }
   }"

subsection \<open>Web server\<close>

definition crlf :: string where
  "crlf = [CHR 0x0D, CHR 0x0A]"

definition http_200 :: "u8 list" where
  "http_200 = map of_char (''HTTP/1.0 200 OK'' @ crlf @ ''Cache-Control: no-cache'' @ crlf @
     ''Connection: close'' @ crlf @ ''Content-Type: text/html'' @ crlf @ crlf @
     ''<html><body><h1>200 OK</h1>'' @ [CHR 0x0A] @ ''Everything is fine.'' @ [CHR 0x0A] @
     ''</body></html>'' @ [CHR 0x0A])"

definition process_write :: "os \<Rightarrow> nat \<Rightarrow> worker \<Rightarrow> worker option" where
  "process_write os c w = do {
     x \<leftarrow> ctx_get w c;
     if events x AND (EPOLLHUP OR EPOLLERR) \<noteq> 0 then free_back os c w
     else do {
       (r, w) \<leftarrow> Some (sys os (Write (fd x) http_200) w);
       if ret r < 0 then do {
         w \<leftarrow> wd_upd (cpu_id x) (\<lambda>d. d\<lparr>write_cnt := write_cnt d + 1\<rparr>) w;
         free_back os c w
       } else do {
         w \<leftarrow> wd_upd (cpu_id x) (\<lambda>d. d\<lparr>trancnt := trancnt d + 1\<rparr>) w;
         w \<leftarrow> ctx_upd c (\<lambda>x. x\<lparr>handler := Process_read\<rparr>) w;
         (r, w) \<leftarrow> Some (sys os (Epoll_mod (ep_fd x) (fd x) (EPOLLIN OR EPOLLHUP OR EPOLLERR) c) w);
         if ret r < 0 then free_back os c w else Some w
       }
     }
   }"

text \<open>\<open>read\<close> puts its bytes at the start of the context's buffer.\<close>

definition fill_buf :: "u8 list \<Rightarrow> u8 list \<Rightarrow> u8 list" where
  "fill_buf bs old = bs @ drop (length bs) old"

definition process_read :: "os \<Rightarrow> nat \<Rightarrow> worker \<Rightarrow> worker option" where
  "process_read os c w = do {
     x \<leftarrow> ctx_get w c;
     if events x AND EPOLLHUP \<noteq> 0 then free_back os c w
     else if events x AND EPOLLERR \<noteq> 0 then free_back os c w
     else do {
       (r, w) \<leftarrow> Some (sys os (Read (fd x) MAX_BUFSIZE) w);
       w \<leftarrow> ctx_upd c (\<lambda>x. x\<lparr>buf := fill_buf (bytes r) (buf x)\<rparr>) w;
       if ret r < 0 then do {
         w \<leftarrow> wd_upd (cpu_id x) (\<lambda>d. d\<lparr>read_cnt := read_cnt d + 1\<rparr>) w;
         free_back os c w
       } else if ret r = 0 then free_back os c w
       else do {
         w \<leftarrow> ctx_upd c (\<lambda>x. x\<lparr>data_len := ret r\<rparr>) w;
         w \<leftarrow> ctx_upd c (\<lambda>x. x\<lparr>handler := Process_write\<rparr>) w;
         (r, w) \<leftarrow> Some (sys os (Epoll_mod (ep_fd x) (fd x) (EPOLLOUT OR EPOLLHUP OR EPOLLERR) c) w);
         if ret r < 0 then free_back os c w else Some w
       }
     }
   }"

subsection \<open>Proxy server\<close>

text \<open>Round robin over the backends; the address is the IP and the port cut to 16 bits.\<close>

definition select_backend :: "conn_context \<Rightarrow> worker \<Rightarrow> ((u32 \<times> u32) \<times> worker) option" where
  "select_backend x w =
     (let i = last_backend w in
      if i < length (pa x) then
        Some ((proxyip (pa x ! i), of_int (param_port (pa x ! i)) AND 0xFFFF),
          w\<lparr>last_backend := (if int (i + 1) = pa_num x then 0 else i + 1)\<rparr>)
      else None)"

definition process_read_frontend :: "os \<Rightarrow> nat \<Rightarrow> worker \<Rightarrow> worker option" where
  "process_read_frontend os c w = do {
     x \<leftarrow> ctx_get w c;
     if events x AND (EPOLLHUP OR EPOLLERR) \<noteq> 0 then free_back os c w
     else do {
       (r, w) \<leftarrow> Some (sys os (Read (fd x) MAX_BUFSIZE) w);
       w \<leftarrow> ctx_upd c (\<lambda>x. x\<lparr>buf := fill_buf (bytes r) (buf x)\<rparr>) w;
       if ret r < 0 then do {
         w \<leftarrow> wd_upd (cpu_id x) (\<lambda>d. d\<lparr>read_cnt := read_cnt d + 1\<rparr>) w;
         free_back os c w
       } else do {
         w \<leftarrow> ctx_upd c (\<lambda>x. x\<lparr>data_len := ret r\<rparr>) w;
         (r, w) \<leftarrow> Some (sys os (Epoll_mod (ep_fd x) (fd x) (EPOLLHUP OR EPOLLERR) c) w);
         if ret r < 0 then free_back os c w
         else do {
           (r, w) \<leftarrow> Some (sys os Socket w);
           if ret r < 0 then free_back os c w
           else do {
             s \<leftarrow> Some (ret r);
             w \<leftarrow> ctx_upd c (\<lambda>x. x\<lparr>end_fd := s\<rparr>) w;
             (fl, w) \<leftarrow> Some (sys os (Getfl s) w);
             (_, w) \<leftarrow> Some (sys os (Setfl s (of_int (ret fl) OR O_NONBLOCK)) w);
             (r, w) \<leftarrow> Some (sys os (Setsockopt s) w);
             if ret r < 0 then free_back os c w
             else do {
               x \<leftarrow> ctx_get w c;
               ((ip, port), w) \<leftarrow> select_backend x w;
               (r, w) \<leftarrow> Some (sys os (Connect s ip port) w);
               if ret r < 0 \<and> errno r \<noteq> EINPROGRESS then free_back os c w
               else do {
                 w \<leftarrow> ctx_upd c (\<lambda>x. x\<lparr>handler := Process_write_backend\<rparr>) w;
                 w \<leftarrow> ctx_upd c (\<lambda>x. x\<lparr>flags := flags x OR PROXY_BACKEND_EVENT\<rparr>) w;
                 (r, w) \<leftarrow> Some (sys os (Epoll_add (ep_fd x) s (EPOLLOUT OR EPOLLHUP OR EPOLLERR) c) w);
                 if ret r < 0 then free_back os c w
                 else ctx_upd c (\<lambda>x. x\<lparr>end_fd_added := 1\<rparr>) w
               }
             }
           }
         }
       }
     }
   }"

definition process_write_backend :: "os \<Rightarrow> nat \<Rightarrow> worker \<Rightarrow> worker option" where
  "process_write_backend os c w = do {
     x \<leftarrow> ctx_get w c;
     if events x AND (EPOLLHUP OR EPOLLERR) \<noteq> 0 then free_back os c w
     else if flags x AND PROXY_BACKEND_EVENT = 0 then free_back os c w
     else do {
       (r, w) \<leftarrow> Some (sys os (Write (end_fd x) (take (nat (data_len x)) (buf x))) w);
       if ret r < 0 then free_back os c w
       else do {
         w \<leftarrow> ctx_upd c (\<lambda>x. x\<lparr>handler := Process_read_backend\<rparr>) w;
         w \<leftarrow> ctx_upd c (\<lambda>x. x\<lparr>flags := flags x OR PROXY_BACKEND_EVENT\<rparr>) w;
         (r, w) \<leftarrow> Some (sys os (Epoll_mod (ep_fd x) (end_fd x) (EPOLLIN OR EPOLLHUP OR EPOLLERR) c) w);
         if ret r < 0 then free_back os c w else Some w
       }
     }
   }"

definition process_read_backend :: "os \<Rightarrow> nat \<Rightarrow> worker \<Rightarrow> worker option" where
  "process_read_backend os c w = do {
     x \<leftarrow> ctx_get w c;
     if flags x AND PROXY_BACKEND_EVENT = 0 then free_back os c w
     else do {
       (r, w) \<leftarrow> Some (sys os (Read (end_fd x) MAX_BUFSIZE) w);
       w \<leftarrow> ctx_upd c (\<lambda>x. x\<lparr>buf := fill_buf (bytes r) (buf x)\<rparr>) w;
       if ret r < 0 then do {
         w \<leftarrow> wd_upd (cpu_id x) (\<lambda>d. d\<lparr>read_cnt := read_cnt d + 1\<rparr>) w;
         free_back os c w
       } else do {
         w \<leftarrow> ctx_upd c (\<lambda>x. x\<lparr>handler := Process_write_frontend\<rparr>) w;
         w \<leftarrow> ctx_upd c (\<lambda>x. x\<lparr>flags := flags x AND NOT PROXY_BACKEND_EVENT\<rparr>) w;
         w \<leftarrow> ctx_upd c (\<lambda>x. x\<lparr>data_len := ret r\<rparr>) w;
         (r, w) \<leftarrow> Some (sys os (Epoll_mod (ep_fd x) (fd x) (EPOLLOUT OR EPOLLHUP OR EPOLLERR) c) w);
         if ret r < 0 then free_back os c w
         else do {
           (r, w) \<leftarrow> Some (sys os (Epoll_mod (ep_fd x) (end_fd x) (EPOLLHUP OR EPOLLERR) c) w);
           if ret r < 0 then free_back os c w else Some w
         }
       }
     }
   }"

definition process_write_frontend :: "os \<Rightarrow> nat \<Rightarrow> worker \<Rightarrow> worker option" where
  "process_write_frontend os c w = do {
     x \<leftarrow> ctx_get w c;
     if flags x AND PROXY_BACKEND_EVENT \<noteq> 0 then free_back os c w
     else do {
       (r, w) \<leftarrow> Some (sys os (Write (fd x) (take (nat (data_len x)) (buf x))) w);
       if ret r < 0 then free_back os c w
       else do {
         w \<leftarrow> wd_upd (cpu_id x) (\<lambda>d. d\<lparr>trancnt := trancnt d + 1\<rparr>) w;
         free_back os c w
       }
     }
   }"

subsection \<open>Dispatch\<close>

text \<open>\<open>ctx->handler(ctx, wdata)\<close>\<close>

fun run_handler :: "handler \<Rightarrow> os \<Rightarrow> nat \<Rightarrow> worker \<Rightarrow> worker option" where
  "run_handler Process_accept = process_accept"
| "run_handler Process_read = process_read"
| "run_handler Process_write = process_write"
| "run_handler Process_read_frontend = process_read_frontend"
| "run_handler Process_write_backend = process_write_backend"
| "run_handler Process_read_backend = process_read_backend"
| "run_handler Process_write_frontend = process_write_frontend"

text \<open>The body of the event loop for one event: \<open>ctx->events = events; ctx->handler(ctx, wdata)\<close>.\<close>

definition dispatch :: "os \<Rightarrow> nat \<times> u32 \<Rightarrow> worker \<Rightarrow> worker option" where
  "dispatch os ev w = do {
     w \<leftarrow> ctx_upd (fst ev) (\<lambda>x. x\<lparr>events := snd ev\<rparr>) w;
     x \<leftarrow> ctx_get w (fst ev);
     run_handler (handler x) os (fst ev) w
   }"

end
