(* ===== verification/Server.thy ===== *)
theory Server
  imports Conn_Server
begin

text \<open>
  \<open>src/mult_process_server/server.c\<close>: the command line, the listening sockets, the worker
  processes with their event loop and statistics, and the parent's signal loop. The global
  variables are the record \<open>config\<close>; \<open>exit_cleanup\<close> and a failed \<open>assert\<close> are \<open>None\<close>. The
  POSIX function \<open>inet_aton\<close> is a parameter. Messages and the log file are left out.
\<close>

subsection \<open>Numbers in arguments\<close>

type_synonym arg = "u8 list"

definition is_space :: "u8 \<Rightarrow> bool" where
  "is_space b \<longleftrightarrow> b = 32 \<or> 9 \<le> b \<and> b \<le> 13"

definition is_digit :: "u8 \<Rightarrow> bool" where
  "is_digit b \<longleftrightarrow> 48 \<le> b \<and> b \<le> 57"

definition digits_val :: "u8 list \<Rightarrow> int" where
  "digits_val ds = foldl (\<lambda>v d. 10 * v + (uint d - 48)) 0 ds"

text \<open>A decimal number after white space and a sign, as \<open>sscanf\<close>'s \<open>%d\<close> reads it; \<open>atoi\<close> gives 0 without one.\<close>

definition scan_int :: "arg \<Rightarrow> int option" where
  "scan_int s =
     (let s = dropWhile is_space s;
          (neg, s) = (case s of c # t \<Rightarrow> if c = 45 then (True, t) else if c = 43 then (False, t) else (False, s)
                      | [] \<Rightarrow> (False, s));
          ds = takeWhile is_digit s
      in if ds = [] then None else Some (if neg then - digits_val ds else digits_val ds))"

definition atoi :: "arg \<Rightarrow> int" where
  "atoi s = (case scan_int s of Some n \<Rightarrow> n | None \<Rightarrow> 0)"

definition strncpy :: "u8 list \<Rightarrow> arg \<Rightarrow> u8 list" where
  "strncpy dst src = take (length dst) (src @ replicate (length dst - length src) 0)"

subsection \<open>Configuration\<close>

record listen_addr =
  lparam_port :: int
  listenip :: u32
  lparam_ip :: "u8 list"
  listen_fd :: int

record config =
  enable_verbose :: bool
  enable_proxy_opt :: bool
  enable_debug :: bool
  process_mode :: bool
  specified_log_file :: bool
  log_path :: "u8 list"
  start_cpu :: int
  num_workers :: int
  la_num :: int
  la :: "listen_addr list"
  pa_count :: int
  pa_list :: "proxy_addr list"

abbreviation (input) MAX_ADDRESS :: nat where "MAX_ADDRESS \<equiv> 32"
abbreviation (input) MAX_CONNS_PER_WORKER :: nat where "MAX_CONNS_PER_WORKER \<equiv> 8192"
abbreviation (input) EVENTS_PER_BATCH :: nat where "EVENTS_PER_BATCH \<equiv> 64"

text \<open>
  \<open>strchr(arg, ':')\<close> splits an address; the IP is copied to a 32-byte field, and reading it
  back runs past the field when it has no 0 in it.
\<close>

definition split_addr :: "arg \<Rightarrow> (arg \<times> arg) option" where
  "split_addr s = (if 58 \<in> set s then Some (takeWhile (\<lambda>b. b \<noteq> 58) s, tl (dropWhile (\<lambda>b. b \<noteq> 58) s)) else None)"

definition set_listen :: "(arg \<Rightarrow> u32 option) \<Rightarrow> nat \<Rightarrow> arg \<Rightarrow> arg \<Rightarrow> config \<Rightarrow> config option" where
  "set_listen inet_aton i ip port cfg =
     (if i < length (la cfg) \<and> length ip < 32 then
        (let a = la cfg ! i;
             a = a\<lparr>lparam_ip := strncpy (lparam_ip a) ip\<rparr>;
             a = (case inet_aton ip of Some v \<Rightarrow> a\<lparr>listenip := v\<rparr> | None \<Rightarrow> a);
             a = (case scan_int port of Some v \<Rightarrow> a\<lparr>lparam_port := v\<rparr> | None \<Rightarrow> a)
         in Some (cfg\<lparr>la := (la cfg)[i := a], la_num := la_num cfg + 1\<rparr>))
      else None)"

definition set_proxy :: "(arg \<Rightarrow> u32 option) \<Rightarrow> nat \<Rightarrow> arg \<Rightarrow> arg \<Rightarrow> config \<Rightarrow> config option" where
  "set_proxy inet_aton i ip port cfg =
     (if i < length (pa_list cfg) \<and> length ip < 32 then
        (let a = pa_list cfg ! i;
             a = a\<lparr>param_ip := strncpy (param_ip a) ip\<rparr>;
             a = (case inet_aton ip of Some v \<Rightarrow> a\<lparr>proxyip := v\<rparr> | None \<Rightarrow> a);
             a = (case scan_int port of Some v \<Rightarrow> a\<lparr>param_port := v\<rparr> | None \<Rightarrow> a)
         in Some (cfg\<lparr>pa_list := (pa_list cfg)[i := a], pa_count := pa_count cfg + 1\<rparr>))
      else None)"

text \<open>
  The loop over the addresses after \<open>-a\<close> and \<open>-x\<close>: \<open>args\<close> is \<open>argv\<close> from index 1, so
  \<open>argv[2]\<close> is its second element.
\<close>

fun addr_loop :: "(nat \<Rightarrow> arg \<Rightarrow> arg \<Rightarrow> config \<Rightarrow> config option) \<Rightarrow> nat \<Rightarrow> arg list \<Rightarrow> config \<Rightarrow>
    (arg list \<times> config) option" where
  "addr_loop set_a i (a # b # rest) cfg =
     (if i < MAX_ADDRESS then
        (case split_addr b of
           None \<Rightarrow> Some (a # b # rest, cfg)
         | Some (ip, port) \<Rightarrow> do { cfg \<leftarrow> set_a i ip port cfg; addr_loop set_a (i + 1) (b # rest) cfg })
      else Some (a # b # rest, cfg))"
| "addr_loop set_a i args cfg = Some (args, cfg)"

definition str :: "string \<Rightarrow> arg" where
  "str s = map of_char s"

lemma addr_loop_length: "addr_loop f i args cfg = Some (args', cfg') \<Longrightarrow> length args' \<le> length args \<and> (args \<noteq> [] \<longrightarrow> args' \<noteq> [])"
  by (induction f i args cfg rule: addr_loop.induct) (fastforce split: if_splits option.splits Option.bind_splits)+

text \<open>The label \<open>again\<close> of \<open>main\<close>; what no branch takes ends the parsing.\<close>

function parse_args :: "(arg \<Rightarrow> u32 option) \<Rightarrow> arg list \<Rightarrow> config \<Rightarrow> config option" where
  "parse_args aton args cfg =
     (case args of
        [] \<Rightarrow> Some cfg
      | a # rest \<Rightarrow>
        if a = str ''-d'' then parse_args aton rest (cfg\<lparr>enable_debug := True\<rparr>)
        else if a = str ''-v'' then parse_args aton rest (cfg\<lparr>enable_verbose := True\<rparr>)
        else (case rest of
          [] \<Rightarrow> Some cfg
        | b # rest' \<Rightarrow>
          if a = str ''-o'' then parse_args aton rest' (cfg\<lparr>log_path := strncpy (log_path cfg) b, specified_log_file := True\<rparr>)
          else if a = str ''-c'' then parse_args aton rest' (cfg\<lparr>start_cpu := atoi b\<rparr>)
          else if a = str ''-w'' then parse_args aton rest' (cfg\<lparr>process_mode := True, num_workers := atoi b\<rparr>)
          else if a = str ''-a'' then
            (case addr_loop (set_listen aton) 0 args cfg of
               None \<Rightarrow> None
             | Some (args', cfg) \<Rightarrow> parse_args aton (tl args') cfg)
          else if a = str ''-x'' then
            (case addr_loop (set_proxy aton) 0 args (cfg\<lparr>enable_proxy_opt := True\<rparr>) of
               None \<Rightarrow> None
             | Some (args', cfg) \<Rightarrow> parse_args aton (tl args') cfg)
          else Some cfg))"
  by pat_completeness auto
termination
  by (relation "measure (\<lambda>(aton, args, cfg). length args)") (auto dest!: addr_loop_length simp: less_Suc_eq_le simp del: addr_loop.simps)

declare parse_args.simps [simp del]

text \<open>After the parsing: the defaults, and the \<open>assert\<close> on the number of workers.\<close>

definition main_config :: "(arg \<Rightarrow> u32 option) \<Rightarrow> int \<Rightarrow> arg list \<Rightarrow> config \<Rightarrow> config option" where
  "main_config aton ncpu args cfg = do {
     cfg \<leftarrow> parse_args aton args cfg;
     cfg \<leftarrow> Some (if process_mode cfg then cfg else cfg\<lparr>process_mode := True\<rparr>);
     cfg \<leftarrow> Some (if num_workers cfg \<noteq> 0 then cfg else cfg\<lparr>num_workers := ncpu\<rparr>);
     if 1 \<le> num_workers cfg \<and> num_workers cfg \<le> ncpu then
       (if la_num cfg \<noteq> 0 then Some cfg
        else Some (cfg\<lparr>la_num := 1, la := (la cfg)[0 :=
          (let a = la cfg ! 0; a = a\<lparr>lparam_ip := strncpy (lparam_ip a) (str ''0.0.0.0'')\<rparr>;
               a = (case aton (str ''0.0.0.0'') of Some v \<Rightarrow> a\<lparr>listenip := v\<rparr> | None \<Rightarrow> a)
           in a\<lparr>lparam_port := 80\<rparr>)]\<rparr>))
     else None
   }"

subsection \<open>Listening sockets\<close>

definition init_single_server :: "os \<Rightarrow> u32 \<Rightarrow> u32 \<Rightarrow> worker \<Rightarrow> (int \<times> worker) option" where
  "init_single_server os ip port w = do {
     (r, w) \<leftarrow> Some (sys os Socket w);
     if ret r = -1 then None
     else do {
       s \<leftarrow> Some (ret r);
       (fl, w) \<leftarrow> Some (sys os (Getfl s) w);
       (_, w) \<leftarrow> Some (sys os (Setfl s (of_int (ret fl) OR O_NONBLOCK)) w);
       (r, w) \<leftarrow> Some (sys os (Setsockopt s) w);
       if ret r = -1 then None
       else do {
         (r, w) \<leftarrow> Some (sys os (Bind s ip port) w);
         if ret r = -1 then None
         else do {
           (r, w) \<leftarrow> Some (sys os (Listen s) w);
           if ret r \<noteq> 0 then None else Some (s, w)
         }
       }
     }
   }"

text \<open>One socket per listen address, \<open>uint16_t port\<close>; then the resource limits.\<close>

fun init_servers :: "os \<Rightarrow> nat \<Rightarrow> nat \<Rightarrow> config \<Rightarrow> worker \<Rightarrow> (config \<times> worker) option" where
  "init_servers os i 0 cfg w = Some (cfg, w)"
| "init_servers os i (Suc k) cfg w =
     (if i < length (la cfg) then do {
        (s, w) \<leftarrow> init_single_server os (listenip (la cfg ! i)) (of_int (lparam_port (la cfg ! i)) AND 0xFFFF) w;
        init_servers os (i + 1) k (cfg\<lparr>la := (la cfg)[i := (la cfg ! i)\<lparr>listen_fd := s\<rparr>]\<rparr>) w
      } else None)"

definition init_server :: "os \<Rightarrow> config \<Rightarrow> worker \<Rightarrow> (config \<times> worker) option" where
  "init_server os cfg w = do {
     (cfg, w) \<leftarrow> init_servers os 0 (nat (la_num cfg)) cfg w;
     (r, w) \<leftarrow> Some (sys os Setrlimit w);
     if ret r < 0 then None
     else do {
       (r, w) \<leftarrow> Some (sys os Setrlimit w);
       if ret r < 0 then None else Some (cfg, w)
     }
   }"

subsection \<open>Workers\<close>

definition bind_process_cpu :: "os \<Rightarrow> int \<Rightarrow> int \<Rightarrow> worker \<Rightarrow> int \<times> worker" where
  "bind_process_cpu os ncpu cpu w =
     (if cpu < 0 \<or> cpu \<ge> ncpu then (-1, w)
      else let (r, w) = sys os (Setaffinity cpu) w in (ret r, w))"

text \<open>The loop of \<open>process_clients\<close> that registers the listening sockets.\<close>

fun add_listeners :: "os \<Rightarrow> config \<Rightarrow> int \<Rightarrow> int \<Rightarrow> nat \<Rightarrow> nat \<Rightarrow> worker \<Rightarrow> worker option" where
  "add_listeners os cfg cpu ep i 0 w = Some w"
| "add_listeners os cfg cpu ep i (Suc k) w = do {
     (c, p) \<leftarrow> alloc_context (wpool w);
     w \<leftarrow> Some (w\<lparr>wpool := p\<rparr>);
     if i < length (la cfg) then do {
       w \<leftarrow> ctx_upd c (\<lambda>x. x\<lparr>fd := listen_fd (la cfg ! i), handler := Process_accept, cpu_id := cpu, ep_fd := ep,
              enable_proxy := (if enable_proxy_opt cfg then 1 else 0)\<rparr>) w;
       w \<leftarrow> (if enable_proxy_opt cfg then
               (if nat (pa_count cfg) \<le> length (pa_list cfg) \<and> nat (pa_count cfg) \<le> MAX_ADDRESS then
                  ctx_upd c (\<lambda>x. x\<lparr>pa_num := pa_count cfg,
                    pa := take (nat (pa_count cfg)) (pa_list cfg) @ drop (nat (pa_count cfg)) (pa x)\<rparr>) w
                else None)
             else Some w);
       x \<leftarrow> ctx_get w c;
       (r, w) \<leftarrow> Some (sys os (Epoll_add (ep_fd x) (fd x) (EPOLLIN OR EPOLLHUP OR EPOLLERR) c) w);
       if ret r < 0 then None else add_listeners os cfg cpu ep (i + 1) k w
     } else None
   }"

definition process_clients_setup :: "os \<Rightarrow> int \<Rightarrow> config \<Rightarrow> conn_context list \<Rightarrow> int \<Rightarrow> worker \<Rightarrow> worker option" where
  "process_clients_setup os ncpu cfg garbage cpu w = do {
     (r, w) \<leftarrow> Some (bind_process_cpu os ncpu cpu w);
     if r < 0 then None
     else do {
       p \<leftarrow> init_pool (int MAX_CONNS_PER_WORKER) garbage;
       (e, w) \<leftarrow> Some (sys os (Epoll_create (int MAX_CONNS_PER_WORKER)) (w\<lparr>wpool := p\<rparr>));
       if ret e < 0 then None
       else do {
         w \<leftarrow> add_listeners os cfg cpu (ret e) 0 (nat (la_num cfg)) w;
         wd_upd cpu (\<lambda>d. d\<lparr>polls_min := of_nat EVENTS_PER_BATCH\<rparr>) w
       }
     }
   }"

text \<open>
  The statistics of one \<open>epoll_wait\<close> that returned \<open>n\<close>: the comparisons and the sum convert
  \<open>n\<close> to \<open>uint64_t\<close>.
\<close>

definition poll_stats :: "int \<Rightarrow> worker_data \<Rightarrow> worker_data" where
  "poll_stats n d =
     (let u = of_int n;
          d = (if n = 0 then d\<lparr>polls_mpt := polls_mpt d + 1\<rparr>
               else if u < polls_min d then d\<lparr>polls_min := u\<rparr> else d);
          d = (if u > polls_max d then d\<lparr>polls_max := u\<rparr> else d);
          d = d\<lparr>polls_sum := polls_sum d + u\<rparr>;
          d = d\<lparr>polls_cnt := polls_cnt d + 1\<rparr>;
          d = d\<lparr>polls_avg := polls_sum d div polls_cnt d\<rparr>
      in d\<lparr>polls_lst := u\<rparr>)"

fun dispatch_all :: "os \<Rightarrow> (nat \<times> u32) list \<Rightarrow> worker \<Rightarrow> worker option" where
  "dispatch_all os [] w = Some w"
| "dispatch_all os (e # es) w = do { w \<leftarrow> dispatch os e w; dispatch_all os es w }"

text \<open>One round of the event loop: \<open>epoll_wait\<close> returned \<open>n\<close> (with \<open>err\<close>) and the events \<open>evs\<close>.\<close>

definition event_round :: "os \<Rightarrow> int \<Rightarrow> int \<Rightarrow> int \<Rightarrow> (nat \<times> u32) list \<Rightarrow> worker \<Rightarrow> worker option" where
  "event_round os cpu n err evs w =
     (if n < 0 \<and> err = EINTR then Some w
      else do {
        w \<leftarrow> wd_upd cpu (poll_stats n) w;
        dispatch_all os (take (nat n) evs) w
      })"

subsection \<open>The parent\<close>

text \<open>\<open>init_processes\<close>: the shared statistics start zeroed; \<open>fork\<close> returns the pids, and each child
  stores its own pid.\<close>

definition zero_data :: worker_data where
  "zero_data = \<lparr>process = 0, trancnt = 0, trancnt_prev = 0, wcpu_id = 0, polls_max = 0, polls_min = 0, polls_avg = 0,
     polls_cnt = 0, polls_sum = 0, polls_mpt = 0, polls_lst = 0, accept_cnt = 0, read_cnt = 0, write_cnt = 0\<rparr>"

fun fork_workers :: "int \<Rightarrow> nat \<Rightarrow> int list \<Rightarrow> worker_data list \<Rightarrow> worker_data list option" where
  "fork_workers start i [] ds = Some ds"
| "fork_workers start i (pid # pids) ds =
     (if i < length ds then
        (let ds = ds[i := (ds ! i)\<lparr>trancnt := 0, wcpu_id := int i + start\<rparr>] in
         if pid < 0 then None
         else fork_workers start (i + 1) pids (ds[i := (ds ! i)\<lparr>process := pid\<rparr>]))
      else None)"

definition init_processes :: "config \<Rightarrow> int list \<Rightarrow> worker_data list option" where
  "init_processes cfg pids =
     (if int (length pids) = num_workers cfg
      then fork_workers (start_cpu cfg) 0 pids (replicate (nat (num_workers cfg)) zero_data) else None)"

text \<open>\<open>SIGALRM\<close> in \<open>do_stats\<close>: the transactions since the last tick, summed over the workers.\<close>

definition stats_tick :: "worker_data list \<Rightarrow> u64 \<times> worker_data list" where
  "stats_tick ds = (foldl (\<lambda>s d. s + (trancnt d - trancnt_prev d)) 0 ds, map (\<lambda>d. d\<lparr>trancnt_prev := trancnt d\<rparr>) ds)"

text \<open>The pids that are sent \<open>SIGTERM\<close>.\<close>

definition stop_processes :: "worker_data list \<Rightarrow> int list" where
  "stop_processes ds = filter (\<lambda>p. p \<noteq> 0) (map process ds)"

definition stop_workers :: "config \<Rightarrow> worker_data list \<Rightarrow> int list" where
  "stop_workers cfg ds = (if process_mode cfg then stop_processes ds else [])"

end
