(* ===== verification/Server_Inv.thy ===== *)
theory Server_Inv
  imports Conn_Server
begin

text \<open>
  Resources of a worker. \<open>open_fds\<close> and \<open>closes_ok\<close> read the trace of system calls: the
  descriptors the worker received and has not closed, and that it closed only such
  descriptors. \<open>conn_inv\<close> says that these are exactly the descriptors of the contexts in use,
  each held by one context, and that every context is in a state its handler expects. Every
  handler keeps it, on all its error paths.
\<close>

subsection \<open>Descriptors\<close>

fun received :: "syscall \<times> reply \<Rightarrow> int set" where
  "received (Accept f, r) = (if ret r < 0 then {} else {ret r})"
| "received (Socket, r) = (if ret r < 0 then {} else {ret r})"
| "received _ = {}"

fun closed_fd :: "syscall \<times> reply \<Rightarrow> int set" where
  "closed_fd (Close f, r) = {f}"
| "closed_fd _ = {}"

definition open_fds :: "trace \<Rightarrow> int set" where
  "open_fds tr = foldl (\<lambda>F e. F \<union> received e - closed_fd e) {} tr"

definition closes_ok :: "trace \<Rightarrow> bool" where
  "closes_ok tr \<longleftrightarrow> (\<forall>i < length tr. closed_fd (tr ! i) \<subseteq> open_fds (take i tr))"

lemma open_fds_Nil [simp]: "open_fds [] = {}"
  by (simp add: open_fds_def)

lemma open_fds_snoc [simp]: "open_fds (tr @ [e]) = open_fds tr \<union> received e - closed_fd e"
  by (simp add: open_fds_def)

lemma closes_ok_Nil [simp]: "closes_ok []"
  by (simp add: closes_ok_def)

lemma closes_ok_snoc [simp]: "closes_ok (tr @ [e]) \<longleftrightarrow> closes_ok tr \<and> closed_fd e \<subseteq> open_fds tr"
  by (auto simp: closes_ok_def nth_append less_Suc_eq)

text \<open>
  What the code relies on in the kernel: a new descriptor is none that is open, nor one the
  worker was started with (\<open>base\<close>, with 0 in it), and \<open>read\<close> returns as many bytes as it says,
  at most the number asked for.
\<close>

definition reply_ok :: "syscall \<Rightarrow> reply \<Rightarrow> bool" where
  "reply_ok c r \<longleftrightarrow> (case c of Read f n \<Rightarrow> length (bytes r) = nat (ret r) \<and> ret r \<le> int n | _ \<Rightarrow> True)"

definition os_ok :: "int set \<Rightarrow> os \<Rightarrow> bool" where
  "os_ok base os \<longleftrightarrow> 0 \<in> base \<and>
     (\<forall>tr c. received (c, os tr c) \<inter> (base \<union> open_fds tr) = {} \<and> reply_ok c (os tr c))"

definition owned :: "conn_context \<Rightarrow> int set" where
  "owned x = (if handler x = Process_accept then {}
     else insert (fd x) (if end_fd x = 0 then {} else {end_fd x}))"

definition web_handler :: "handler \<Rightarrow> bool" where
  "web_handler h \<longleftrightarrow> h = Process_read \<or> h = Process_write"

text \<open>The state a handler finds its context in; \<open>N\<close> is the number of backends.\<close>

definition ctx_ok :: "nat \<Rightarrow> nat \<Rightarrow> conn_context \<Rightarrow> bool" where
  "ctx_ok N W x \<longleftrightarrow> 0 \<le> cpu_id x \<and> cpu_id x < int W \<and>
     (enable_proxy x \<noteq> 0 \<and> \<not> web_handler (handler x) \<or> handler x \<notin> {Process_accept, Process_read, Process_write}
        \<longrightarrow> 0 < N \<and> N \<le> 32 \<and> pa_num x = int N) \<and>
     (case handler x of
        Process_accept \<Rightarrow> True
      | Process_read \<Rightarrow> end_fd x = 0 \<and> fd_added x = 1
      | Process_write \<Rightarrow> end_fd x = 0 \<and> fd_added x = 1
      | Process_read_frontend \<Rightarrow> end_fd x = 0 \<and> fd_added x = 1
      | Process_write_backend \<Rightarrow> end_fd x \<noteq> 0 \<and> fd_added x = 1 \<and> end_fd_added x = 1 \<and> flags x AND PROXY_BACKEND_EVENT \<noteq> 0
      | Process_read_backend \<Rightarrow> end_fd x \<noteq> 0 \<and> fd_added x = 1 \<and> end_fd_added x = 1 \<and> flags x AND PROXY_BACKEND_EVENT \<noteq> 0
      | Process_write_frontend \<Rightarrow> end_fd x \<noteq> 0 \<and> fd_added x = 1 \<and> end_fd_added x = 1 \<and> flags x AND PROXY_BACKEND_EVENT = 0)"

definition sizes_ok :: "conn_context \<Rightarrow> bool" where
  "sizes_ok x \<longleftrightarrow> length (buf x) = MAX_BUFSIZE \<and> length (pa x) = 32"

definition ctxs :: "worker \<Rightarrow> nat \<Rightarrow> conn_context" where
  "ctxs w i = arr (wpool w) ! i"

text \<open>
  The accounting of descriptors, with a set \<open>X\<close> of open descriptors no context holds yet;
  \<open>inv_ex c\<close> leaves out the handler condition of the context \<open>c\<close> that is being worked on.
\<close>

definition acct :: "int set \<Rightarrow> int set \<Rightarrow> worker \<Rightarrow> bool" where
  "acct base X w \<longleftrightarrow> pool_ok (wpool w) \<and> (\<forall>x \<in> set (arr (wpool w)). sizes_ok x) \<and>
     closes_ok (trace w) \<and> open_fds (trace w) \<inter> base = {} \<and>
     open_fds (trace w) = X \<union> (\<Union>i \<in> live (wpool w). owned (ctxs w i)) \<and>
     (\<forall>i \<in> live (wpool w). owned (ctxs w i) \<inter> X = {} \<and> (handler (ctxs w i) \<noteq> Process_accept \<longrightarrow> fd (ctxs w i) \<noteq> end_fd (ctxs w i))) \<and>
     (\<forall>i \<in> live (wpool w). \<forall>j \<in> live (wpool w). i \<noteq> j \<longrightarrow> owned (ctxs w i) \<inter> owned (ctxs w j) = {})"

lemma ctxs_simps [simp]: "ctxs (w\<lparr>wdata := d\<rparr>) = ctxs w" "ctxs (w\<lparr>trace := t\<rparr>) = ctxs w"
  "ctxs (w\<lparr>last_backend := l\<rparr>) = ctxs w"
  by (simp_all add: ctxs_def [abs_def])

lemma acct_simps [simp]: "acct base X (w\<lparr>wdata := d\<rparr>) = acct base X w" "acct base X (w\<lparr>last_backend := l\<rparr>) = acct base X w"
  by (simp_all add: acct_def)

definition inv_ex :: "int set \<Rightarrow> nat \<Rightarrow> nat \<Rightarrow> int set \<Rightarrow> nat \<Rightarrow> worker \<Rightarrow> bool" where
  "inv_ex base N W X c w \<longleftrightarrow> acct base X w \<and> (N = 0 \<or> last_backend w < N) \<and> length (wdata w) = W \<and>
     (\<forall>i \<in> live (wpool w). i \<noteq> c \<longrightarrow> ctx_ok N W (ctxs w i))"

definition conn_inv :: "int set \<Rightarrow> nat \<Rightarrow> nat \<Rightarrow> worker \<Rightarrow> bool" where
  "conn_inv base N W w \<longleftrightarrow> acct base {} w \<and> (N = 0 \<or> last_backend w < N) \<and> length (wdata w) = W \<and>
     (\<forall>i \<in> live (wpool w). ctx_ok N W (ctxs w i))"

definition foc :: "int set \<Rightarrow> nat \<Rightarrow> nat \<Rightarrow> int set \<Rightarrow> nat \<Rightarrow> conn_context \<Rightarrow> worker \<Rightarrow> bool" where
  "foc base N W X c x w \<longleftrightarrow> inv_ex base N W X c w \<and> c \<in> live (wpool w) \<and> ctxs w c = x"

lemma live_bound: "i \<in> live p \<Longrightarrow> i < length (arr p)"
  by (simp add: live_def)

lemma focI: "conn_inv base N W w \<Longrightarrow> c \<in> live (wpool w) \<Longrightarrow> foc base N W {} c (ctxs w c) w"
  by (auto simp: conn_inv_def inv_ex_def foc_def)

lemma foc_done: "foc base N W {} c x w \<Longrightarrow> ctx_ok N W x \<Longrightarrow> conn_inv base N W w"
  unfolding foc_def inv_ex_def conn_inv_def by (metis)

lemma foc_get: "foc base N W X c x w \<Longrightarrow> ctx_get w c = Some x"
  using live_bound by (auto simp: foc_def ctx_get_def ctxs_def)

lemma foc_sizes: "foc base N W X c x w \<Longrightarrow> sizes_ok x"
  using live_bound by (auto simp: foc_def inv_ex_def acct_def ctxs_def)

subsection \<open>Rules for the steps of a handler\<close>

text \<open>A write to the context in focus that keeps its free-list link leaves the pool alone.\<close>

lemma chain_cong: "(\<And>i. i \<in> set is \<Longrightarrow> next_idx (cs ! i) = next_idx (ds ! i)) \<Longrightarrow> length cs = length ds \<Longrightarrow>
    chain cs k is = chain ds k is"
  by (induction cs k "is" rule: chain.induct) auto

lemma pool_upd:
  assumes "pool_ok p" "c \<in> live p"
  shows "pool_ok (p\<lparr>arr := (arr p)[c := y]\<rparr>)" "live (p\<lparr>arr := (arr p)[c := y]\<rparr>) = live p"
    "room (p\<lparr>arr := (arr p)[c := y]\<rparr>) = room p"
proof -
  from assms(1) obtain "is" where r: "free_rep p is" by (auto simp: pool_ok_def)
  with assms(2) have "c \<notin> set is" by (auto simp: free_rep_live)
  with r have r': "free_rep (p\<lparr>arr := (arr p)[c := y]\<rparr>) is" by (simp add: free_rep_def chain_upd)
  then show "pool_ok (p\<lparr>arr := (arr p)[c := y]\<rparr>)" by (rule pool_okI)
  show "live (p\<lparr>arr := (arr p)[c := y]\<rparr>) = live p" "room (p\<lparr>arr := (arr p)[c := y]\<rparr>) = room p"
    using free_rep_live [OF r] free_rep_live [OF r'] by auto
qed

lemma foc_upd:
  assumes "foc base N W X c x w" "handler y \<noteq> Process_accept \<Longrightarrow> fd y \<noteq> end_fd y" "sizes_ok y"
    and "owned y \<union> X' = owned x \<union> X" "owned y \<inter> X' = {}" "owned x \<inter> X = {}" "X' \<subseteq> X"
  shows "foc base N W X' c y (w\<lparr>wpool := (wpool w)\<lparr>arr := (arr (wpool w))[c := y]\<rparr>\<rparr>)"
proof -
  let ?w = "w\<lparr>wpool := (wpool w)\<lparr>arr := (arr (wpool w))[c := y]\<rparr>\<rparr>"
  from assms(1) have c: "c \<in> live (wpool w)" "ctxs w c = x" and a: "acct base X w"
    by (auto simp: foc_def inv_ex_def)
  from a have p: "pool_ok (wpool w)" by (simp add: acct_def)
  note u = pool_upd [OF p c(1), of y]
  have ctxs: "ctxs ?w i = (if i = c then y else ctxs w i)" if "i \<in> live (wpool w)" for i
    using that live_bound [OF c(1)] by (simp add: ctxs_def nth_list_update)
  have un: "(\<Union>i \<in> live (wpool w). owned (ctxs ?w i)) = owned y \<union> (\<Union>i \<in> live (wpool w) - {c}. owned (ctxs w i))"
    using c ctxs by (auto split: if_splits)
  moreover have "(\<Union>i \<in> live (wpool w). owned (ctxs w i)) = owned x \<union> (\<Union>i \<in> live (wpool w) - {c}. owned (ctxs w i))"
    using c by auto
  ultimately have op: "open_fds (trace w) = X' \<union> (\<Union>i \<in> live (wpool w). owned (ctxs ?w i))"
    using a assms(4) by (auto simp: acct_def)
  have sz: "\<forall>x \<in> set (arr (wpool ?w)). sizes_ok x"
    using a assms(3) set_update_subset_insert by (fastforce simp: acct_def)
  have oy: "owned y \<inter> owned (ctxs w i) = {}" if "i \<in> live (wpool w)" "i \<noteq> c" for i
    using that a c assms(4) unfolding acct_def by blast
  from a have ac: "closes_ok (trace w)" "open_fds (trace w) \<inter> base = {}"
    unfolding acct_def by blast+
  have "acct base X' ?w"
    unfolding acct_def
  proof (intro conjI ballI impI)
    fix i assume "i \<in> live (wpool ?w)"
    then have i: "i \<in> live (wpool w)" using u by simp
    have "owned (ctxs w i) \<inter> X = {}" using a i by (simp add: acct_def)
    then show "owned (ctxs ?w i) \<inter> X' = {}"
      using assms(5,7) ctxs [OF i] by auto
    show "handler (ctxs ?w i) \<noteq> Process_accept \<Longrightarrow> fd (ctxs ?w i) \<noteq> end_fd (ctxs ?w i)"
      using i a assms(2) ctxs [OF i] by (auto simp: acct_def)
    fix j assume "j \<in> live (wpool ?w)" "i \<noteq> j"
    then have j: "j \<in> live (wpool w)" using u by simp
    show "owned (ctxs ?w i) \<inter> owned (ctxs ?w j) = {}"
      using i j \<open>i \<noteq> j\<close> a ctxs [OF i] ctxs [OF j] oy [OF i] oy [OF j] by (auto simp: acct_def)
  qed (use ac u sz in \<open>simp_all add: op [symmetric]\<close>)
  then show ?thesis
    using assms(1) u ctxs c unfolding foc_def inv_ex_def by auto
qed

text \<open>The same for a write that keeps the context's descriptors.\<close>

definition keeps :: "conn_context \<Rightarrow> conn_context \<Rightarrow> bool" where
  "keeps x y \<longleftrightarrow> fd y = fd x \<and> end_fd y = end_fd x \<and> (handler y = Process_accept \<longleftrightarrow> handler x = Process_accept) \<and>
     length (buf y) = length (buf x) \<and> length (pa y) = length (pa x)"

lemma foc_acct: "foc base N W X c x w \<Longrightarrow> handler x \<noteq> Process_accept \<Longrightarrow> fd x \<noteq> end_fd x"
  "foc base N W X c x w \<Longrightarrow> owned x \<inter> X = {}"
  by (auto simp: foc_def inv_ex_def acct_def)

named_theorems foc_rules \<open>one rule per step of a handler\<close>

lemma ctx_updI:
  assumes "foc base N W X c x w" "keeps x (f x)"
    and "\<And>w'. foc base N W X c (f x) w' \<Longrightarrow> Q w'"
  shows "wp (ctx_upd c f w) Q"
proof -
  have c: "c < length (arr (wpool w))" "arr (wpool w) ! c = x"
    using assms(1) live_bound by (auto simp: foc_def ctxs_def)
  have "owned (f x) = owned x" "sizes_ok (f x)" "handler (f x) \<noteq> Process_accept \<Longrightarrow> fd (f x) \<noteq> end_fd (f x)"
    using assms(2) foc_sizes [OF assms(1)] foc_acct(1) [OF assms(1)] by (auto simp: keeps_def owned_def sizes_ok_def)
  with foc_upd [OF assms(1), of "f x" X] foc_acct(2) [OF assms(1)] assms(3) c show ?thesis
    by (simp add: ctx_upd_def Let_def)
qed

lemma ctx_get_bind [foc_rules]:
  "foc base N W X c x w \<Longrightarrow> wp (g x) Q \<Longrightarrow> wp (Option.bind (ctx_get w c) g) Q"
  by (simp add: foc_get)

lemma ctx_upd_bind [foc_rules]:
  "foc base N W X c x w \<Longrightarrow> keeps x (f x) \<Longrightarrow> (\<And>w'. foc base N W X c (f x) w' \<Longrightarrow> wp (g w') Q) \<Longrightarrow>
     wp (Option.bind (ctx_upd c f w) g) Q"
  by (rule wp_bindI) (rule ctx_updI)

lemma wd_updI:
  assumes "foc base N W X c x w" "0 \<le> i" "i < int W" "\<And>w'. foc base N W X c x w' \<Longrightarrow> Q w'"
  shows "wp (wd_upd i f w) Q"
proof -
  have "foc base N W X c x (w\<lparr>wdata := (wdata w)[nat i := f (wdata w ! nat i)]\<rparr>)"
    using assms(1) by (simp add: foc_def inv_ex_def)
  moreover have "length (wdata w) = W" using assms(1) by (simp add: foc_def inv_ex_def)
  ultimately show ?thesis using assms(2-4) by (simp add: wd_upd_def)
qed

lemma wd_upd_bind [foc_rules]:
  "foc base N W X c x w \<Longrightarrow> 0 \<le> i \<Longrightarrow> i < int W \<Longrightarrow> (\<And>w'. foc base N W X c x w' \<Longrightarrow> wp (g w') Q) \<Longrightarrow>
     wp (Option.bind (wd_upd i f w) g) Q"
  by (rule wp_bindI) (rule wd_updI)

text \<open>A system call that neither gives nor closes a descriptor.\<close>

definition neutral :: "syscall \<Rightarrow> bool" where
  "neutral c \<longleftrightarrow> (case c of Accept _ \<Rightarrow> False | Socket \<Rightarrow> False | Close _ \<Rightarrow> False | _ \<Rightarrow> True)"

lemma neutral_trace: "neutral c \<Longrightarrow> received (c, r) = {} \<and> closed_fd (c, r) = {}"
  by (cases c) (simp_all add: neutral_def)

lemma acct_quiet: "received e = {} \<Longrightarrow> closed_fd e = {} \<Longrightarrow> acct base X (w\<lparr>trace := trace w @ [e]\<rparr>) = acct base X w"
  by (simp add: acct_def)

lemma acct_neutral: "neutral c \<Longrightarrow> acct base X (w\<lparr>trace := trace w @ [(c, r)]\<rparr>) = acct base X w"
  by (simp add: acct_quiet neutral_trace)

lemma sys_bind [foc_rules]:
  assumes "foc base N W X c x w" "os_ok base os" "neutral call"
    and "\<And>r w'. reply_ok call r \<Longrightarrow> foc base N W X c x w' \<Longrightarrow> wpool w' = wpool w \<Longrightarrow> wp (g r w') Q"
  shows "wp (Option.bind (Some (sys os call w)) (\<lambda>(r, w). g r w)) Q"
proof -
  let ?r = "os (trace w) call"
  have "foc base N W X c x (w\<lparr>trace := trace w @ [(call, ?r)]\<rparr>)"
    using assms(1) acct_neutral [OF assms(3)] by (simp add: foc_def inv_ex_def)
  moreover have "reply_ok call ?r" using assms(2) by (simp add: os_ok_def)
  ultimately show ?thesis using assms(4) by (simp add: sys_def Let_def)
qed

lemma neutral_simps [simp]: "neutral (Getfl f)" "neutral (Setfl f n)" "neutral (Read f k)" "neutral (Write f bs)"
  "neutral (Setsockopt f)" "neutral (Connect f ip port)" "neutral (Epoll_add e f m i)" "neutral (Epoll_mod e f m i)"
  "neutral (Epoll_del e f i)"
  by (simp_all add: neutral_def)

lemma free_backI:
  assumes f: "foc base N W {} c x w" and os: "os_ok base os" and h: "handler x \<noteq> Process_accept"
  shows "wp (free_back os c w) (conn_inv base N W)"
proof -
  let ?p = "wpool w"
  from f have a: "acct base {} w" and c: "c \<in> live ?p" "ctxs w c = x" by (auto simp: foc_def inv_ex_def)
  let ?R = "\<Union>i \<in> live ?p - {c}. owned (ctxs w i)"
  have disj: "owned x \<inter> ?R = {}" using a c unfolding acct_def by blast
  have op: "open_fds (trace w) = owned x \<union> ?R" using a c by (auto simp: acct_def)
  have "fd x \<in> owned x" "end_fd x \<noteq> 0 \<Longrightarrow> end_fd x \<in> owned x" using h by (simp_all add: owned_def)
  then have "fd x \<in> open_fds (trace w)" "end_fd x \<noteq> 0 \<Longrightarrow> end_fd x \<in> open_fds (trace w)" "closes_ok (trace w)"
    using a unfolding op acct_def by blast+
  then have "wp (process_close os c w) (\<lambda>w'. wpool w' = ?p \<and> wdata w' = wdata w \<and> last_backend w' = last_backend w \<and>
     closes_ok (trace w') \<and> open_fds (trace w') = open_fds (trace w) - owned x)"
    unfolding process_close_def sys_def Let_def foc_get [OF f] owned_def
    using h foc_acct(1) [OF f h]
    by (cases "fd_added x = 0"; cases "end_fd x = 0"; cases "end_fd_added x = 0"; auto simp del: append_assoc)
  then obtain w' where w': "process_close os c w = Some w'" "wpool w' = ?p" "wdata w' = wdata w"
    "last_backend w' = last_backend w" "closes_ok (trace w')" "open_fds (trace w') = ?R"
    using op disj by (elim wpE) auto
  have p: "pool_ok ?p" using a by (simp add: acct_def)
  from pool.release_law [OF p c(1)] obtain p' where p': "free_context ?p c = Some p'" "pool_ok p'" "live p' = live ?p - {c}"
    by (auto elim: wpE)
  have arr: "arr p' ! i = arr ?p ! i" if "i \<noteq> c" for i
    using p'(1) that by (auto simp: free_context_def split: if_splits)
  have sz: "\<forall>x \<in> set (arr p'). sizes_ok x"
  proof -
    have "arr p' = (arr ?p)[c := (arr ?p ! c)\<lparr>next_idx := pool_next ?p\<rparr>]"
      using p'(1) by (auto simp: free_context_def split: if_splits)
    moreover have "sizes_ok ((arr ?p ! c)\<lparr>next_idx := pool_next ?p\<rparr>)"
      using foc_sizes [OF f] c(2) by (simp add: sizes_ok_def ctxs_def)
    ultimately show ?thesis using a set_update_subset_insert by (fastforce simp: acct_def)
  qed
  have ctxs: "ctxs (w'\<lparr>wpool := p'\<rparr>) i = ctxs w i" if "i \<in> live p'" for i
    using that p'(3) arr by (simp add: ctxs_def)
  have "conn_inv base N W (w'\<lparr>wpool := p'\<rparr>)"
    using f w' p' sz ctxs op a unfolding conn_inv_def foc_def inv_ex_def acct_def by auto
  then show ?thesis using w'(1,2) p'(1) by (simp add: free_back_def)
qed

lemma free_back_done [foc_rules]:
  "foc base N W {} c x w \<Longrightarrow> os_ok base os \<Longrightarrow> handler x \<noteq> Process_accept \<Longrightarrow> wp (free_back os c w) (conn_inv base N W)"
  by (rule free_backI)

lemma ctx_upd_done [foc_rules]:
  "foc base N W {} c x w \<Longrightarrow> keeps x (f x) \<Longrightarrow> ctx_ok N W (f x) \<Longrightarrow> wp (ctx_upd c f w) (conn_inv base N W)"
  by (rule ctx_updI) (auto intro: foc_done)

lemma wd_upd_done [foc_rules]:
  "foc base N W {} c x w \<Longrightarrow> 0 \<le> i \<Longrightarrow> i < int W \<Longrightarrow> ctx_ok N W x \<Longrightarrow> wp (wd_upd i f w) (conn_inv base N W)"
  by (rule wd_updI) (auto intro: foc_done)

lemma some_done [foc_rules]:
  "foc base N W {} c x w \<Longrightarrow> ctx_ok N W x \<Longrightarrow> wp (Some w) (conn_inv base N W)"
  by (simp add: foc_done)

lemma give_bind:
  assumes "foc base N W {} c x w" "os_ok base os" "call = Socket \<or> call = Accept f"
    and "\<And>r w'. ret r < 0 \<Longrightarrow> foc base N W {} c x w' \<Longrightarrow> wp (g r w') Q"
    and "\<And>r w'. 0 \<le> ret r \<Longrightarrow> foc base N W {ret r} c x w' \<Longrightarrow> ret r \<noteq> 0 \<Longrightarrow> ret r \<notin> owned x \<Longrightarrow> wpool w' = wpool w \<Longrightarrow> wp (g r w') Q"
  shows "wp (Option.bind (Some (sys os call w)) (\<lambda>(r, w). g r w)) Q"
proof -
  let ?r = "os (trace w) call" and ?w = "w\<lparr>trace := trace w @ [(call, os (trace w) call)]\<rparr>"
  have n: "received (call, ?r) \<inter> (base \<union> open_fds (trace w)) = {}" "0 \<in> base"
    using assms(2) unfolding os_ok_def by blast+
  have c: "received (call, ?r) = (if ret ?r < 0 then {} else {ret ?r})" "closed_fd (call, ?r) = {}"
    using assms(3) by auto
  from assms(1) have f: "acct base {} w" "c \<in> live (wpool w)" "ctxs w c = x" by (auto simp: foc_def inv_ex_def)
  have "wp (g ?r ?w) Q"
  proof (cases "ret ?r < 0")
    case True
    with f(1) have "acct base {} ?w" by (simp add: acct_quiet c)
    with assms(1) have "foc base N W {} c x ?w" by (auto simp: foc_def inv_ex_def)
    with assms(4) True show ?thesis by blast
  next
    case False
    with n c have new: "ret ?r \<notin> open_fds (trace w)" "ret ?r \<notin> base" by auto
    have own: "\<forall>i \<in> live (wpool w). owned (ctxs w i) \<subseteq> open_fds (trace w)" using f(1) unfolding acct_def by blast
    have a: "acct base {ret ?r} ?w"
      unfolding acct_def
    proof (intro conjI ballI impI)
      fix i assume "i \<in> live (wpool ?w)"
      then show "owned (ctxs ?w i) \<inter> {ret ?r} = {}" using own new(1) by auto
      show "handler (ctxs ?w i) \<noteq> Process_accept \<Longrightarrow> fd (ctxs ?w i) \<noteq> end_fd (ctxs ?w i)"
        using f(1) \<open>i \<in> live (wpool ?w)\<close> by (simp add: acct_def)
      fix j assume "j \<in> live (wpool ?w)" "i \<noteq> j"
      then show "owned (ctxs ?w i) \<inter> owned (ctxs ?w j) = {}"
        using f(1) \<open>i \<in> live (wpool ?w)\<close> by (simp add: acct_def)
    next
      show "open_fds (trace ?w) = {ret ?r} \<union> (\<Union>i \<in> live (wpool ?w). owned (ctxs ?w i))"
        using f(1) False unfolding acct_def by (simp add: c)
      show "open_fds (trace ?w) \<inter> base = {}"
        using f(1) False new(2) unfolding acct_def by (auto simp: c)
    qed (use f(1) in \<open>simp_all add: acct_def c\<close>)
    with assms(1) have "foc base N W {ret ?r} c x ?w" by (auto simp: foc_def inv_ex_def)
    moreover have "ret ?r \<noteq> 0" using new n(2) by auto
    moreover have "ret ?r \<notin> owned x" using own f new by blast
    ultimately show ?thesis using assms(5) False by simp
  qed
  then show ?thesis by (simp add: sys_def Let_def)
qed

lemmas Socket_bind = give_bind [where call = Socket, OF _ _ disjI1 [OF refl]]

text \<open>Storing the new descriptor in the context.\<close>

lemma end_fd_bind:
  assumes "foc base N W {s} c x w" "handler x \<noteq> Process_accept" "end_fd x = 0" "s \<noteq> 0" "s \<notin> owned x"
    and "\<And>w'. foc base N W {} c (x\<lparr>end_fd := s\<rparr>) w' \<Longrightarrow> wp (g w') Q"
  shows "wp (Option.bind (ctx_upd c (\<lambda>x. x\<lparr>end_fd := s\<rparr>) w) g) Q"
proof -
  have c: "c < length (arr (wpool w))" "arr (wpool w) ! c = x"
    using assms(1) live_bound by (auto simp: foc_def ctxs_def)
  have "foc base N W {} c (x\<lparr>end_fd := s\<rparr>) (w\<lparr>wpool := (wpool w)\<lparr>arr := (arr (wpool w))[c := x\<lparr>end_fd := s\<rparr>]\<rparr>\<rparr>)"
    by (rule foc_upd [OF assms(1)]) (use foc_sizes [OF assms(1)] assms(2-5) in \<open>auto simp: owned_def sizes_ok_def\<close>)
  with assms(6) c show ?thesis by (simp add: ctx_upd_def Let_def)
qed

lemma select_bind [foc_rules]:
  assumes "foc base N W X c x w" "0 < N" "N \<le> 32" "pa_num x = int N"
    and "\<And>ip port w'. foc base N W X c x w' \<Longrightarrow> wp (g ip port w') Q"
  shows "wp (Option.bind (select_backend x w) (\<lambda>((ip, port), w). g ip port w)) Q"
proof -
  have "length (pa x) = 32" "last_backend w < N"
    using foc_sizes [OF assms(1)] assms(1,2) by (auto simp: sizes_ok_def foc_def inv_ex_def)
  moreover have "foc base N W X c x (w\<lparr>last_backend := (if int (last_backend w + 1) = pa_num x then 0 else last_backend w + 1)\<rparr>)"
    using assms(1,2,4) by (auto simp: foc_def inv_ex_def)
  ultimately show ?thesis using assms(3,5) by (simp add: select_backend_def Let_def)
qed

lemma value_bind [foc_rules]: "wp (g (ret r)) Q \<Longrightarrow> wp (Option.bind (Some (ret r)) g) Q"
  by simp

lemma length_fill_buf: "length bs \<le> length old \<Longrightarrow> length (fill_buf bs old) = length old"
  by (simp add: fill_buf_def)

lemma reply_read: "reply_ok (Read f n) r \<Longrightarrow> length (bytes r) \<le> n"
  by (auto simp: reply_ok_def)

lemma or_bit0: "(a OR 1) AND 1 \<noteq> (0 :: u32)" "(a AND NOT 1) AND 1 = (0 :: u32)" "(a AND - 2) AND 1 = (0 :: u32)"
  by (simp_all add: word_ao_dist and.assoc)

lemmas handler_simps = keeps_def ctx_ok_def sizes_ok_def owned_def length_fill_buf web_handler_def or_bit0

lemma process_read_inv:
  assumes f: "foc base N W {} c x w" and os: "os_ok base os" and h: "handler x = Process_read" "ctx_ok N W x"
  shows "wp (process_read os c w) (conn_inv base N W)"
proof -
  have n: "0 \<le> cpu_id x" "cpu_id x < int W" "length (buf x) = 2048" using h(2) foc_sizes [OF f] by (simp_all add: ctx_ok_def sizes_ok_def)
  show ?thesis
    unfolding process_read_def
    by (rule Socket_bind end_fd_bind | rule foc_rules wp_ifI f os | assumption | use h n in \<open>simp add: handler_simps reply_read; fail\<close>)+
qed

lemma process_write_inv:
  assumes f: "foc base N W {} c x w" and os: "os_ok base os" and h: "handler x = Process_write" "ctx_ok N W x"
  shows "wp (process_write os c w) (conn_inv base N W)"
proof -
  have n: "0 \<le> cpu_id x" "cpu_id x < int W" "length (buf x) = 2048" using h(2) foc_sizes [OF f] by (simp_all add: ctx_ok_def sizes_ok_def)
  show ?thesis
    unfolding process_write_def
    by (rule Socket_bind end_fd_bind | rule foc_rules wp_ifI f os | assumption | use h n in \<open>simp add: handler_simps reply_read; fail\<close>)+
qed

lemma process_read_frontend_inv:
  assumes f: "foc base N W {} c x w" and os: "os_ok base os" and h: "handler x = Process_read_frontend" "ctx_ok N W x"
  shows "wp (process_read_frontend os c w) (conn_inv base N W)"
proof -
  have n: "0 \<le> cpu_id x" "cpu_id x < int W" "length (buf x) = 2048" using h(2) foc_sizes [OF f] by (simp_all add: ctx_ok_def sizes_ok_def)
  show ?thesis
    unfolding process_read_frontend_def
    by (rule Socket_bind end_fd_bind | rule foc_rules wp_ifI f os | assumption | use h n in \<open>simp add: handler_simps reply_read; fail\<close>)+
qed

lemma process_write_backend_inv:
  assumes f: "foc base N W {} c x w" and os: "os_ok base os" and h: "handler x = Process_write_backend" "ctx_ok N W x"
  shows "wp (process_write_backend os c w) (conn_inv base N W)"
proof -
  have n: "0 \<le> cpu_id x" "cpu_id x < int W" "length (buf x) = 2048" using h(2) foc_sizes [OF f] by (simp_all add: ctx_ok_def sizes_ok_def)
  show ?thesis
    unfolding process_write_backend_def
    by (rule Socket_bind end_fd_bind | rule foc_rules wp_ifI f os | assumption | use h n in \<open>simp add: handler_simps reply_read; fail\<close>)+
qed

lemma process_read_backend_inv:
  assumes f: "foc base N W {} c x w" and os: "os_ok base os" and h: "handler x = Process_read_backend" "ctx_ok N W x"
  shows "wp (process_read_backend os c w) (conn_inv base N W)"
proof -
  have n: "0 \<le> cpu_id x" "cpu_id x < int W" "length (buf x) = 2048" using h(2) foc_sizes [OF f] by (simp_all add: ctx_ok_def sizes_ok_def)
  show ?thesis
    unfolding process_read_backend_def
    by (rule Socket_bind end_fd_bind | rule foc_rules wp_ifI f os | assumption | use h n in \<open>simp add: handler_simps reply_read; fail\<close>)+
qed

lemma process_write_frontend_inv:
  assumes f: "foc base N W {} c x w" and os: "os_ok base os" and h: "handler x = Process_write_frontend" "ctx_ok N W x"
  shows "wp (process_write_frontend os c w) (conn_inv base N W)"
proof -
  have n: "0 \<le> cpu_id x" "cpu_id x < int W" "length (buf x) = 2048" using h(2) foc_sizes [OF f] by (simp_all add: ctx_ok_def sizes_ok_def)
  show ?thesis
    unfolding process_write_frontend_def
    by (rule Socket_bind end_fd_bind | rule foc_rules wp_ifI f os | assumption | use h n in \<open>simp add: handler_simps reply_read; fail\<close>)+
qed

text \<open>A fresh context with the accepted descriptor joins the others.\<close>

lemma alloc_acct:
  assumes a: "acct base X w" and al: "alloc_context (wpool w) = Some (k, p)" "0 < room (wpool w)"
    and y: "owned y = X" "handler y \<noteq> Process_accept \<Longrightarrow> fd y \<noteq> end_fd y" "sizes_ok y"
  defines "w' \<equiv> w\<lparr>wpool := p\<lparr>arr := (arr p)[k := y]\<rparr>\<rparr>"
  shows "acct base {} w'" "live (wpool w') = insert k (live (wpool w))" "k \<notin> live (wpool w)"
    "ctxs w' k = y" "\<And>i. i \<in> live (wpool w) \<Longrightarrow> ctxs w' i = ctxs w i \<and> arr p ! i = ctxs w i"
    "length (arr p) = length (arr (wpool w))" "k < length (arr p)" "sizes_ok (arr p ! k)"
    "fd (arr p ! k) = 0" "end_fd (arr p ! k) = 0" "room (wpool w) = Suc (room (wpool w'))"
proof -
  from a have po: "pool_ok (wpool w)" by (simp add: acct_def)
  from pool.alloc_law [OF po al(2)] al(1) have p: "pool_ok p" "k \<notin> live (wpool w)" "live p = insert k (live (wpool w))"
    "room (wpool w) = Suc (room p)" by auto
  have arr: "arr p = (arr (wpool w))[k := (arr (wpool w) ! k)\<lparr>fd := 0, fd_added := 0, end_fd := 0, end_fd_added := 0, next_idx := -1\<rparr>]"
    "k < length (arr (wpool w))"
    using al(1) by (auto simp: alloc_context_def Let_def split: if_splits)
  show "length (arr p) = length (arr (wpool w))" "k < length (arr p)" using arr by simp_all
  have sz: "\<forall>x \<in> set (arr (wpool w)). sizes_ok x" using a by (simp add: acct_def)
  then have "sizes_ok (arr (wpool w) ! k)" using arr(2) by simp
  then show "sizes_ok (arr p ! k)" "fd (arr p ! k) = 0" "end_fd (arr p ! k) = 0" using arr by (simp_all add: sizes_ok_def)
  note u = pool_upd [OF p(1), of k y]
  show l: "live (wpool w') = insert k (live (wpool w))" using u p by (simp add: w'_def)
  have ok: "pool_ok (wpool w')" using u p by (simp add: w'_def)
  show "room (wpool w) = Suc (room (wpool w'))" using u p by (simp add: w'_def)
  show k: "ctxs w' k = y" using arr by (simp add: ctxs_def w'_def)
  show o: "ctxs w' i = ctxs w i \<and> arr p ! i = ctxs w i" if "i \<in> live (wpool w)" for i
    using that p(2) arr by (auto simp: ctxs_def nth_list_update w'_def)
  show "k \<notin> live (wpool w)" by (rule p(2))
  have szw: "\<forall>x \<in> set (arr (wpool w')). sizes_ok x"
    using sz y(3) unfolding w'_def arr(1) by (auto dest!: set_update_subset_insert [THEN subsetD])
  from a have aa: "closes_ok (trace w)" "open_fds (trace w) \<inter> base = {}"
    "open_fds (trace w) = X \<union> (\<Union>i \<in> live (wpool w). owned (ctxs w i))"
    "\<forall>i \<in> live (wpool w). owned (ctxs w i) \<inter> X = {} \<and> (handler (ctxs w i) \<noteq> Process_accept \<longrightarrow> fd (ctxs w i) \<noteq> end_fd (ctxs w i))"
    "\<forall>i \<in> live (wpool w). \<forall>j \<in> live (wpool w). i \<noteq> j \<longrightarrow> owned (ctxs w i) \<inter> owned (ctxs w j) = {}"
    unfolding acct_def by blast+
  have t: "trace w' = trace w" by (simp add: w'_def)
  show "acct base {} w'"
    unfolding acct_def
  proof (intro conjI ballI impI)
    fix i assume "i \<in> live (wpool w')"
    then have i: "i = k \<or> i \<in> live (wpool w)" using l by simp
    show "owned (ctxs w' i) \<inter> {} = {}" by simp
    show "handler (ctxs w' i) \<noteq> Process_accept \<Longrightarrow> fd (ctxs w' i) \<noteq> end_fd (ctxs w' i)"
      using i k o aa(4) y(2) by auto
    fix j assume "j \<in> live (wpool w')" "i \<noteq> j"
    then have j: "j = k \<or> j \<in> live (wpool w)" using l by simp
    show "owned (ctxs w' i) \<inter> owned (ctxs w' j) = {}"
    proof (cases "i = k \<or> j = k")
      case True
      have kj: "owned (ctxs w' k) \<inter> owned (ctxs w' m) = {}" if "m \<in> live (wpool w)" for m
        using that aa(4) o [OF that] k y(1) by (metis inf_commute)
      show ?thesis using True i j \<open>i \<noteq> j\<close> kj [of i] kj [of j] by (metis inf_commute)
    next
      case False
      then have "owned (ctxs w i) \<inter> owned (ctxs w j) = {}" using i j \<open>i \<noteq> j\<close> aa(5) by blast
      then show ?thesis using False i j o by auto
    qed
  next
    show "open_fds (trace w') = {} \<union> (\<Union>i \<in> live (wpool w'). owned (ctxs w' i))"
      using aa(3) l k o y(1) t by simp
  qed (use ok aa szw t in simp_all)
qed

lemma alloc_foc:
  assumes f: "foc base N W {s} c x w" and x: "ctx_ok N W x"
    and al: "alloc_context (wpool w) = Some (k, p)" "0 < room (wpool w)"
    and y: "handler y \<noteq> Process_accept" "fd y = s" "end_fd y = 0" "sizes_ok y" "s \<noteq> 0"
  shows "foc base N W {} k y (w\<lparr>wpool := p\<lparr>arr := (arr p)[k := y]\<rparr>\<rparr>)" "k \<noteq> c" "arr p ! c = x"
    "length (arr p) = length (arr (wpool w))" "k < length (arr p)" "sizes_ok (arr p ! k)"
    "fd (arr p ! k) = 0" "end_fd (arr p ! k) = 0"
proof -
  from f have a: "acct base {s} w" and c: "c \<in> live (wpool w)" "ctxs w c = x" by (auto simp: foc_def inv_ex_def)
  have "owned y = {s}" "fd y \<noteq> end_fd y" using y by (simp_all add: owned_def)
  note n = alloc_acct [OF a al this(1) _ y(4), OF this(2)]
  show "k \<noteq> c" using n(3) c by auto
  show "arr p ! c = x" using n(5) c by simp
  show "length (arr p) = length (arr (wpool w))" "k < length (arr p)" "sizes_ok (arr p ! k)"
    "fd (arr p ! k) = 0" "end_fd (arr p ! k) = 0" by (fact n)+
  show "foc base N W {} k y (w\<lparr>wpool := p\<lparr>arr := (arr p)[k := y]\<rparr>\<rparr>)"
    using f x c n(1-5) unfolding foc_def inv_ex_def by auto
qed

text \<open>From the allocation on, the new context is in focus.\<close>

lemma alloc_bind:
  assumes f: "foc base N W {s} c x w" and x: "ctx_ok N W x" "handler x = Process_accept" and s: "s \<noteq> 0"
    and r: "0 < room (wpool w)"
    and g: "\<And>k y w'. foc base N W {} k y w' \<Longrightarrow> k \<noteq> c \<Longrightarrow> ctx_get w' c = Some x \<Longrightarrow> fd y = s \<Longrightarrow>
      handler y = (if enable_proxy x = 0 then Process_read else Process_read_frontend) \<Longrightarrow> end_fd y = 0 \<Longrightarrow>
      (enable_proxy x \<noteq> 0 \<Longrightarrow> pa_num y = int N) \<Longrightarrow> wp (h k x w') Q"
  shows "wp (do {
     (k, p) \<leftarrow> alloc_context (wpool w);
     w \<leftarrow> ctx_upd k (\<lambda>x. x\<lparr>fd := s\<rparr>) (w\<lparr>wpool := p\<rparr>);
     l \<leftarrow> ctx_get w c;
     w \<leftarrow> (if enable_proxy l \<noteq> 0 then do {
            x \<leftarrow> ctx_get w k;
            x \<leftarrow> copy_backends l (x\<lparr>handler := Process_read_frontend, enable_proxy := enable_proxy l\<rparr>);
            ctx_upd k (\<lambda>_. x) w
          } else ctx_upd k (\<lambda>x. x\<lparr>handler := Process_read\<rparr>) w);
     h k l w }) Q"
proof -
  from f have "acct base {s} w" and c: "c \<in> live (wpool w)" by (auto simp: foc_def inv_ex_def)
  then have "pool_ok (wpool w)" by (simp add: acct_def)
  from pool.alloc_law [OF this r] obtain k p where al: "alloc_context (wpool w) = Some (k, p)" by (auto elim: wpE)
  let ?z = "(arr p ! k)\<lparr>fd := s\<rparr>"
  let ?y = "if enable_proxy x = 0 then ?z\<lparr>handler := Process_read\<rparr> else
     ?z\<lparr>handler := Process_read_frontend, enable_proxy := enable_proxy x, pa_num := pa_num x,
       pa := take (nat (pa_num x)) (pa x) @ drop (nat (pa_num x)) (pa ?z)\<rparr>"
  have lx: "length (pa x) = 32" using foc_sizes [OF f] by (simp add: sizes_ok_def)
  have n: "enable_proxy x \<noteq> 0 \<Longrightarrow> pa_num x = int N \<and> N \<le> 32" using x by (auto simp: ctx_ok_def web_handler_def)
  have sx: "sizes_ok (x\<lparr>handler := Process_read, fd := s, end_fd := 0\<rparr>)" using foc_sizes [OF f] by (simp add: sizes_ok_def)
  note y1 = alloc_foc(6-8) [OF f x(1) al r _ _ _ sx s, simplified]
  have "sizes_ok ?y" using y1(1) n lx by (auto simp: sizes_ok_def)
  then have y: "handler ?y \<noteq> Process_accept" "fd ?y = s" "end_fd ?y = 0" "sizes_ok ?y" using y1(3) by auto
  note k = alloc_foc [OF f x(1) al r y s]
  let ?w = "w\<lparr>wpool := p\<lparr>arr := (arr p)[k := ?y]\<rparr>\<rparr>"
  have cl: "c < length (arr p)" using live_bound [OF c] k(4) by simp
  then have "ctx_get ?w c = Some x" using k(2,3) by (simp add: ctx_get_def)
  then have "wp (h k x ?w) Q" using g [OF k(1,2)] y n by auto
  moreover have "sizes_ok (arr p ! k)" by (rule k(6))
  ultimately show ?thesis
    using al k(2-5) cl n lx
    by (auto simp: ctx_upd_def ctx_get_def copy_backends_def Let_def sizes_ok_def nth_list_update)
qed

lemma process_accept_inv:
  assumes f: "foc base N W {} c x w" and os: "os_ok base os" and h: "handler x = Process_accept" "ctx_ok N W x"
    and r: "0 < room (wpool w)"
  shows "wp (process_accept os c w) (conn_inv base N W)"
proof -
  have n: "0 \<le> cpu_id x" "cpu_id x < int W" using h(2) by (simp_all add: ctx_ok_def)
  have tail: "wp (do {
      w \<leftarrow> ctx_upd k (\<lambda>y. y\<lparr>cpu_id := cpu_id x, ep_fd := ep_fd x\<rparr>) w;
      y \<leftarrow> ctx_get w k;
      (r, w) \<leftarrow> Some (sys os (Epoll_add (ep_fd y) (fd y) (EPOLLIN OR EPOLLHUP OR EPOLLERR) k) w);
      if ret r < 0 then free_back os k w else ctx_upd k (\<lambda>x. x\<lparr>fd_added := 1\<rparr>) w }) (conn_inv base N W)"
    if "foc base N W {} k y w" "handler y = (if enable_proxy x = 0 then Process_read else Process_read_frontend)"
      "end_fd y = 0" "enable_proxy x \<noteq> 0 \<Longrightarrow> pa_num y = int N" for k y w
  proof -
    have N: "enable_proxy x \<noteq> 0 \<Longrightarrow> 0 < N \<and> N \<le> 32" using h by (auto simp: ctx_ok_def web_handler_def)
    have hy: "handler y \<noteq> Process_accept" using that(2) by simp
    show ?thesis
      by (cases "enable_proxy x = 0"; (rule foc_rules wp_ifI that(1) os | assumption |
        use N n hy that(2-4) in \<open>simp add: handler_simps; fail\<close>)+)
  qed
  show ?thesis
    unfolding process_accept_def
  proof (rule ctx_get_bind [OF f], rule wp_ifI, rule some_done [OF f h(2)], rule give_bind [OF f os disjI2 [OF refl]])
    fix r w'
    assume "ret r < 0" "foc base N W {} c x w'"
    then show "wp (if ret r < 0 then wd_upd (cpu_id x) (\<lambda>d. d\<lparr>accept_cnt := accept_cnt d + 1\<rparr>) w' else X r w') (conn_inv base N W)" for X
      using n h(2) by (simp add: wd_upd_done)
  next
    fix r w'
    assume a: "0 \<le> ret r" "foc base N W {ret r} c x w'" "ret r \<noteq> 0" "wpool w' = wpool w"
    show "wp (if ret r < 0 then wd_upd (cpu_id x) (\<lambda>d. d\<lparr>accept_cnt := accept_cnt d + 1\<rparr>) w' else do {
         (fl, w) \<leftarrow> Some (sys os (Getfl (ret r)) w');
         (_, w) \<leftarrow> Some (sys os (Setfl (ret r) (of_int (ret fl) OR O_NONBLOCK)) w);
         (k, p) \<leftarrow> alloc_context (wpool w);
         w \<leftarrow> ctx_upd k (\<lambda>x. x\<lparr>fd := ret r\<rparr>) (w\<lparr>wpool := p\<rparr>);
         l \<leftarrow> ctx_get w c;
         w \<leftarrow> (if enable_proxy l \<noteq> 0 then do {
                x \<leftarrow> ctx_get w k;
                x \<leftarrow> copy_backends l (x\<lparr>handler := Process_read_frontend, enable_proxy := enable_proxy l\<rparr>);
                ctx_upd k (\<lambda>_. x) w
              } else ctx_upd k (\<lambda>x. x\<lparr>handler := Process_read\<rparr>) w);
         w \<leftarrow> ctx_upd k (\<lambda>x. x\<lparr>cpu_id := cpu_id l, ep_fd := ep_fd l\<rparr>) w;
         x \<leftarrow> ctx_get w k;
         (r, w) \<leftarrow> Some (sys os (Epoll_add (ep_fd x) (fd x) (EPOLLIN OR EPOLLHUP OR EPOLLERR) k) w);
         if ret r < 0 then free_back os k w
         else ctx_upd k (\<lambda>x. x\<lparr>fd_added := 1\<rparr>) w
       }) (conn_inv base N W)"
    proof (rule wp_ifI)
      show "ret r < 0 \<Longrightarrow> wp (wd_upd (cpu_id x) (\<lambda>d. d\<lparr>accept_cnt := accept_cnt d + 1\<rparr>) w') (conn_inv base N W)"
        using a(1) by simp
    qed (rule sys_bind [OF a(2) os], simp, rule sys_bind [OF _ os], assumption, simp, rule alloc_bind,
        use a r h tail in \<open>auto split: if_splits\<close>)
  qed
qed

end
