(* ===== verification/Server_Safe.thy ===== *)
theory Server_Safe
  imports Server Server_Inv
begin

text \<open>
  A worker of the server as a state machine: it starts as \<open>process_clients\<close> sets it up, and a
  step is one event dispatched to the handler of a context in use. The machine is an
  instance of \<open>invariant_machine\<close> with the resource invariant \<open>conn_inv\<close>.
\<close>

subsection \<open>Steps\<close>

lemma run_handler_inv:
  assumes "foc base N W {} c x w" "os_ok base os" "ctx_ok N W x"
    and "handler x = Process_accept \<Longrightarrow> 0 < room (wpool w)"
  shows "wp (run_handler (handler x) os c w) (conn_inv base N W)"
  using assms process_accept_inv process_read_inv process_write_inv process_read_frontend_inv
    process_write_backend_inv process_read_backend_inv process_write_frontend_inv
  by (cases "handler x") simp_all

lemma dispatch_inv:
  assumes inv: "conn_inv base N W w" and os: "os_ok base os" and c: "c \<in> live (wpool w)"
    and room: "handler (ctxs w c) = Process_accept \<Longrightarrow> 0 < room (wpool w)"
  shows "wp (dispatch os (c, ev) w) (conn_inv base N W)"
proof -
  let ?x = "ctxs w c" and ?y = "(ctxs w c)\<lparr>events := ev\<rparr>"
  let ?w = "w\<lparr>wpool := (wpool w)\<lparr>arr := (arr (wpool w))[c := ?y]\<rparr>\<rparr>"
  note f = focI [OF inv c]
  have ok: "ctx_ok N W ?x" using inv c by (simp add: conn_inv_def)
  have g: "foc base N W {} c ?y ?w"
    by (rule foc_upd [OF f]) (use foc_acct [OF f] foc_sizes [OF f] in \<open>auto simp: owned_def sizes_ok_def\<close>)
  have "pool_ok (wpool w)" using inv by (simp add: conn_inv_def acct_def)
  note u = pool_upd [OF this c]
  have "wp (run_handler (handler ?y) os c ?w) (conn_inv base N W)"
    by (rule run_handler_inv [OF g os]) (use ok room u in \<open>simp_all add: ctx_ok_def web_handler_def split: handler.splits\<close>)
  moreover have "c < length (arr (wpool w))" by (rule live_bound [OF c])
  ultimately show ?thesis
    by (simp add: dispatch_def ctx_upd_def ctx_get_def Let_def ctxs_def)
qed

text \<open>A run of the event loop: each event is for a context in use, as \<open>epoll\<close> reports it.\<close>

inductive serves :: "os \<Rightarrow> worker \<Rightarrow> worker \<Rightarrow> bool" for os where
  "c \<in> live (wpool w) \<Longrightarrow> (handler (ctxs w c) = Process_accept \<Longrightarrow> 0 < room (wpool w)) \<Longrightarrow>
     dispatch os (c, ev) w = Some w' \<Longrightarrow> serves os w w'"

inductive_cases servesE: "serves os w w'"

lemma serves_inv: "conn_inv base N W w \<Longrightarrow> os_ok base os \<Longrightarrow> serves os w w' \<Longrightarrow> conn_inv base N W w'"
  by (elim servesE) (metis dispatch_inv option.inject wpD)

subsection \<open>Set-up\<close>

definition setup_cfg :: "nat \<Rightarrow> config \<Rightarrow> bool" where
  "setup_cfg N cfg \<longleftrightarrow> length (pa_list cfg) = 32 \<and> (enable_proxy_opt cfg \<longrightarrow> pa_count cfg = int N \<and> 0 < N \<and> N \<le> 32)"

lemma alloc_sizes:
  assumes "acct base X w" "alloc_context (wpool w) = Some (k, p)"
  shows "sizes_ok (arr p ! k)"
proof -
  from assms(2) have "k < length (arr (wpool w))" "arr p ! k = (arr (wpool w) ! k)\<lparr>fd := 0, fd_added := 0, end_fd := 0, end_fd_added := 0, next_idx := -1\<rparr>"
    by (auto simp: alloc_context_def Let_def split: if_splits)
  moreover from this assms(1) have "sizes_ok (arr (wpool w) ! k)" by (simp add: acct_def)
  ultimately show ?thesis by (simp add: sizes_ok_def)
qed

lemma acct_trace: "received e = {} \<Longrightarrow> closed_fd e = {} \<Longrightarrow> conn_inv base N W (w\<lparr>trace := trace w @ [e]\<rparr>) = conn_inv base N W w"
  by (simp add: conn_inv_def acct_def)

definition listener :: "config \<Rightarrow> int \<Rightarrow> int \<Rightarrow> nat \<Rightarrow> conn_context \<Rightarrow> conn_context" where
  "listener cfg cpu ep i x =
     (let x = x\<lparr>fd := listen_fd (la cfg ! i), handler := Process_accept, cpu_id := cpu, ep_fd := ep,
              enable_proxy := (if enable_proxy_opt cfg then 1 else 0)\<rparr>
      in if enable_proxy_opt cfg then x\<lparr>pa_num := pa_count cfg,
            pa := take (nat (pa_count cfg)) (pa_list cfg) @ drop (nat (pa_count cfg)) (pa x)\<rparr> else x)"

lemma listener_step:
  assumes "alloc_context (wpool w) = Some (c, p)" "setup_cfg N cfg" "i < length (la cfg)" "length (arr p) = length (arr (wpool w))"
  shows "add_listeners os cfg cpu ep i (Suc k) w =
     (let w' = w\<lparr>wpool := p\<lparr>arr := (arr p)[c := listener cfg cpu ep i (arr p ! c)]\<rparr>\<rparr>;
          r = os (trace w) (Epoll_add ep (listen_fd (la cfg ! i)) (EPOLLIN OR EPOLLHUP OR EPOLLERR) c);
          e = (Epoll_add ep (listen_fd (la cfg ! i)) (EPOLLIN OR EPOLLHUP OR EPOLLERR) c, r)
      in if ret r < 0 then None else add_listeners os cfg cpu ep (Suc i) k (w'\<lparr>trace := trace w @ [e]\<rparr>))"
proof -
  have "c < length (arr (wpool w))" using assms(1) by (auto simp: alloc_context_def Let_def split: if_splits)
  with assms show ?thesis
    by (simp add: listener_def ctx_upd_def ctx_get_def sys_def Let_def setup_cfg_def)
qed

lemma add_listeners_inv:
  assumes "conn_inv base N W w" "setup_cfg N cfg" "0 \<le> cpu" "cpu < int W"
    and "add_listeners os cfg cpu ep i k w = Some w'"
  shows "conn_inv base N W w'"
  using assms(1,5)
proof (induction k arbitrary: i w)
  case (Suc k)
  from Suc.prems(2) obtain c p where al: "alloc_context (wpool w) = Some (c, p)" by (auto simp: Option.bind_eq_Some_conv)
  from Suc.prems(2) al have i: "i < length (la cfg)" by (auto split: if_splits)
  have a: "acct base {} w" using Suc.prems(1) by (simp add: conn_inv_def)
  then have po: "pool_ok (wpool w)" by (simp add: acct_def)
  from pool.full_law [OF po] al have r: "0 < room (wpool w)" by (cases "room (wpool w)") auto
  let ?x = "listener cfg cpu ep i (arr p ! c)"
  have y: "owned ?x = {}" "handler ?x = Process_accept" by (simp_all add: owned_def listener_def Let_def)
  have sx: "sizes_ok ?x" using alloc_sizes [OF a al] assms(2) by (auto simp: sizes_ok_def setup_cfg_def listener_def Let_def)
  note n = alloc_acct [OF a al r y(1) _ sx, unfolded y(2), simplified]
  have ok: "ctx_ok N W ?x" using assms(2-4) by (auto simp: ctx_ok_def setup_cfg_def web_handler_def listener_def Let_def)
  have "conn_inv base N W (w\<lparr>wpool := p\<lparr>arr := (arr p)[c := ?x]\<rparr>\<rparr>)"
    using n ok Suc.prems(1) unfolding conn_inv_def by auto
  then have "conn_inv base N W (w\<lparr>wpool := p\<lparr>arr := (arr p)[c := ?x]\<rparr>, trace := trace w @ [e]\<rparr>)"
    if "received e = {}" "closed_fd e = {}" for e using acct_trace [OF that, of base N W "w\<lparr>wpool := p\<lparr>arr := (arr p)[c := ?x]\<rparr>\<rparr>"] by simp
  note inv' = this
  show ?case
    using Suc.prems(2) unfolding listener_step [OF al assms(2) i n(6)]
    by (auto simp: Let_def split: if_splits elim!: Suc.IH [rotated] intro!: inv')
qed simp

lemma add_listeners_wdata: "add_listeners os cfg cpu e i k w = Some w' \<Longrightarrow> wdata w' = wdata w"
  by (induction k arbitrary: i w) (fastforce simp: Option.bind_eq_Some_conv ctx_upd_def ctx_get_def sys_def Let_def split: if_splits)+

lemma setup_cpu: "process_clients_setup os ncpu cfg garbage cpu w = Some w' \<Longrightarrow> 0 \<le> cpu \<and> cpu < int (length (wdata w))"
  by (fastforce simp: process_clients_setup_def bind_process_cpu_def Option.bind_eq_Some_conv sys_def Let_def wd_upd_def
    split: if_splits prod.splits dest: add_listeners_wdata)

lemma setup_inv:
  assumes "process_clients_setup os ncpu cfg garbage cpu w = Some w'" "trace w = []" "last_backend w = 0"
    and "\<forall>x \<in> set garbage. sizes_ok x" "setup_cfg N cfg"
  shows "conn_inv base N (length (wdata w)) w'"
proof -
  obtain p e w1 w2 where s: "init_pool (int MAX_CONNS_PER_WORKER) garbage = Some p"
    "add_listeners os cfg cpu e 0 (nat (la_num cfg)) w1 = Some w2" "wpool w1 = p" "wdata w1 = wdata w" "last_backend w1 = 0"
    "wd_upd cpu (\<lambda>d. d\<lparr>polls_min := of_nat EVENTS_PER_BATCH\<rparr>) w2 = Some w'"
    "trace w1 = [(Setaffinity cpu, os [] (Setaffinity cpu)), (Epoll_create 8192, os (trace w @ [(Setaffinity cpu, os [] (Setaffinity cpu))]) (Epoll_create 8192))]"
    "0 \<le> cpu"
    using assms(1-3) unfolding process_clients_setup_def bind_process_cpu_def
    by (auto simp: Option.bind_eq_Some_conv sys_def Let_def split: if_splits prod.splits)
  have g: "length garbage = nat (int MAX_CONNS_PER_WORKER)" using s(1) by (auto simp: init_pool_def split: if_splits)
  have arr: "\<forall>x \<in> set (arr p). sizes_ok x"
    using s(1) assms(4) by (auto simp: init_pool_def sizes_ok_def split: if_splits)
  have c0: "conn_inv base N (length (wdata w)) w1"
    using init_pool_ok [OF _ g] s arr by (auto simp: conn_inv_def acct_def ctxs_def open_fds_def closes_ok_def less_Suc_eq)
  have len: "wdata v' = wdata v" if "add_listeners os cfg cpu e i k v = Some v'" for i k v v'
    using that by (induction k arbitrary: i v) (fastforce simp: Option.bind_eq_Some_conv ctx_upd_def ctx_get_def sys_def Let_def split: if_splits)+
  from s(6,8) len [OF s(2)] s(4) have cpu: "cpu < int (length (wdata w))" by (auto simp: wd_upd_def split: if_splits)
  have "conn_inv base N (length (wdata w)) w2" by (rule add_listeners_inv [OF c0 assms(5) s(8) cpu s(2)])
  then show ?thesis using s(6) by (auto simp: wd_upd_def conn_inv_def split: if_splits)
qed

definition worker_starts :: "os \<Rightarrow> config \<Rightarrow> nat \<Rightarrow> nat \<Rightarrow> worker \<Rightarrow> bool" where
  "worker_starts os cfg N W w \<longleftrightarrow> setup_cfg N cfg \<and> (\<exists>ncpu garbage cpu w0. process_clients_setup os ncpu cfg garbage cpu w0 = Some w \<and>
     trace w0 = [] \<and> last_backend w0 = 0 \<and> length (wdata w0) = W \<and> (\<forall>x \<in> set garbage. sizes_ok x))"

interpretation server: invariant_machine "worker_starts os cfg N W" "serves os" "\<lambda>w. os_ok base os \<longrightarrow> conn_inv base N W w"
  for os cfg N W base
  by unfold_locales (auto simp: worker_starts_def dest: setup_inv serves_inv)

end
