(* ===== verification/Server_Correct.thy ===== *)
theory Server_Correct
  imports Server_Safe
begin

text \<open>The properties of \<open>mult_process_server\<close>.\<close>

subsection \<open>Test data\<close>


text \<open>A kernel that never fails: a new descriptor is larger than any it returned before.\<close>

definition fresh_fd :: "trace \<Rightarrow> int" where
  "fresh_fd tr = foldl (\<lambda>m e. max m (1 + ret (snd e))) 10 tr"

definition demo_os :: os where
  "demo_os tr c = (case c of
      Accept f \<Rightarrow> \<lparr>ret = fresh_fd tr, errno = 0, bytes = []\<rparr>
    | Socket \<Rightarrow> \<lparr>ret = fresh_fd tr, errno = 0, bytes = []\<rparr>
    | Read f n \<Rightarrow> (let b = take n [71, 69, of_nat (length tr)] in \<lparr>ret = int (length b), errno = 0, bytes = b\<rparr>)
    | Write f b \<Rightarrow> \<lparr>ret = int (length b), errno = 0, bytes = []\<rparr>
    | _ \<Rightarrow> \<lparr>ret = 0, errno = 0, bytes = []\<rparr>)"

definition demo_addr :: proxy_addr where
  "demo_addr = \<lparr>param_port = 8080, proxyip = 0x0100007F, param_ip = []\<rparr>"

definition demo_ctx :: "handler \<Rightarrow> int \<Rightarrow> int \<Rightarrow> conn_context" where
  "demo_ctx h f g = \<lparr>fd = f, fd_added = (if h = Process_accept then 0 else 1), end_fd = g, end_fd_added = (if g = 0 then 0 else 1),
     flags = (if g = 0 then 0 else 1), ep_fd = 3, cpu_id = 0, handler = h, events = 0, data_len = 0, next_idx = -1,
     buf = replicate 2048 0, pa_num = 1, pa = replicate 32 demo_addr, enable_proxy = (if g = 0 then 0 else 1)\<rparr>"

definition demo_worker :: "handler \<Rightarrow> int \<Rightarrow> int \<Rightarrow> worker" where
  "demo_worker h f g = \<lparr>wpool = \<lparr>total = 4, allocated = 2, pool_next = 2,
      arr = [demo_ctx Process_accept 4 0, demo_ctx h f g, (demo_ctx Process_read 0 0)\<lparr>next_idx := 3\<rparr>, demo_ctx Process_read 0 0]\<rparr>,
    wdata = [zero_data], last_backend = 0, trace = []\<rparr>"

lemma fresh_fd: "10 \<le> fresh_fd tr" "f \<in> open_fds tr \<Longrightarrow> f < fresh_fd tr"
proof (induction tr rule: rev_induct)
  case (snoc e tr)
  have e: "f \<in> received e \<Longrightarrow> f = ret (snd e)" by (cases e rule: received.cases) (auto split: if_splits)
  { case 1 then show ?case using snoc(1) by (simp add: fresh_fd_def) }
  { case 2 then show ?case using snoc(2) e by (auto simp: fresh_fd_def) }
qed (simp_all add: fresh_fd_def)


definition demo_cfg :: config where
  "demo_cfg = \<lparr>enable_verbose = False, enable_proxy_opt = False, enable_debug = False, process_mode = True,
     specified_log_file = False, log_path = [], start_cpu = 0, num_workers = 1, la_num = 1,
     la = replicate 32 \<lparr>lparam_port = 80, listenip = 0, lparam_ip = [], listen_fd = 4\<rparr>,
     pa_count = 0, pa_list = replicate 32 demo_addr\<rparr>"


subsection \<open>Resources over a run\<close>





subsection \<open>Defects of the event loop\<close>


text \<open>When every context of the pool is in use, accepting one more connection fails the \<open>assert\<close> of
  \<open>alloc_context\<close> and aborts the worker.\<close>

theorem accept_full_aborts:
  assumes "pool_ok (wpool w)" "room (wpool w) = 0" "ctx_get w c = Some x" "events x AND (EPOLLHUP OR EPOLLERR) = 0"
    and "0 \<le> ret (os (trace w) (Accept (fd x)))"
  shows "process_accept os c w = None"
  using assms pool.full_law [OF assms(1,2)] by (simp add: process_accept_def sys_def Let_def)

definition full_worker :: worker where
  "full_worker = \<lparr>wpool = \<lparr>total = 1, allocated = 1, pool_next = -1, arr = [demo_ctx Process_accept 4 0]\<rparr>,
     wdata = [zero_data], last_backend = 0, trace = []\<rparr>"

theorem accept_full_aborts_witness: "process_accept demo_os 0 full_worker = None"
proof (rule accept_full_aborts [where x = "demo_ctx Process_accept 4 0"])
  have "free_rep (wpool full_worker) []" by (simp add: free_rep_def full_worker_def)
  then show "pool_ok (wpool full_worker)" by (rule pool_okI)
qed (simp_all add: full_worker_def room_def ctx_get_def demo_ctx_def demo_os_def fresh_fd_def)

text \<open>With a first CPU number of 1 or more the worker of the last CPU writes its statistics past the shared array,
  which has one entry per worker.\<close>

theorem start_cpu_overflow:
  assumes "init_processes cfg pids = Some ds" "1 \<le> start_cpu cfg" "1 \<le> num_workers cfg" "wdata w = ds"
  shows "process_clients_setup os ncpu cfg garbage (start_cpu cfg + num_workers cfg - 1) w = None"
proof -
  have len: "fork_workers s i ps ds = Some ds' \<Longrightarrow> length ds' = length ds" for s i ps ds ds'
    by (induction s i ps ds rule: fork_workers.induct) (auto simp: Let_def split: if_splits)
  have "int (length ds) = num_workers cfg"
    using assms(1,3) len by (fastforce simp: init_processes_def split: if_splits)
  then show ?thesis
    using setup_cpu [of os ncpu cfg garbage "start_cpu cfg + num_workers cfg - 1" w] assms(2,4)
    by (cases "process_clients_setup os ncpu cfg garbage (start_cpu cfg + num_workers cfg - 1) w") auto
qed

theorem start_cpu_overflow_witness:
  "init_processes (demo_cfg\<lparr>start_cpu := 1\<rparr>) [7] \<noteq> None \<and>
   process_clients_setup demo_os 4 (demo_cfg\<lparr>start_cpu := 1\<rparr>) [] 1
     ((demo_worker Process_read 5 0)\<lparr>wdata := the (init_processes (demo_cfg\<lparr>start_cpu := 1\<rparr>) [7])\<rparr>) = None"
proof -
  have i: "init_processes (demo_cfg\<lparr>start_cpu := 1\<rparr>) [7] \<noteq> None" by (simp add: init_processes_def demo_cfg_def Let_def)
  then obtain ds where ds: "init_processes (demo_cfg\<lparr>start_cpu := 1\<rparr>) [7] = Some ds" by blast
  from start_cpu_overflow [OF ds, of "(demo_worker Process_read 5 0)\<lparr>wdata := ds\<rparr>" demo_os 4 "[]"] ds
  show ?thesis by (simp add: demo_cfg_def)
qed

text \<open>A second \<open>-a\<close> starts again at the first entry but counts on: with \<open>-a A -a B\<close> the server listens on B
  and on the entry that no argument has set.\<close>

theorem repeated_listen_option:
  assumes "aton (str ''10.0.0.1'') = Some a" "aton (str ''10.0.0.2'') = Some b"
    and "length (la cfg) = MAX_ADDRESS"
  shows "case parse_args aton [str ''-a'', str ''10.0.0.1:80'', str ''-a'', str ''10.0.0.2:81''] cfg of
      None \<Rightarrow> False
    | Some cfg' \<Rightarrow> la_num cfg' = la_num cfg + 2 \<and> listenip (la cfg' ! 0) = b \<and> lparam_port (la cfg' ! 0) = 81 \<and>
        la cfg' ! 1 = la cfg ! 1"
proof -
  have sp: "split_addr (str ''10.0.0.1:80'') = Some (str ''10.0.0.1'', str ''80'')" "split_addr (str ''10.0.0.2:81'') = Some (str ''10.0.0.2'', str ''81'')"
    "split_addr (str ''-a'') = None" by code_simp+
  have sc: "scan_int (str ''80'') = Some 80" "scan_int (str ''81'') = Some 81" by code_simp+
  have ln: "length (str ''10.0.0.1'') < 32" "length (str ''10.0.0.2'') < 32" by code_simp+
  have ne: "(str ''-a'' = str ''-d'') = False" "(str ''-a'' = str ''-v'') = False" "(str ''-a'' = str ''-o'') = False" "(str ''-a'' = str ''-c'') = False"
    "(str ''-a'' = str ''-w'') = False" by code_simp+
  show ?thesis
    using assms by (simp add: parse_args.simps sp sc ln ne set_listen_def Let_def)
qed

theorem repeated_listen_option_witness:
  "parse_args (\<lambda>s. Some 7) [str ''-a'', str ''10.0.0.1:80'', str ''-a'', str ''10.0.0.2:81''] demo_cfg \<noteq> None"
  using repeated_listen_option [of "\<lambda>s. Some 7" 7 7 demo_cfg] by (auto simp: demo_cfg_def split: option.splits)

subsection \<open>Statistics\<close>

text \<open>The workers count between two ticks; only the parent writes \<open>trancnt_prev\<close>.\<close>

definition counts :: "worker_data list \<Rightarrow> worker_data list \<Rightarrow> bool" where
  "counts ds ds' \<longleftrightarrow> map trancnt_prev ds' = map trancnt_prev ds"

text \<open>\<open>ticks ds us\<close>: the numbers reported when the table is \<open>us\<close> at each tick, and the last table.\<close>

fun ticks :: "worker_data list list \<Rightarrow> u64 list" where
  "ticks [] = []"
| "ticks (u # us) = fst (stats_tick u) # ticks us"

fun tick_run :: "worker_data list \<Rightarrow> worker_data list list \<Rightarrow> bool" where
  "tick_run ds [] = True"
| "tick_run ds (u # us) \<longleftrightarrow> counts ds u \<and> tick_run (snd (stats_tick u)) us"

lemma stats_tick_fst: "fst (stats_tick ds) = sum_list (map trancnt ds) - sum_list (map trancnt_prev ds)"
proof -
  have "foldl (\<lambda>s d. s + (trancnt d - trancnt_prev d)) s ds = s + (sum_list (map trancnt ds) - sum_list (map trancnt_prev ds))" for s
    by (induction ds arbitrary: s) (simp_all add: algebra_simps)
  then show ?thesis by (simp add: stats_tick_def)
qed

lemma stats_tick_snd: "map trancnt_prev (snd (stats_tick ds)) = map trancnt ds"
  by (simp add: stats_tick_def o_def)

text \<open>The numbers of requests the parent reports, one per tick, add up (modulo \<open>2\<^sup>6\<^sup>4\<close>) to the transactions
  the workers counted from the first tick to the last: none is lost and none reported twice.\<close>

theorem stats_total:
  assumes "tick_run ds us" "us \<noteq> []"
  shows "sum_list (ticks us) = sum_list (map trancnt (last us)) - sum_list (map trancnt_prev ds)"
  using assms
proof (induction us arbitrary: ds)
  case (Cons u us)
  then have "map trancnt_prev u = map trancnt_prev ds" by (simp add: counts_def)
  then show ?case using Cons.prems Cons.IH [of "snd (stats_tick u)"]
    by (cases "us = []") (simp_all add: stats_tick_fst stats_tick_snd)
qed simp

theorem stats_total_witness:
  "sum_list (ticks [[zero_data\<lparr>trancnt := 5\<rparr>], [zero_data\<lparr>trancnt := 12, trancnt_prev := 5\<rparr>]]) = 12"
  using stats_total [of "[zero_data]" "[[zero_data\<lparr>trancnt := 5\<rparr>], [zero_data\<lparr>trancnt := 12, trancnt_prev := 5\<rparr>]]"]
  by (simp add: counts_def stats_tick_def zero_data_def)

subsection \<open>Serving requests\<close>

lemmas step_defs = dispatch_def ctx_get_def ctx_upd_def wd_upd_def sys_def Let_def

fun written :: "syscall \<times> reply \<Rightarrow> (int \<times> u8 list) list" where
  "written (Write f b, r) = [(f, b)]"
| "written _ = []"

definition writes :: "trace \<Rightarrow> (int \<times> u8 list) list" where
  "writes tr = concat (map written tr)"

lemma writes_simps [simp]: "writes [] = []" "writes (e # tr) = written e @ writes tr" "writes (tr @ tr') = writes tr @ writes tr'"
  by (simp_all add: writes_def)

text \<open>A request on a web connection that becomes readable and then writable is answered with the fixed
  page, counted as one transaction, and the connection waits for the next request.\<close>

theorem web_request_response:
  assumes "ctx_get w c = Some x" "handler x = Process_read" "0 \<le> cpu_id x" "nat (cpu_id x) < length (wdata w)"
    and "\<And>tr f. 0 < ret (os tr (Read f MAX_BUFSIZE))" "\<And>tr s. (\<forall>f n. s \<noteq> Read f n) \<Longrightarrow> 0 \<le> ret (os tr s)"
  shows "wp (dispatch_all os [(c, EPOLLIN), (c, EPOLLOUT)] w) (\<lambda>w'.
     writes (trace w') = writes (trace w) @ [(fd x, http_200)] \<and>
     wdata w' = (wdata w)[nat (cpu_id x) := (wdata w ! nat (cpu_id x))\<lparr>trancnt := trancnt (wdata w ! nat (cpu_id x)) + 1\<rparr>] \<and>
     handler (ctxs w' c) = Process_read \<and> fd (ctxs w' c) = fd x \<and> open_fds (trace w') = open_fds (trace w))"
proof -
  have c: "c < length (arr (wpool w))" "arr (wpool w) ! c = x" using assms(1) by (auto simp: ctx_get_def split: if_splits)
  have r: "\<not> ret (os tr (Read f 2048)) < 0" "ret (os tr (Read f 2048)) \<noteq> 0" for tr f using assms(5) [of tr f] by auto
  have o: "\<not> ret (os tr (Write f b)) < 0" "\<not> ret (os tr (Epoll_mod e f v k)) < 0" for tr f b e v k
    using assms(6) [of "Write f b" tr] assms(6) [of "Epoll_mod e f v k" tr] by auto
  show ?thesis
    using assms(2-4) by (simp add: step_defs process_read_def process_write_def c r o nth_list_update ctxs_def open_fds_def)
qed

text \<open>A sequence of choices.\<close>

fun picks :: "nat \<Rightarrow> conn_context \<Rightarrow> worker \<Rightarrow> ((u32 \<times> u32) list \<times> worker) option" where
  "picks 0 x w = Some ([], w)"
| "picks (Suc k) x w = do { (a, w) \<leftarrow> select_backend x w; (as, w) \<leftarrow> picks k x w; Some (a # as, w) }"

text \<open>The backends are taken in turn: the \<open>j\<close>-th of a sequence of choices is backend \<open>last_backend + j\<close> modulo
  their number.\<close>

theorem select_round_robin:
  assumes "pa_num x = int N" "N \<le> length (pa x)" "last_backend w < N"
  shows "picks k x w = Some (map (\<lambda>j. let a = pa x ! ((last_backend w + j) mod N) in (proxyip a, of_int (param_port a) AND 0xFFFF)) [0..<k],
    w\<lparr>last_backend := (last_backend w + k) mod N\<rparr>)"
  using assms(3)
proof (induction k arbitrary: w)
  case (Suc k)
  let ?l = "last_backend w"
  define n where "n = (if ?l + 1 = N then 0 else ?l + 1)"
  have n: "n < N" using Suc.prems by (auto simp: n_def)
  have m: "(n + j) mod N = (?l + Suc j) mod N" for j
    using mod_add_left_eq [of "?l + 1" N j] Suc.prems by (auto simp: n_def)
  have s: "select_backend x w = Some ((proxyip (pa x ! ?l), of_int (param_port (pa x ! ?l)) AND 0xFFFF), w\<lparr>last_backend := n\<rparr>)"
    using assms(1,2) Suc.prems by (simp add: select_backend_def Let_def n_def)
  have "picks k x (w\<lparr>last_backend := n\<rparr>) = Some (map (\<lambda>j. let a = pa x ! ((?l + Suc j) mod N) in (proxyip a, of_int (param_port a) AND 0xFFFF)) [0..<k],
      w\<lparr>last_backend := (?l + Suc k) mod N\<rparr>)"
    using Suc.IH [of "w\<lparr>last_backend := n\<rparr>"] n by (simp add: m)
  with s Suc.prems show ?case by (simp add: upt_conv_Cons map_Suc_upt [symmetric] o_def Let_def del: upt_Suc)
qed simp

fun got :: "syscall \<times> reply \<Rightarrow> (int \<times> u8 list) list" where
  "got (Read f n, r) = [(f, bytes r)]"
| "got _ = []"

definition reads :: "trace \<Rightarrow> (int \<times> u8 list) list" where
  "reads tr = concat (map got tr)"

lemma reads_simps [simp]: "reads [] = []" "reads (e # tr) = got e @ reads tr" "reads (tr @ tr') = reads tr @ reads tr'"
  by (simp_all add: reads_def)








definition demo_proxy :: worker where
  "demo_proxy = (demo_worker Process_read_frontend 5 0)\<lparr>trace := [(Accept 4, \<lparr>ret = 5, errno = 0, bytes = []\<rparr>)]\<rparr>"



theorem select_round_robin_witness:
  "\<exists>w'. picks 2 (demo_ctx Process_read_frontend 5 0) demo_proxy = Some ([(0x0100007F, 8080), (0x0100007F, 8080)], w')"
  using select_round_robin [of "demo_ctx Process_read_frontend 5 0" 1 demo_proxy 2]
  by (simp add: demo_ctx_def demo_proxy_def demo_worker_def demo_addr_def numeral_2_eq_2 Let_def)

theorem web_request_response_witness:
  "wp (dispatch_all demo_os [(1, EPOLLIN), (1, EPOLLOUT)] (demo_worker Process_read 5 0)) (\<lambda>w'. writes (trace w') = [(5, http_200)])"
proof -
  have "0 < ret (demo_os tr (Read f MAX_BUFSIZE))" for tr f by (simp add: demo_os_def Let_def)
  moreover have "(\<forall>f n. s \<noteq> Read f n) \<Longrightarrow> 0 \<le> ret (demo_os tr s)" for tr s
    using fresh_fd(1) [of tr] by (cases s) (auto simp: demo_os_def Let_def)
  moreover have "ctx_get (demo_worker Process_read 5 0) 1 = Some (demo_ctx Process_read 5 0)" "writes (trace (demo_worker Process_read 5 0)) = []"
    "handler (demo_ctx Process_read 5 0) = Process_read" "cpu_id (demo_ctx Process_read 5 0) = 0" "fd (demo_ctx Process_read 5 0) = 5"
    "length (wdata (demo_worker Process_read 5 0)) = 1"
    by (simp_all add: demo_worker_def demo_ctx_def ctx_get_def)
  ultimately show ?thesis
    using web_request_response [of "demo_worker Process_read 5 0" 1 "demo_ctx Process_read 5 0" demo_os]
    by (auto elim!: wp_mono simp del: dispatch_all.simps)
qed

subsection \<open>The pool\<close>

text \<open>A new pool of \<open>n\<close> contexts hands out \<open>n\<close> different ones and then refuses; a context given back is the
  next one handed out.\<close>

theorem pool_correct:
  assumes "init_pool n garbage = Some p" "k \<le> nat n"
  shows "wp (pool.alloc_many k p) (\<lambda>(is, q). length is = k \<and> distinct is \<and>
     (k = nat n \<longrightarrow> alloc_context q = None) \<and>
     (\<forall>i \<in> set is. wp (do { q \<leftarrow> free_context q i; alloc_context q }) (\<lambda>(j, r). j = i \<and> live r = live q)))"
proof -
  from assms(1) have "0 < n" "length garbage = nat n" by (auto simp: init_pool_def split: if_splits)
  with init_pool_ok [of n garbage] assms(1) have p: "pool_ok p" "live p = {}" "room p = nat n" by auto
  from pool.alloc_many [OF p(1), of k] assms(2) p
  obtain js q where q: "pool.alloc_many k p = Some (js, q)" "pool_ok q" "length js = k" "distinct js" "live q = set js" "room q + k = nat n"
    by (auto elim!: wpE)
  have "k = nat n \<longrightarrow> alloc_context q = None" using q(6) pool.full_law [OF q(2)] by simp
  moreover have "wp (do { q \<leftarrow> free_context q i; alloc_context q }) (\<lambda>(j, r). j = i \<and> live r = live q)" if "i \<in> set js" for i
    using pool.release_alloc [OF q(2), of i] that q(5) by (auto elim!: wp_mono)
  ultimately show ?thesis using q by simp
qed

theorem pool_correct_witness:
  "init_pool 2 (replicate 2 (demo_ctx Process_read 0 0)) \<noteq> None \<and>
   wp (pool.alloc_many 2 (the (init_pool 2 (replicate 2 (demo_ctx Process_read 0 0))))) (\<lambda>(is, q). length is = 2 \<and> distinct is \<and> alloc_context q = None)"
proof -
  obtain p where p: "init_pool 2 (replicate 2 (demo_ctx Process_read 0 0)) = Some p" by (simp add: init_pool_def)
  from pool_correct [OF p, of 2] p show ?thesis by (auto elim!: wp_mono)
qed

end
