(* ===== verification/Task_Queue.thy ===== *)
theory Task_Queue
  imports Prelude
begin

text \<open>
  The queues of the two C thread pools under \<open>src/threadpool\<close>: the linked list of
  \<open>threadpool(C Implement)/threadpool.c\<close> and the ring buffer of
  \<open>threadpool(C Implement+plus)/threadpool.c\<close>. Both are instances of the interface
  \<open>task_queue\<close>, which the pools rely on: tasks leave the queue in the order they entered it.
  The definitions here are the parts of the pools' functions that run with the mutex held.
\<close>

subsection \<open>The interface\<close>

datatype 'a queue_op = Add 'a | Take

locale task_queue =
  fixes ok :: "'q \<Rightarrow> bool"
    and items :: "'q \<Rightarrow> 'j list"
    and free_for :: "'a \<Rightarrow> 'q \<Rightarrow> bool"
    and val :: "'a \<Rightarrow> 'j"
    and add :: "'a \<Rightarrow> 'q \<Rightarrow> 'q option"
    and take_one :: "'q \<Rightarrow> ('j \<times> 'q) option"
  assumes add_law: "ok q \<Longrightarrow> free_for a q \<Longrightarrow> wp (add a q) (\<lambda>q'. ok q' \<and> items q' = items q @ [val a])"
    and take_law: "ok q \<Longrightarrow> items q = x # xs \<Longrightarrow> wp (take_one q) (\<lambda>(y, q'). y = x \<and> ok q' \<and> items q' = xs)"
begin

text \<open>A sequence of operations and the tasks it takes out.\<close>

fun run :: "'a queue_op list \<Rightarrow> 'q \<Rightarrow> ('j list \<times> 'q) option" where
  "run [] q = Some ([], q)"
| "run (Add a # ops) q = do { q \<leftarrow> add a q; run ops q }"
| "run (Take # ops) q = do { (j, q) \<leftarrow> take_one q; (js, q) \<leftarrow> run ops q; Some (j # js, q) }"

text \<open>The sequences the pools make: room for each task added, a task in the queue for each taken.\<close>

fun allowed :: "'a queue_op list \<Rightarrow> 'q \<Rightarrow> bool" where
  "allowed [] q = True"
| "allowed (Add a # ops) q \<longleftrightarrow> free_for a q \<and> (case add a q of None \<Rightarrow> True | Some q' \<Rightarrow> allowed ops q')"
| "allowed (Take # ops) q \<longleftrightarrow> items q \<noteq> [] \<and> (case take_one q of None \<Rightarrow> True | Some (j, q') \<Rightarrow> allowed ops q')"

fun added :: "'a queue_op list \<Rightarrow> 'j list" where
  "added [] = []"
| "added (Add a # ops) = val a # added ops"
| "added (Take # ops) = added ops"

lemma fifo: "ok q \<Longrightarrow> allowed ops q \<Longrightarrow> wp (run ops q) (\<lambda>(js, q'). ok q' \<and> js @ items q' = items q @ added ops)"
proof (induction ops arbitrary: q)
  case (Cons a ops)
  show ?case
  proof (cases a)
    case (Add x)
    then obtain q' where "add x q = Some q'" "ok q'" "items q' = items q @ [val x]"
      using Cons.prems add_law [of q x] by (auto elim!: wpE)
    then show ?thesis using Add Cons.prems Cons.IH [of q'] by auto
  next
    case Take
    then obtain x xs where "items q = x # xs" using Cons.prems by (cases "items q") auto
    then obtain q' where "take_one q = Some (x, q')" "ok q'" "items q' = xs"
      using Cons.prems take_law [of q x xs] by (auto elim!: wpE)
    then show ?thesis using Take Cons.prems Cons.IH [of q'] \<open>items q = x # xs\<close> by (auto elim!: wpE)
  qed
qed simp

end

subsection \<open>The linked list\<close>

text \<open>\<open>jobs\<close> is the part of memory that holds the \<open>malloc\<close>ed jobs.\<close>

record job =
  callback_function :: nat
  job_arg :: ptr
  next_job :: ptr

record threadpool =
  thread_num :: int
  queue_max_num :: int
  head_job :: ptr
  tail_job :: ptr
  queue_cur_num :: int
  queue_close :: bool
  pool_close :: bool
  jobs :: "ptr \<rightharpoonup> job"

type_synonym task = "nat \<times> ptr"

definition enqueue :: "ptr \<times> task \<Rightarrow> threadpool \<Rightarrow> threadpool option" where
  "enqueue a pool = (case a of (p, f, x) \<Rightarrow> do {
     pool \<leftarrow> Some (pool\<lparr>jobs := (jobs pool)(p \<mapsto> \<lparr>callback_function = f, job_arg = x, next_job = NULL\<rparr>)\<rparr>);
     pool \<leftarrow> (if head_job pool = NULL then Some (pool\<lparr>head_job := p, tail_job := p\<rparr>)
             else do {
               js \<leftarrow> store (jobs pool) (tail_job pool) (next_job_update (\<lambda>_. p));
               Some (pool\<lparr>jobs := js, tail_job := p\<rparr>)
             });
     Some (pool\<lparr>queue_cur_num := queue_cur_num pool + 1\<rparr>)
   })"

definition dequeue :: "threadpool \<Rightarrow> (ptr \<times> threadpool) option" where
  "dequeue pool = do {
     pool \<leftarrow> Some (pool\<lparr>queue_cur_num := queue_cur_num pool - 1\<rparr>);
     p \<leftarrow> Some (head_job pool);
     if queue_cur_num pool = 0 then Some (p, pool\<lparr>head_job := NULL, tail_job := NULL\<rparr>)
     else do {
       n \<leftarrow> load (jobs pool) p next_job;
       Some (p, pool\<lparr>head_job := n\<rparr>)
     }
   }"

text \<open>After the callback: \<open>free(pjob)\<close>.\<close>

definition free_job :: "ptr \<Rightarrow> threadpool \<Rightarrow> threadpool option" where
  "free_job p pool = (if jobs pool p = None then None else Some (pool\<lparr>jobs := (jobs pool)(p := None)\<rparr>))"

text \<open>The pointers from \<open>p\<close> along \<open>next\<close>.\<close>

fun job_path :: "(ptr \<rightharpoonup> job) \<Rightarrow> ptr \<Rightarrow> ptr list \<Rightarrow> bool" where
  "job_path h p [] \<longleftrightarrow> p = NULL"
| "job_path h p (a # as) \<longleftrightarrow> p \<noteq> NULL \<and> a = p \<and> (\<exists>j. h p = Some j \<and> job_path h (next_job j) as)"

fun follow :: "(ptr \<rightharpoonup> job) \<Rightarrow> ptr \<Rightarrow> nat \<Rightarrow> ptr list" where
  "follow h p 0 = []"
| "follow h p (Suc n) = (case h p of None \<Rightarrow> [] | Some j \<Rightarrow> p # follow h (next_job j) n)"

definition job_ptrs :: "threadpool \<Rightarrow> ptr list" where
  "job_ptrs pool = follow (jobs pool) (head_job pool) (nat (queue_cur_num pool))"

definition task_at :: "threadpool \<Rightarrow> ptr \<Rightarrow> task" where
  "task_at pool p = (case jobs pool p of Some j \<Rightarrow> (callback_function j, job_arg j) | None \<Rightarrow> (0, 0))"

definition queue_tasks :: "threadpool \<Rightarrow> task list" where
  "queue_tasks pool = map (task_at pool) (job_ptrs pool)"

definition list_ok :: "threadpool \<Rightarrow> bool" where
  "list_ok pool \<longleftrightarrow> 0 \<le> queue_cur_num pool \<and> job_path (jobs pool) (head_job pool) (job_ptrs pool) \<and>
     length (job_ptrs pool) = nat (queue_cur_num pool) \<and> distinct (job_ptrs pool) \<and>
     (job_ptrs pool \<noteq> [] \<longrightarrow> tail_job pool = last (job_ptrs pool))"

lemma job_path_follow: "job_path h p ps \<Longrightarrow> follow h p (length ps) = ps"
  by (induction ps arbitrary: p) auto

lemma job_path_upd: "a \<notin> set ps \<Longrightarrow> job_path (h(a := v)) p ps = job_path h p ps"
  by (induction ps arbitrary: p) auto

lemma job_path_in: "job_path h p ps \<Longrightarrow> q \<in> set ps \<Longrightarrow> q \<noteq> NULL \<and> h q \<noteq> None"
  by (induction ps arbitrary: p) auto

lemma job_path_snoc:
  assumes "job_path h p (ps @ [t])" "a \<noteq> NULL" "a \<notin> set (ps @ [t])" "distinct (ps @ [t])" "h t = Some j" "h a = Some k" "next_job k = NULL"
  shows "job_path (h(t \<mapsto> j\<lparr>next_job := a\<rparr>)) p (ps @ [t, a])"
  using assms by (induction ps arbitrary: p) auto

lemma list_okI:
  assumes "job_path (jobs pool) (head_job pool) ps" "distinct ps" "queue_cur_num pool = int (length ps)" "ps \<noteq> [] \<Longrightarrow> tail_job pool = last ps"
  shows "list_ok pool" "job_ptrs pool = ps"
proof -
  show p: "job_ptrs pool = ps" using job_path_follow [OF assms(1)] assms(3) by (simp add: job_ptrs_def)
  show "list_ok pool" using assms by (simp add: list_ok_def p)
qed

definition fresh_job :: "ptr \<times> task \<Rightarrow> threadpool \<Rightarrow> bool" where
  "fresh_job a pool \<longleftrightarrow> fst a \<noteq> NULL \<and> jobs pool (fst a) = None"

lemma enqueue_ok:
  assumes "list_ok pool" "fresh_job (p, f, x) pool"
  shows "wp (enqueue (p, f, x) pool) (\<lambda>pool'. list_ok pool' \<and> job_ptrs pool' = job_ptrs pool @ [p] \<and>
     queue_tasks pool' = queue_tasks pool @ [(f, x)] \<and> queue_cur_num pool' = queue_cur_num pool + 1 \<and>
     (\<forall>q. q \<notin> set (job_ptrs pool) \<longrightarrow> q \<noteq> p \<longrightarrow> jobs pool' q = jobs pool q) \<and> dom (jobs pool') = insert p (dom (jobs pool)))"
proof -
  let ?ps = "job_ptrs pool" and ?j = "\<lparr>callback_function = f, job_arg = x, next_job = NULL\<rparr>"
  from assms(1) have o: "0 \<le> queue_cur_num pool" "job_path (jobs pool) (head_job pool) ?ps" "length ?ps = nat (queue_cur_num pool)"
    "distinct ?ps" "?ps \<noteq> [] \<Longrightarrow> tail_job pool = last ?ps" by (auto simp: list_ok_def)
  from assms(2) have p: "p \<noteq> NULL" "jobs pool p = None" by (auto simp: fresh_job_def)
  then have pn: "p \<notin> set ?ps" using job_path_in [OF o(2), of p] by auto
  show ?thesis
  proof (cases "?ps = []")
    case True
    then have h: "head_job pool = NULL" "queue_cur_num pool = 0" using o by auto
    let ?q = "pool\<lparr>jobs := (jobs pool)(p \<mapsto> ?j), head_job := p, tail_job := p, queue_cur_num := 1\<rparr>"
    have "enqueue (p, f, x) pool = Some ?q" using h by (simp add: enqueue_def)
    moreover have "job_ptrs ?q = [p]" "list_ok ?q" using list_okI [of ?q "[p]"] p by auto
    ultimately show ?thesis using True h by (auto simp: queue_tasks_def task_at_def)
  next
    case False
    then obtain qs t where ps: "?ps = qs @ [t]" by (cases ?ps rule: rev_cases) auto
    then have t: "tail_job pool = t" "jobs pool t \<noteq> None" "t \<noteq> p"
      using o job_path_in [OF o(2), of t] pn by auto
    have hd: "head_job pool \<noteq> NULL" using o(2) False by (cases ?ps) auto
    from t obtain j where j: "jobs pool t = Some j" by blast
    let ?h = "(jobs pool)(p \<mapsto> ?j, t \<mapsto> j\<lparr>next_job := p\<rparr>)"
    let ?q = "pool\<lparr>jobs := ?h, tail_job := p, queue_cur_num := queue_cur_num pool + 1\<rparr>"
    have e: "enqueue (p, f, x) pool = Some ?q" using t hd j by (simp add: enqueue_def)
    have "job_path ?h (head_job pool) (qs @ [t, p])"
      using job_path_snoc [of "(jobs pool)(p \<mapsto> ?j)" "head_job pool" qs t p j ?j] o p ps pn t j
      by (simp add: job_path_upd)
    moreover have "queue_cur_num pool = 1 + int (length qs)" using o(1,3) ps by simp
    ultimately have q: "job_ptrs ?q = ?ps @ [p]" "list_ok ?q"
      using list_okI [of ?q "?ps @ [p]"] o(4) pn ps by auto
    have "queue_tasks ?q = queue_tasks pool @ [(f, x)]"
      using pn j t(3) by (auto simp: queue_tasks_def q(1) task_at_def)
    with e q show ?thesis using ps j by (auto split: if_splits)
  qed
qed

lemma dequeue_ok:
  assumes "list_ok pool" "job_ptrs pool = p # ps"
  shows "wp (dequeue pool) (\<lambda>(q, pool'). q = p \<and> list_ok pool' \<and> job_ptrs pool' = ps \<and> jobs pool' = jobs pool \<and>
     queue_tasks pool' = tl (queue_tasks pool) \<and> queue_cur_num pool' = queue_cur_num pool - 1)"
proof -
  from assms obtain j where j: "head_job pool = p" "p \<noteq> NULL" "jobs pool p = Some j" "job_path (jobs pool) (next_job j) ps"
    "distinct (p # ps)" "queue_cur_num pool = 1 + int (length ps)" "tail_job pool = last (p # ps)"
    by (auto simp: list_ok_def)
  let ?q = "pool\<lparr>queue_cur_num := queue_cur_num pool - 1, head_job := next_job j, tail_job := (if ps = [] then NULL else tail_job pool)\<rparr>"
  have d: "dequeue pool = Some (p, ?q)" using j by (cases ps) (auto simp: dequeue_def)
  have "job_ptrs ?q = ps" "list_ok ?q" using list_okI [of ?q ps] j by auto
  then show ?thesis using d j by (auto simp: queue_tasks_def assms(2) task_at_def)
qed

text \<open>What a worker runs: the job is taken out of the list, its task read and the job freed after the callback.\<close>

definition take_task :: "threadpool \<Rightarrow> (task \<times> threadpool) option" where
  "take_task pool = do {
     (p, pool) \<leftarrow> dequeue pool;
     f \<leftarrow> load (jobs pool) p callback_function;
     x \<leftarrow> load (jobs pool) p job_arg;
     pool \<leftarrow> free_job p pool;
     Some ((f, x), pool)
   }"

lemma free_job_ok:
  assumes "list_ok pool" "p \<notin> set (job_ptrs pool)" "jobs pool p = Some j"
  shows "wp (free_job p pool) (\<lambda>pool'. list_ok pool' \<and> job_ptrs pool' = job_ptrs pool \<and> queue_tasks pool' = queue_tasks pool \<and>
     pool' = pool\<lparr>jobs := (jobs pool)(p := None)\<rparr>)"
proof -
  let ?q = "pool\<lparr>jobs := (jobs pool)(p := None)\<rparr>"
  have "job_ptrs ?q = job_ptrs pool" "list_ok ?q"
    using list_okI [of ?q "job_ptrs pool"] assms by (auto simp: list_ok_def job_path_upd)
  then show ?thesis using assms by (auto simp: free_job_def queue_tasks_def task_at_def)
qed

lemma take_task_ok:
  assumes "list_ok pool" "queue_tasks pool = t # ts"
  shows "wp (take_task pool) (\<lambda>(u, pool'). u = t \<and> list_ok pool' \<and> queue_tasks pool' = ts)"
proof -
  from assms(2) obtain p ps where ps: "job_ptrs pool = p # ps" by (auto simp: queue_tasks_def)
  obtain q where q: "dequeue pool = Some (p, q)" "list_ok q" "job_ptrs q = ps" "jobs q = jobs pool" "queue_tasks q = ts"
    using dequeue_ok [OF assms(1) ps] assms(2) by (auto elim!: wpE)
  from assms(1) ps obtain j where j: "jobs pool p = Some j" "p \<notin> set ps" by (auto simp: list_ok_def)
  have "t = (callback_function j, job_arg j)" using assms(2) ps j by (simp add: queue_tasks_def task_at_def)
  then show ?thesis using q j free_job_ok [OF q(2), of p j] by (auto simp: take_task_def elim!: wpE)
qed

interpretation linked: task_queue list_ok queue_tasks fresh_job snd enqueue take_task
proof unfold_locales
  fix q and a :: "ptr \<times> task" assume "list_ok q" "fresh_job a q"
  then show "wp (enqueue a q) (\<lambda>q'. list_ok q' \<and> queue_tasks q' = queue_tasks q @ [snd a])"
    using enqueue_ok [of q "fst a" "fst (snd a)" "snd (snd a)"] by (auto elim!: wp_mono)
next
  fix q x xs assume "list_ok q" "queue_tasks q = x # xs"
  then show "wp (take_task q) (\<lambda>(y, q'). y = x \<and> list_ok q' \<and> queue_tasks q' = xs)" by (rule take_task_ok)
qed

subsection \<open>The ring buffer\<close>

text \<open>
  \<open>ring_nums\<close> are \<open>threadnum_\<close> and \<open>thread_[0]\<close>; the arrays have \<open>max_task_num + 1\<close> cells. An
  index that passes the end goes back to cell 1, so cell 0 is used only in the first round.
\<close>

record ring_pool =
  threadnum :: int
  threads :: "nat list"
  ring_args :: "ptr list"
  ring_funs :: "nat list"
  ring_start :: nat
  ring_end :: nat
  curr_task_num :: int
  max_task_num :: int

definition bump :: "int \<Rightarrow> nat \<Rightarrow> nat" where
  "bump m i = (if int (i + 1) > m then 1 else i + 1)"

definition ring_add :: "task \<Rightarrow> ring_pool \<Rightarrow> (int \<times> ring_pool) option" where
  "ring_add t r =
     (let task_num = curr_task_num r in
      if task_num > max_task_num r - 2 then Some (-1, r)
      else
        (let r = r\<lparr>curr_task_num := task_num + 1\<rparr>; i = ring_end r in
         if i < length (ring_args r) \<and> i < length (ring_funs r) then
           Some (0, r\<lparr>ring_args := (ring_args r)[i := snd t], ring_funs := (ring_funs r)[i := fst t],
             ring_end := bump (max_task_num r) i\<rparr>)
         else None))"

text \<open>The part of \<open>threadpool_excute_task\<close> that takes a task; without one the worker waits.\<close>

definition ring_take :: "ring_pool \<Rightarrow> (task option \<times> ring_pool) option" where
  "ring_take r =
     (let n = curr_task_num r; i = ring_start r in
      if n > 0 then
        (if i < length (ring_args r) \<and> i < length (ring_funs r) then
           Some (Some (ring_funs r ! i, ring_args r ! i),
             r\<lparr>ring_start := bump (max_task_num r) i, curr_task_num := n - 1\<rparr>)
         else None)
      else Some (None, r))"

text \<open>The cell \<open>k\<close> places after \<open>i\<close>, for \<open>k\<close> below \<open>max_task_num\<close>.\<close>

definition ring_pos :: "nat \<Rightarrow> nat \<Rightarrow> nat \<Rightarrow> nat" where
  "ring_pos m i k = (if i + k \<le> m then i + k else i + k - m)"

definition ring_items :: "ring_pool \<Rightarrow> task list" where
  "ring_items r = map (\<lambda>k. let c = ring_pos (nat (max_task_num r)) (ring_start r) k in (ring_funs r ! c, ring_args r ! c))
     [0..<nat (curr_task_num r)]"

definition ring_ok :: "ring_pool \<Rightarrow> bool" where
  "ring_ok r \<longleftrightarrow> 1 \<le> max_task_num r \<and> 0 \<le> curr_task_num r \<and> curr_task_num r \<le> max_task_num r - 1 \<and>
     length (ring_args r) = nat (max_task_num r) + 1 \<and> length (ring_funs r) = nat (max_task_num r) + 1 \<and>
     int (ring_start r) \<le> max_task_num r \<and> ring_end r = ring_pos (nat (max_task_num r)) (ring_start r) (nat (curr_task_num r))"

lemma ring_pos_0: "i \<le> m \<Longrightarrow> ring_pos m i 0 = i"
  by (simp add: ring_pos_def)

lemma ring_pos_bound: "i \<le> m \<Longrightarrow> k < m \<Longrightarrow> ring_pos m i k \<le> m"
  unfolding ring_pos_def by (cases "i + k \<le> m") arith+

lemma ring_pos_inj: "i \<le> m \<Longrightarrow> j < k \<Longrightarrow> k < m \<Longrightarrow> ring_pos m i j \<noteq> ring_pos m i k"
  by (auto simp: ring_pos_def)

lemma bump_pos: "i \<le> m \<Longrightarrow> k < m \<Longrightarrow> bump (int m) (ring_pos m i k) = ring_pos m i (Suc k)"
  by (auto simp: ring_pos_def bump_def)

lemma bump_start: "i \<le> m \<Longrightarrow> k < m \<Longrightarrow> ring_pos m (bump (int m) i) k = ring_pos m i (Suc k)"
  by (auto simp: ring_pos_def bump_def)

definition ring_room :: "task \<Rightarrow> ring_pool \<Rightarrow> bool" where
  "ring_room t r \<longleftrightarrow> curr_task_num r \<le> max_task_num r - 2"

definition ring_push :: "task \<Rightarrow> ring_pool \<Rightarrow> ring_pool option" where
  "ring_push t r = map_option snd (ring_add t r)"

definition ring_pop :: "ring_pool \<Rightarrow> (task \<times> ring_pool) option" where
  "ring_pop r = do { (t, r) \<leftarrow> ring_take r; t \<leftarrow> t; Some (t, r) }"

lemma ring_add_ok:
  assumes "ring_ok r" "ring_room t r"
  shows "wp (ring_add t r) (\<lambda>(e, r'). e = 0 \<and> ring_ok r' \<and> ring_items r' = ring_items r @ [t] \<and> max_task_num r' = max_task_num r)"
proof -
  define m c where "m = nat (max_task_num r)" and "c = nat (curr_task_num r)"
  have n: "max_task_num r = int m" "curr_task_num r = int c" "1 \<le> m" "c + 2 \<le> m" "ring_start r \<le> m"
    "ring_end r = ring_pos m (ring_start r) c" "length (ring_args r) = m + 1" "length (ring_funs r) = m + 1"
    using assms by (auto simp: ring_ok_def ring_room_def m_def c_def)
  let ?e = "ring_pos m (ring_start r) c"
  have e: "?e \<le> m" using n ring_pos_bound by simp
  let ?r = "r\<lparr>curr_task_num := int c + 1, ring_args := (ring_args r)[?e := snd t], ring_funs := (ring_funs r)[?e := fst t],
      ring_end := bump (int m) ?e\<rparr>"
  have "ring_add t r = Some (0, ?r)" using n e by (simp add: ring_add_def Let_def)
  moreover have "ring_ok ?r" using n bump_pos [of "ring_start r" m c] by (simp add: ring_ok_def nat_add_distrib)
  moreover have "ring_pos m (ring_start r) c \<noteq> ring_pos m (ring_start r) x" if "x < c" for x
    using ring_pos_inj [OF n(5) that] n(4) by simp
  then have "ring_items ?r = ring_items r @ [t]"
    using n e by (auto simp: ring_items_def nat_add_distrib Let_def)
  ultimately show ?thesis using n(1) by simp
qed

lemma ring_take_ok:
  assumes "ring_ok r" "ring_items r = t # ts"
  shows "wp (ring_take r) (\<lambda>(u, r'). u = Some t \<and> ring_ok r' \<and> ring_items r' = ts \<and> max_task_num r' = max_task_num r)"
proof -
  define m c where "m = nat (max_task_num r)" and "c = nat (curr_task_num r)"
  have n: "max_task_num r = int m" "curr_task_num r = int c" "1 \<le> m" "c + 1 \<le> m" "ring_start r \<le> m"
    "ring_end r = ring_pos m (ring_start r) c" "length (ring_args r) = m + 1" "length (ring_funs r) = m + 1"
    using assms by (auto simp: ring_ok_def m_def c_def)
  from assms(2) n obtain d where c: "c = Suc d" by (cases c) (auto simp: ring_items_def)
  have tt: "t = (ring_funs r ! ring_start r, ring_args r ! ring_start r)"
    "ts = map (\<lambda>k. let c = ring_pos m (ring_start r) (Suc k) in (ring_funs r ! c, ring_args r ! c)) [0..<d]"
    using assms(2) n ring_pos_0 [OF n(5)] by (auto simp add: ring_items_def c Let_def nat_add_distrib upt_conv_Cons map_Suc_upt [symmetric] o_def simp del: upt_Suc)
  let ?r = "r\<lparr>ring_start := bump (int m) (ring_start r), curr_task_num := int d\<rparr>"
  have "ring_take r = Some (Some t, ?r)" using n c tt(1) by (simp add: ring_take_def Let_def)
  moreover have "ring_ok ?r" using n c bump_start [of "ring_start r" m d] by (auto simp: ring_ok_def bump_def)
  moreover have "ring_items ?r = ts" using n c bump_start [OF n(5)] tt(2) by (auto simp: ring_items_def Let_def)
  ultimately show ?thesis using n(1) by simp
qed

interpretation ring: task_queue ring_ok ring_items ring_room id ring_push ring_pop
proof unfold_locales
  fix r and t :: task assume "ring_ok r" "ring_room t r"
  then show "wp (ring_push t r) (\<lambda>r'. ring_ok r' \<and> ring_items r' = ring_items r @ [id t])"
    using ring_add_ok [of r t] by (auto simp: ring_push_def elim!: wpE)
next
  fix r t ts assume "ring_ok r" "ring_items r = t # ts"
  then show "wp (ring_pop r) (\<lambda>(u, r'). u = t \<and> ring_ok r' \<and> ring_items r' = ts)"
    using ring_take_ok [of r t ts] by (auto simp: ring_pop_def elim!: wpE)
qed

lemma ring_full: "ring_ok r \<Longrightarrow> \<not> ring_room t r \<Longrightarrow> ring_add t r = Some (-1, r) \<and> length (ring_items r) = nat (max_task_num r - 1)"
  by (auto simp: ring_ok_def ring_room_def ring_add_def ring_items_def)

lemma ring_empty: "ring_ok r \<Longrightarrow> ring_items r = [] \<Longrightarrow> ring_take r = Some (None, r)"
  by (auto simp: ring_ok_def ring_take_def ring_items_def)

subsection \<open>Creation of the ring pool\<close>

text \<open>
  \<open>threadpool_create\<close>: \<open>arrays\<close> are the two \<open>malloc\<close>ed arrays with whatever they hold; \<open>starts\<close>
  the threads \<open>pthread_create\<close> returned, until one fails. On a failure the pool is destroyed (see
  \<open>Ring_Pool\<close>).
\<close>

abbreviation (input) MAX_THREAD_NUM :: int where "MAX_THREAD_NUM \<equiv> 256"
abbreviation (input) MIN_THREAD_NUM :: int where "MIN_THREAD_NUM \<equiv> 1"

definition ring_create :: "int \<Rightarrow> int \<Rightarrow> ptr list \<times> nat list \<Rightarrow> nat list \<Rightarrow> ring_pool option" where
  "ring_create n max_num arrays starts =
     (if n > MAX_THREAD_NUM \<or> n < 0 then None
      else let n = (if n < MIN_THREAD_NUM then MIN_THREAD_NUM else n) in
        if length starts < nat n then None
        else Some \<lparr>threadnum = n, threads = take (nat n) starts, ring_args = fst arrays, ring_funs = snd arrays,
          ring_start = 0, ring_end = 0, curr_task_num = 0, max_task_num = max_num\<rparr>)"

lemma ring_create_ok:
  assumes "ring_create n m arrays starts = Some r" "1 \<le> m" "length (fst arrays) = nat m + 1" "length (snd arrays) = nat m + 1"
  shows "ring_ok r" "ring_items r = []" "max_task_num r = m"
  using assms by (auto simp: ring_create_def ring_ok_def ring_items_def ring_pos_def Let_def split: if_splits)

end
