(* ===== verification/Thread_Pool.thy ===== *)
theory Thread_Pool
  imports Task_Queue "HOL-Library.Multiset"
begin

text \<open>
  \<open>src/threadpool/threadpool(C Implement)/threadpool.c\<close> with its threads: workers, callers of
  \<open>threadpool_add_job\<close> and a caller of \<open>threadpool_destroy\<close>. What a thread does between locking
  the mutex and unlocking it (or waiting on a condition variable) is one step, so steps of
  different threads interleave in any order. A thread in \<open>pthread_cond_wait\<close> is in a waiting
  state until a signal, a broadcast or a spurious wake-up; then it competes for the mutex again.
  An access to the freed pool or job is \<open>None\<close>.

  \<open>accepted\<close>, \<open>taken\<close> and \<open>executed\<close> record the tasks that were put into the queue, taken out of
  it and whose callback was called.
\<close>

subsection \<open>Threads\<close>

datatype wstate = W_ready | W_wait | W_run ptr | W_done

datatype astate = A_ready task | A_wait task | A_ret int

datatype dstate = D_idle | D_ready | D_wait | D_closed | D_not_full | D_join nat | D_ret int

record pool_state =
  tp :: "threadpool option"
  workers :: "wstate list"
  adders :: "astate list"
  destroyer :: dstate
  accepted :: "task list"
  taken :: "task list"
  executed :: "task list"

text \<open>\<open>threadpool_init\<close> with the result of each of its allocations and initialisations.\<close>

definition threadpool_init :: "int \<Rightarrow> int \<Rightarrow> bool list \<Rightarrow> pool_state option" where
  "threadpool_init n queue_max fails =
     (if True \<in> set (take 6 fails) then None
      else Some \<lparr>tp = Some \<lparr>thread_num = n, queue_max_num = queue_max, head_job = NULL, tail_job = NULL, queue_cur_num = 0,
          queue_close = False, pool_close = False, jobs = Map.empty\<rparr>,
        workers = replicate (nat n) W_ready, adders = [], destroyer = D_idle, accepted = [], taken = [], executed = []\<rparr>)"

subsection \<open>Sections under the mutex\<close>

text \<open>What a section signals: \<open>queue_not_empty\<close>, \<open>queue_not_full\<close> (broadcasts) and \<open>queue_empty\<close>.\<close>

record signals =
  not_empty :: bool
  not_full :: bool
  empty_sig :: bool

abbreviation (input) no_signal :: signals where
  "no_signal \<equiv> \<lparr>not_empty = False, not_full = False, empty_sig = False\<rparr>"

text \<open>\<open>threadpool_add_job\<close>; \<open>p\<close> is what \<open>malloc\<close> returns.\<close>

definition add_section :: "ptr \<Rightarrow> task \<Rightarrow> threadpool \<Rightarrow> (astate \<times> signals \<times> threadpool) option" where
  "add_section p t pool =
     (if fst t = 0 \<or> snd t = NULL then None
      else if queue_cur_num pool = queue_max_num pool \<and> \<not> (queue_close pool \<or> pool_close pool) then Some (A_wait t, no_signal, pool)
      else if queue_close pool \<or> pool_close pool then Some (A_ret (-1), no_signal, pool)
      else if p = NULL then Some (A_ret (-1), no_signal, pool)
      else do {
        pool' \<leftarrow> enqueue (p, t) pool;
        Some (A_ret 0, no_signal\<lparr>not_empty := (head_job pool = NULL)\<rparr>, pool')
      })"

text \<open>The loop of \<open>threadpool_function\<close> up to the call of the callback.\<close>

definition worker_section :: "threadpool \<Rightarrow> (wstate \<times> signals \<times> threadpool) option" where
  "worker_section pool =
     (if queue_cur_num pool = 0 \<and> \<not> pool_close pool then Some (W_wait, no_signal, pool)
      else if pool_close pool then Some (W_done, no_signal, pool)
      else do {
        (p, pool) \<leftarrow> dequeue pool;
        Some (W_run p, \<lparr>not_empty = False, not_full = (queue_cur_num pool = queue_max_num pool - 1),
          empty_sig = (queue_cur_num pool = 0)\<rparr>, pool)
      })"

text \<open>\<open>threadpool_destroy\<close>: the first section, and the rest of its loop after a wake-up.\<close>

definition destroy_loop :: "threadpool \<Rightarrow> dstate \<times> threadpool" where
  "destroy_loop pool = (if queue_cur_num pool \<noteq> 0 then (D_wait, pool) else (D_closed, pool\<lparr>pool_close := True\<rparr>))"

definition destroy_section :: "threadpool \<Rightarrow> dstate \<times> threadpool" where
  "destroy_section pool =
     (if queue_close pool \<or> pool_close pool then (D_ret (-1), pool) else destroy_loop (pool\<lparr>queue_close := True\<rparr>))"

subsection \<open>Steps\<close>

definition wake_w :: "bool \<Rightarrow> wstate list \<Rightarrow> wstate list" where
  "wake_w b ws = (if b then map (\<lambda>x. if x = W_wait then W_ready else x) ws else ws)"

definition wake_a :: "bool \<Rightarrow> astate list \<Rightarrow> astate list" where
  "wake_a b as = (if b then map (\<lambda>x. case x of A_wait t \<Rightarrow> A_ready t | _ \<Rightarrow> x) as else as)"

definition wake_d :: "bool \<Rightarrow> dstate \<Rightarrow> dstate" where
  "wake_d b d = (if b \<and> d = D_wait then D_ready else d)"

definition signal :: "signals \<Rightarrow> pool_state \<Rightarrow> pool_state" where
  "signal sg s = s\<lparr>workers := wake_w (not_empty sg) (workers s), adders := wake_a (not_full sg) (adders s),
     destroyer := wake_d (empty_sig sg) (destroyer s)\<rparr>"

datatype thread = Worker nat | Adder nat ptr | Destroyer

definition worker_step :: "nat \<Rightarrow> pool_state \<Rightarrow> pool_state option" where
  "worker_step i s = do {
     pool \<leftarrow> tp s;
     case workers s ! i of
       W_ready \<Rightarrow> do {
         (x, sg, pool') \<leftarrow> worker_section pool;
         s \<leftarrow> Some (signal sg (s\<lparr>tp := Some pool'\<rparr>));
         Some (s\<lparr>workers := (workers s)[i := x],
           taken := taken s @ (case x of W_run p \<Rightarrow> [task_at pool p] | _ \<Rightarrow> [])\<rparr>)
       }
     | W_run p \<Rightarrow> do {
         f \<leftarrow> load (jobs pool) p callback_function;
         x \<leftarrow> load (jobs pool) p job_arg;
         pool' \<leftarrow> free_job p pool;
         Some (s\<lparr>tp := Some pool', workers := (workers s)[i := W_ready], executed := executed s @ [(f, x)]\<rparr>)
       }
     | _ \<Rightarrow> Some s
   }"

definition adder_step :: "nat \<Rightarrow> ptr \<Rightarrow> pool_state \<Rightarrow> pool_state option" where
  "adder_step i p s = do {
     pool \<leftarrow> tp s;
     case adders s ! i of
       A_ready t \<Rightarrow> do {
         (x, sg, pool') \<leftarrow> add_section p t pool;
         s \<leftarrow> Some (signal sg (s\<lparr>tp := Some pool'\<rparr>));
         Some (s\<lparr>adders := (adders s)[i := x], accepted := accepted s @ (if x = A_ret 0 then [t] else [])\<rparr>)
       }
     | _ \<Rightarrow> Some s
   }"

text \<open>After \<open>pool_close\<close>: the two broadcasts, the joins, and the release of all resources.\<close>

definition destroyer_step :: "pool_state \<Rightarrow> pool_state option" where
  "destroyer_step s = do {
     pool \<leftarrow> tp s;
     case destroyer s of
       D_idle \<Rightarrow> (let (d, pool) = destroy_section pool in Some (s\<lparr>tp := Some pool, destroyer := d\<rparr>))
     | D_ready \<Rightarrow> (let (d, pool) = destroy_loop pool in Some (s\<lparr>tp := Some pool, destroyer := d\<rparr>))
     | D_closed \<Rightarrow> Some ((signal (no_signal\<lparr>not_empty := True\<rparr>) s)\<lparr>destroyer := D_not_full\<rparr>)
     | D_not_full \<Rightarrow> Some ((signal (no_signal\<lparr>not_full := True\<rparr>) s)\<lparr>destroyer := D_join 0\<rparr>)
     | D_join i \<Rightarrow> if int i < thread_num pool then Some (s\<lparr>destroyer := D_join (i + 1)\<rparr>)
         else Some (s\<lparr>tp := None, destroyer := D_ret 0\<rparr>)
     | _ \<Rightarrow> Some s
   }"

fun thread_step :: "thread \<Rightarrow> pool_state \<Rightarrow> pool_state option" where
  "thread_step (Worker i) s = worker_step i s"
| "thread_step (Adder i p) s = adder_step i p s"
| "thread_step Destroyer s = destroyer_step s"

text \<open>
  Which thread can run: it has a step to do and is not blocked. \<open>malloc\<close> returns \<open>NULL\<close> or an
  address that is not in use; \<open>pthread_join\<close> returns when the thread has ended.
\<close>

fun can_run :: "thread \<Rightarrow> pool_state \<Rightarrow> bool" where
  "can_run (Worker i) s \<longleftrightarrow> i < length (workers s) \<and> (case workers s ! i of W_ready \<Rightarrow> True | W_run _ \<Rightarrow> True | _ \<Rightarrow> False)"
| "can_run (Adder i p) s \<longleftrightarrow> i < length (adders s) \<and> (case adders s ! i of A_ready _ \<Rightarrow> True | _ \<Rightarrow> False) \<and>
     (case tp s of Some pool \<Rightarrow> p = NULL \<or> jobs pool p = None | None \<Rightarrow> True)"
| "can_run Destroyer s \<longleftrightarrow> (case destroyer s of
       D_idle \<Rightarrow> True | D_ready \<Rightarrow> True | D_closed \<Rightarrow> True | D_not_full \<Rightarrow> True
     | D_join i \<Rightarrow> (i < length (workers s) \<longrightarrow> workers s ! i = W_done) | _ \<Rightarrow> False)"

lemma can_run_iff: "can_run (Worker i) s \<longleftrightarrow> i < length (workers s) \<and> (workers s ! i = W_ready \<or> (\<exists>p. workers s ! i = W_run p))"
  "can_run (Adder i p) s \<longleftrightarrow> i < length (adders s) \<and> (\<exists>t. adders s ! i = A_ready t) \<and>
     (\<forall>pool. tp s = Some pool \<longrightarrow> p \<noteq> NULL \<longrightarrow> jobs pool p = None)"
  "can_run Destroyer s \<longleftrightarrow> destroyer s \<in> {D_idle, D_ready, D_closed, D_not_full} \<or>
     (\<exists>i. destroyer s = D_join i \<and> (i < length (workers s) \<longrightarrow> workers s ! i = W_done))"
  by (auto split: wstate.splits astate.splits dstate.splits option.splits)

declare can_run.simps [simp del] can_run_iff [simp]

inductive pool_step :: "pool_state \<Rightarrow> pool_state \<Rightarrow> bool" where
  run: "can_run t s \<Longrightarrow> thread_step t s = Some s' \<Longrightarrow> pool_step s s'"
| call: "tp s \<noteq> None \<Longrightarrow> f \<noteq> 0 \<Longrightarrow> x \<noteq> NULL \<Longrightarrow> pool_step s (s\<lparr>adders := adders s @ [A_ready (f, x)]\<rparr>)"
| spurious_w: "i < length (workers s) \<Longrightarrow> workers s ! i = W_wait \<Longrightarrow> pool_step s (s\<lparr>workers := (workers s)[i := W_ready]\<rparr>)"
| spurious_a: "i < length (adders s) \<Longrightarrow> adders s ! i = A_wait t \<Longrightarrow> pool_step s (s\<lparr>adders := (adders s)[i := A_ready t]\<rparr>)"
| spurious_d: "destroyer s = D_wait \<Longrightarrow> pool_step s (s\<lparr>destroyer := D_ready\<rparr>)"

inductive_cases pool_stepE: "pool_step s s'"

subsection \<open>The invariant\<close>

definition running :: "wstate list \<Rightarrow> ptr list" where
  "running ws = concat (map (\<lambda>x. case x of W_run p \<Rightarrow> [p] | _ \<Rightarrow> []) ws)"

definition closed_states :: "dstate \<Rightarrow> bool" where
  "closed_states d \<longleftrightarrow> (case d of D_closed \<Rightarrow> True | D_not_full \<Rightarrow> True | D_join _ \<Rightarrow> True | D_ret _ \<Rightarrow> True | _ \<Rightarrow> False)"

definition pool_data_ok :: "pool_state \<Rightarrow> threadpool \<Rightarrow> bool" where
  "pool_data_ok s pool \<longleftrightarrow> list_ok pool \<and> thread_num pool = int (length (workers s)) \<and>
     queue_cur_num pool \<le> queue_max_num pool \<and>
     distinct (job_ptrs pool @ running (workers s)) \<and> dom (jobs pool) = set (job_ptrs pool) \<union> set (running (workers s)) \<and>
     accepted s = taken s @ queue_tasks pool \<and>
     mset (taken s) = mset (executed s) + mset (map (task_at pool) (running (workers s)))"

definition pool_sync_ok :: "pool_state \<Rightarrow> threadpool \<Rightarrow> bool" where
  "pool_sync_ok s pool \<longleftrightarrow>
     (W_wait \<in> set (workers s) \<longrightarrow> queue_cur_num pool = 0 \<and> (pool_close pool \<longrightarrow> destroyer s = D_closed)) \<and>
     (\<forall>t. A_wait t \<in> set (adders s) \<longrightarrow> queue_cur_num pool = queue_max_num pool \<and>
        (pool_close pool \<longrightarrow> destroyer s = D_closed \<or> destroyer s = D_not_full)) \<and>
     (pool_close pool \<longleftrightarrow> closed_states (destroyer s)) \<and> (queue_close pool \<longleftrightarrow> destroyer s \<noteq> D_idle) \<and>
     (destroyer s = D_wait \<longrightarrow> queue_cur_num pool \<noteq> 0) \<and> (pool_close pool \<longrightarrow> queue_cur_num pool = 0) \<and>
     (W_done \<in> set (workers s) \<longrightarrow> pool_close pool) \<and>
     (\<forall>i. destroyer s = D_join i \<longrightarrow> i \<le> length (workers s) \<and> (\<forall>j < i. workers s ! j = W_done)) \<and>
     (\<forall>e. destroyer s \<noteq> D_ret e)"

definition pool_inv :: "pool_state \<Rightarrow> bool" where
  "pool_inv s \<longleftrightarrow> (\<forall>t. A_ready t \<in> set (adders s) \<or> A_wait t \<in> set (adders s) \<longrightarrow> fst t \<noteq> 0 \<and> snd t \<noteq> NULL) \<and>
     (case tp s of
        Some pool \<Rightarrow> pool_data_ok s pool \<and> pool_sync_ok s pool
      | None \<Rightarrow> destroyer s = D_ret 0 \<and> set (workers s) \<subseteq> {W_done} \<and> accepted s = taken s \<and> mset (taken s) = mset (executed s))"


lemma running_simps [simp]: "running [] = []" "running (xs @ ys) = running xs @ running ys"
  "running (W_ready # xs) = running xs" "running (W_wait # xs) = running xs" "running (W_done # xs) = running xs"
  "running (W_run p # xs) = p # running xs"
  by (simp_all add: running_def)

lemma list_upd_split: "i < length xs \<Longrightarrow> \<exists>as bs. xs = as @ xs ! i # bs \<and> (\<forall>y. xs[i := y] = as @ y # bs) \<and> length as = i"
  by (intro exI [of _ "take i xs"] exI [of _ "drop (Suc i) xs"]) (simp add: id_take_nth_drop upd_conv_take_nth_drop)

lemma wake_w_simps [simp]: "running (wake_w b ws) = running ws" "length (wake_w b ws) = length ws"
  "W_wait \<in> set (wake_w b ws) \<longleftrightarrow> \<not> b \<and> W_wait \<in> set ws" "W_done \<in> set (wake_w b ws) \<longleftrightarrow> W_done \<in> set ws"
  "wake_w False ws = ws"
proof -
  show "running (wake_w b ws) = running ws"
    by (simp add: wake_w_def) (induction ws; auto simp: running_def split: wstate.splits)
qed (auto simp: wake_w_def image_iff split: if_splits)

lemma wake_w_nth [simp]: "j < length ws \<Longrightarrow> wake_w b ws ! j = W_done \<longleftrightarrow> ws ! j = W_done"
  "j < length ws \<Longrightarrow> wake_w b ws ! j = W_run q \<longleftrightarrow> ws ! j = W_run q" "ws ! j = W_ready \<Longrightarrow> j < length ws \<Longrightarrow> wake_w b ws ! j = W_ready"
  by (auto simp: wake_w_def)

lemma wake_a_simps [simp]: "A_wait t \<in> set (wake_a b as) \<longleftrightarrow> \<not> b \<and> A_wait t \<in> set as"
  "A_ready t \<in> set (wake_a b as) \<longleftrightarrow> A_ready t \<in> set as \<or> b \<and> A_wait t \<in> set as" "wake_a False as = as" "length (wake_a b as) = length as"
  unfolding wake_a_def by (induction as) (auto split: astate.splits)

lemma wake_d_simps [simp]: "wake_d False d = d" "closed_states (wake_d b d) = closed_states d" "wake_d b d = D_idle \<longleftrightarrow> d = D_idle"
  "wake_d b d = D_closed \<longleftrightarrow> d = D_closed" "wake_d b d = D_not_full \<longleftrightarrow> d = D_not_full" "wake_d b d = D_join k \<longleftrightarrow> d = D_join k"
  "wake_d b d = D_ret e \<longleftrightarrow> d = D_ret e" "wake_d b d = D_wait \<longleftrightarrow> \<not> b \<and> d = D_wait"
  by (auto simp: wake_d_def closed_states_def)

lemma signal_simps [simp]: "tp (signal sg s) = tp s" "workers (signal sg s) = wake_w (not_empty sg) (workers s)"
  "adders (signal sg s) = wake_a (not_full sg) (adders s)" "destroyer (signal sg s) = wake_d (empty_sig sg) (destroyer s)"
  "accepted (signal sg s) = accepted s" "taken (signal sg s) = taken s" "executed (signal sg s) = executed s"
  by (simp_all add: signal_def)

lemma pool_init_inv: "threadpool_init n q fails = Some s \<Longrightarrow> 0 \<le> n \<Longrightarrow> 0 \<le> q \<Longrightarrow> pool_inv s"
proof -
  have "running (replicate k W_ready) = []" for k by (induction k) auto
  moreover assume "threadpool_init n q fails = Some s" "0 \<le> n" "0 \<le> q"
  ultimately show ?thesis
    by (auto simp: threadpool_init_def pool_inv_def pool_data_ok_def pool_sync_ok_def list_ok_def job_ptrs_def queue_tasks_def closed_states_def split: if_splits)
qed

lemma pool_invE:
  assumes "pool_inv s" "tp s = Some pool"
  obtains "pool_data_ok s pool" "pool_sync_ok s pool"
  using assms by (simp add: pool_inv_def)

text \<open>A worker that takes a task, one that finishes it, and an accepted task, on the data.\<close>

lemma running_take:
  assumes "i < length ws" "ws ! i = W_ready"
  shows "mset (running (ws[i := W_run p])) = add_mset p (mset (running ws))" "x = W_wait \<or> x = W_done \<Longrightarrow> running (ws[i := x]) = running ws"
proof -
  obtain as bs where ws: "ws = as @ W_ready # bs" "\<And>y. ws[i := y] = as @ y # bs"
    using list_upd_split [OF assms(1)] assms(2) by auto
  show "mset (running (ws[i := W_run p])) = add_mset p (mset (running ws))" unfolding ws(2) by (simp add: ws(1))
  show "running (ws[i := x]) = running ws" if "x = W_wait \<or> x = W_done" unfolding ws(2) using that by (auto simp: ws(1))
qed

lemma running_finish:
  assumes "i < length ws" "ws ! i = W_run p"
  shows "mset (running ws) = add_mset p (mset (running (ws[i := W_ready])))"
proof -
  obtain as bs where "ws = as @ W_run p # bs" "ws[i := W_ready] = as @ W_ready # bs"
    using list_upd_split [OF assms(1)] assms(2) by auto
  then show ?thesis by simp
qed

lemma dequeue_same: "dequeue pool = Some (p, q) \<Longrightarrow> queue_max_num q = queue_max_num pool \<and> queue_close q = queue_close pool \<and>
    pool_close q = pool_close pool \<and> thread_num q = thread_num pool"
  by (auto simp: dequeue_def Option.bind_eq_Some_conv split: if_splits)

lemma enqueue_same: "enqueue a pool = Some q \<Longrightarrow> queue_max_num q = queue_max_num pool \<and> queue_close q = queue_close pool \<and>
    pool_close q = pool_close pool \<and> thread_num q = thread_num pool"
  by (auto simp: enqueue_def Option.bind_eq_Some_conv split: if_splits prod.splits)

lemma task_at_cong: "jobs q = jobs pool \<Longrightarrow> task_at q = task_at pool"
  by (simp add: task_at_def [abs_def])

lemma data_take:
  assumes "pool_data_ok s pool" "i < length (workers s)" "workers s ! i = W_ready" "queue_cur_num pool \<noteq> 0"
  shows "\<exists>p pool'. dequeue pool = Some (p, pool') \<and> queue_cur_num pool' = queue_cur_num pool - 1 \<and>
     pool_data_ok (s\<lparr>tp := Some pool', workers := (wake_w b (workers s))[i := W_run p], taken := taken s @ [task_at pool p]\<rparr>) pool'"
proof -
  let ?ws = "wake_w b (workers s)"
  have o: "list_ok pool" "thread_num pool = int (length (workers s))" "queue_cur_num pool \<le> queue_max_num pool"
    "distinct (job_ptrs pool @ running (workers s))" "dom (jobs pool) = set (job_ptrs pool) \<union> set (running (workers s))"
    "accepted s = taken s @ queue_tasks pool" "mset (taken s) = mset (executed s) + mset (map (task_at pool) (running (workers s)))"
    using assms(1) by (simp_all add: pool_data_ok_def)
  have "job_ptrs pool \<noteq> []" using o(1) assms(4) by (auto simp: list_ok_def)
  then obtain p ps where ps: "job_ptrs pool = p # ps" by (cases "job_ptrs pool") auto
  obtain q where q: "dequeue pool = Some (p, q)" "list_ok q" "job_ptrs q = ps" "jobs q = jobs pool"
    "queue_tasks q = tl (queue_tasks pool)" "queue_cur_num q = queue_cur_num pool - 1"
    using dequeue_ok [OF o(1) ps] by (auto elim!: wpE)
  have r: "mset (running (?ws[i := W_run p])) = add_mset p (mset (running (workers s)))"
    using running_take(1) [of i ?ws p] assms(2,3) by simp
  have s: "set (running (?ws[i := W_run p])) = insert p (set (running (workers s)))" using arg_cong [OF r, of set_mset] by simp
  have "distinct (running (?ws[i := W_run p])) = distinct (p # running (workers s))"
    using r by (intro mset_eq_imp_distinct_iff) simp
  then have d: "distinct (job_ptrs q @ running (?ws[i := W_run p]))" using o(4) ps q(3) s by auto
  have t: "queue_tasks pool = task_at pool p # queue_tasks q" using ps q(5) by (simp add: queue_tasks_def)
  have m: "mset (map (task_at q) (running (?ws[i := W_run p]))) = add_mset (task_at pool p) (mset (map (task_at pool) (running (workers s))))"
    using r by (simp add: task_at_cong [OF q(4)])
  show ?thesis
    using q d s o ps m t dequeue_same [OF q(1)] by (intro exI [of _ p] exI [of _ q]) (auto simp: pool_data_ok_def)
qed

lemma data_run:
  assumes "pool_data_ok s pool" "i < length (workers s)" "workers s ! i = W_run p"
  shows "\<exists>j. jobs pool p = Some j \<and> free_job p pool = Some (pool\<lparr>jobs := (jobs pool)(p := None)\<rparr>) \<and>
     pool_data_ok (s\<lparr>tp := Some (pool\<lparr>jobs := (jobs pool)(p := None)\<rparr>), workers := (workers s)[i := W_ready],
       executed := executed s @ [(callback_function j, job_arg j)]\<rparr>) (pool\<lparr>jobs := (jobs pool)(p := None)\<rparr>)"
proof -
  let ?q = "pool\<lparr>jobs := (jobs pool)(p := None)\<rparr>" and ?ws = "(workers s)[i := W_ready]"
  have o: "list_ok pool" "thread_num pool = int (length (workers s))" "queue_cur_num pool \<le> queue_max_num pool"
    "distinct (job_ptrs pool @ running (workers s))" "dom (jobs pool) = set (job_ptrs pool) \<union> set (running (workers s))"
    "accepted s = taken s @ queue_tasks pool" "mset (taken s) = mset (executed s) + mset (map (task_at pool) (running (workers s)))"
    using assms(1) by (simp_all add: pool_data_ok_def)
  note r = running_finish [OF assms(2,3)]
  have s: "set (running (workers s)) = insert p (set (running ?ws))" using arg_cong [OF r, of set_mset] by simp
  have "distinct (running (workers s)) = distinct (p # running ?ws)" using r by (intro mset_eq_imp_distinct_iff) simp
  then have d: "p \<notin> set (running ?ws)" "distinct (job_ptrs pool @ running ?ws)" "p \<notin> set (job_ptrs pool)" using o(4) s by auto
  from s o(5) obtain j where j: "jobs pool p = Some j" by blast
  have f: "free_job p pool = Some ?q" "list_ok ?q" "job_ptrs ?q = job_ptrs pool" "queue_tasks ?q = queue_tasks pool"
    using free_job_ok [OF o(1) d(3) j] by (auto elim: wpE)
  have "image_mset (task_at ?q) (mset (running ?ws)) = image_mset (task_at pool) (mset (running ?ws))"
    using d(1) by (intro image_mset_cong) (auto simp: task_at_def)
  moreover have "mset (map (task_at pool) (running (workers s))) = add_mset (callback_function j, job_arg j) (mset (map (task_at pool) (running ?ws)))"
    using r j by (simp add: task_at_def)
  ultimately have m: "mset (taken s) = mset (executed s @ [(callback_function j, job_arg j)]) + mset (map (task_at ?q) (running ?ws))"
    using o(7) by simp
  have "dom (jobs ?q) = set (job_ptrs ?q) \<union> set (running ?ws)" using o(5) s d f(3) by auto
  then show ?thesis using f d j o m by (auto simp: pool_data_ok_def)
qed

lemma data_add:
  assumes "pool_data_ok s pool" "p \<noteq> NULL" "jobs pool p = None" "queue_cur_num pool \<noteq> queue_max_num pool"
  shows "\<exists>pool'. enqueue (p, t) pool = Some pool' \<and> queue_cur_num pool' = queue_cur_num pool + 1 \<and>
     pool_data_ok (s\<lparr>tp := Some pool', workers := wake_w b (workers s), adders := as, accepted := accepted s @ [t]\<rparr>) pool'"
proof -
  have o: "list_ok pool" "thread_num pool = int (length (workers s))" "queue_cur_num pool \<le> queue_max_num pool"
    "distinct (job_ptrs pool @ running (workers s))" "dom (jobs pool) = set (job_ptrs pool) \<union> set (running (workers s))"
    "accepted s = taken s @ queue_tasks pool" "mset (taken s) = mset (executed s) + mset (map (task_at pool) (running (workers s)))"
    using assms(1) by (simp_all add: pool_data_ok_def)
  obtain f x where t: "t = (f, x)" by (cases t)
  obtain q where q: "enqueue (p, t) pool = Some q" "list_ok q" "job_ptrs q = job_ptrs pool @ [p]" "queue_tasks q = queue_tasks pool @ [t]"
    "queue_cur_num q = queue_cur_num pool + 1" "\<And>r. r \<notin> set (job_ptrs pool) \<Longrightarrow> r \<noteq> p \<Longrightarrow> jobs q r = jobs pool r" "dom (jobs q) = insert p (dom (jobs pool))"
    using enqueue_ok [OF o(1), of p f x] assms(2,3) t by (auto simp: fresh_job_def elim!: wpE)
  have pn: "p \<notin> set (job_ptrs pool)" "p \<notin> set (running (workers s))" using o(5) assms(3) by auto
  have "task_at q r = task_at pool r" if "r \<in> set (running (workers s))" for r
  proof -
    have "r \<notin> set (job_ptrs pool)" "r \<noteq> p" using that o(4) pn by auto
    then show ?thesis using q(6) by (simp add: task_at_def)
  qed
  then have "image_mset (task_at q) (mset (running (workers s))) = image_mset (task_at pool) (mset (running (workers s)))"
    by (intro image_mset_cong) simp
  then show ?thesis
    using q o pn assms(4) enqueue_same [OF q(1)] by (intro exI [of _ q]) (auto simp: pool_data_ok_def)
qed

lemma data_simps [simp]: "pool_data_ok s (pool\<lparr>queue_close := c\<rparr>) = pool_data_ok s pool" "pool_data_ok s (pool\<lparr>pool_close := c\<rparr>) = pool_data_ok s pool"
  "pool_data_ok (s\<lparr>tp := x\<rparr>) pool = pool_data_ok s pool" "pool_data_ok (s\<lparr>destroyer := d\<rparr>) pool = pool_data_ok s pool"
  "pool_data_ok (s\<lparr>adders := as\<rparr>) pool = pool_data_ok s pool" "pool_data_ok (s\<lparr>workers := wake_w b (workers s)\<rparr>) pool = pool_data_ok s pool"
proof -
  have [simp]: "job_ptrs (pool\<lparr>queue_close := c\<rparr>) = job_ptrs pool" "job_ptrs (pool\<lparr>pool_close := c\<rparr>) = job_ptrs pool" for c
    by (simp_all add: job_ptrs_def)
  have [simp]: "task_at (pool\<lparr>queue_close := c\<rparr>) = task_at pool" "task_at (pool\<lparr>pool_close := c\<rparr>) = task_at pool" for c
    by (simp_all add: task_at_def [abs_def])
  show "pool_data_ok s (pool\<lparr>queue_close := c\<rparr>) = pool_data_ok s pool" "pool_data_ok s (pool\<lparr>pool_close := c\<rparr>) = pool_data_ok s pool"
    by (simp_all add: pool_data_ok_def list_ok_def queue_tasks_def)
qed (simp_all add: pool_data_ok_def)

lemma running_upd_ready: "i < length ws \<Longrightarrow> ws ! i = W_wait \<Longrightarrow> running (ws[i := W_ready]) = running ws"
proof -
  assume "i < length ws" "ws ! i = W_wait"
  then obtain as bs where ws: "ws = as @ W_wait # bs" "\<And>y. ws[i := y] = as @ y # bs"
    using list_upd_split [of i ws] by auto
  show "running (ws[i := W_ready]) = running ws" unfolding ws(2) by (simp add: ws(1))
qed

lemma in_upd: "x \<in> set (xs[i := y]) \<Longrightarrow> x = y \<or> x \<in> set xs"
  using set_update_subset_insert by fastforce

lemma worker_step_inv:
  assumes inv: "pool_inv s" and tp: "tp s = Some pool" and run: "can_run (Worker i) s"
  shows "wp (worker_step i s) pool_inv"
proof -
  from inv tp have d: "pool_data_ok s pool" and y: "pool_sync_ok s pool" by (auto elim: pool_invE)
  have a: "\<forall>t. A_ready t \<in> set (adders s) \<or> A_wait t \<in> set (adders s) \<longrightarrow> fst t \<noteq> 0 \<and> snd t \<noteq> NULL" using inv by (simp add: pool_inv_def)
  from run have i: "i < length (workers s)" by simp
  from run consider (ready) "workers s ! i = W_ready" | (run) p where "workers s ! i = W_run p" by auto
  then show ?thesis
  proof cases
    case run
    let ?q = "\<lambda>p. pool\<lparr>jobs := (jobs pool)(p := None)\<rparr>"
    obtain j where j: "jobs pool p = Some j" "free_job p pool = Some (?q p)"
      "pool_data_ok (s\<lparr>tp := Some (?q p), workers := (workers s)[i := W_ready], executed := executed s @ [(callback_function j, job_arg j)]\<rparr>) (?q p)"
      using data_run [OF d i run] by blast
    have "pool_sync_ok (s\<lparr>tp := Some (?q p), workers := (workers s)[i := W_ready], executed := executed s @ [(callback_function j, job_arg j)]\<rparr>) (?q p)"
      using y i run by (auto simp: pool_sync_ok_def nth_list_update dest!: in_upd)
    then show ?thesis using j a run tp by (auto simp: worker_step_def pool_inv_def)
  next
    case ready
    show ?thesis
    proof (cases "queue_cur_num pool = 0 \<or> pool_close pool")
      case True
      define x where "x = (if pool_close pool then W_done else W_wait)"
      have x: "worker_section pool = Some (x, no_signal, pool)" "x = W_wait \<and> queue_cur_num pool = 0 \<and> \<not> pool_close pool \<or> x = W_done \<and> pool_close pool"
        using True by (auto simp: worker_section_def x_def)
      let ?s = "s\<lparr>tp := Some pool, workers := (workers s)[i := x], taken := taken s @ []\<rparr>"
      have "pool_sync_ok ?s pool" using y i ready x(2) by (auto simp: pool_sync_ok_def nth_list_update dest!: in_upd)
      moreover have "pool_data_ok ?s pool" using d running_take(2) [OF i ready, of x] x(2) by (auto simp: pool_data_ok_def)
      moreover have "worker_step i s = Some ?s"
        using x tp ready by (auto simp: worker_step_def signal_def)
      ultimately show ?thesis using a by (simp add: pool_inv_def)
    next
      case False
      then have c: "queue_cur_num pool \<noteq> 0" "\<not> pool_close pool" by auto
      let ?f = "queue_cur_num pool = queue_max_num pool" and ?e = "queue_cur_num pool = 1"
      obtain p q where q: "dequeue pool = Some (p, q)" "queue_cur_num q = queue_cur_num pool - 1"
        "pool_data_ok (s\<lparr>tp := Some q, workers := (wake_w False (workers s))[i := W_run p], taken := taken s @ [task_at pool p]\<rparr>) q"
        using data_take [OF d i ready c(1), of False] by blast
      note e = dequeue_same [OF q(1)]
      let ?s = "s\<lparr>tp := Some q, workers := (workers s)[i := W_run p], adders := wake_a ?f (adders s), destroyer := wake_d ?e (destroyer s),
          taken := taken s @ [task_at pool p]\<rparr>"
      have "worker_step i s = Some ?s"
        using q(1,2) e tp ready c by (simp add: worker_step_def worker_section_def signal_def)
      moreover have "pool_data_ok ?s q" using q(3) by (simp add: pool_data_ok_def)
      moreover have "pool_sync_ok ?s q"
        using y i ready c q(2) e by (auto simp: pool_sync_ok_def nth_list_update dest!: in_upd)
      ultimately show ?thesis using a by (auto simp: pool_inv_def)
    qed
  qed
qed

lemma adder_step_inv:
  assumes inv: "pool_inv s" and tp: "tp s = Some pool" and run: "can_run (Adder i p) s"
  shows "wp (adder_step i p s) pool_inv"
proof -
  from inv tp have d: "pool_data_ok s pool" and y: "pool_sync_ok s pool" by (auto elim: pool_invE)
  have a: "\<forall>t. A_ready t \<in> set (adders s) \<or> A_wait t \<in> set (adders s) \<longrightarrow> fst t \<noteq> 0 \<and> snd t \<noteq> NULL" using inv by (simp add: pool_inv_def)
  from run tp obtain t where t: "i < length (adders s)" "adders s ! i = A_ready t" "p \<noteq> NULL \<Longrightarrow> jobs pool p = None" by auto
  then have "A_ready t \<in> set (adders s)" by (metis nth_mem)
  with a have nz: "fst t \<noteq> 0" "snd t \<noteq> NULL" by blast+
  show ?thesis
  proof (cases "queue_cur_num pool = queue_max_num pool \<or> queue_close pool \<or> pool_close pool \<or> p = NULL")
    case True
    define x where "x = (if queue_cur_num pool = queue_max_num pool \<and> \<not> (queue_close pool \<or> pool_close pool) then A_wait t else A_ret (-1))"
    have x: "add_section p t pool = Some (x, no_signal, pool)"
      "x = A_wait t \<and> queue_cur_num pool = queue_max_num pool \<and> \<not> queue_close pool \<and> \<not> pool_close pool \<or> x = A_ret (-1)"
      using nz True by (auto simp: add_section_def x_def)
    let ?s = "s\<lparr>tp := Some pool, adders := (adders s)[i := x], accepted := accepted s @ []\<rparr>"
    have "adder_step i p s = Some ?s" using x t(2) tp by (auto simp: adder_step_def signal_def)
    moreover have "pool_data_ok ?s pool" using d by (simp add: pool_data_ok_def)
    moreover have "pool_sync_ok ?s pool" using y x(2) by (auto simp: pool_sync_ok_def dest!: in_upd)
    ultimately show ?thesis using a nz x(2) by (auto simp: pool_inv_def dest!: in_upd)
  next
    case False
    let ?b = "head_job pool = NULL"
    obtain q where q: "enqueue (p, t) pool = Some q" "queue_cur_num q = queue_cur_num pool + 1"
      "pool_data_ok (s\<lparr>tp := Some q, workers := wake_w ?b (workers s), adders := (adders s)[i := A_ret 0], accepted := accepted s @ [t]\<rparr>) q"
      using data_add [OF d _ t(3), where b = ?b and as = "(adders s)[i := A_ret 0]" and t = t] False by blast
    note e = enqueue_same [OF q(1)]
    have "adder_step i p s = Some (s\<lparr>tp := Some q, workers := wake_w ?b (workers s), adders := (adders s)[i := A_ret 0], accepted := accepted s @ [t]\<rparr>)"
      (is "_ = Some ?s") using q(1) t(2) tp False nz by (auto simp: adder_step_def add_section_def signal_def)
    moreover have hd: "queue_cur_num pool = 0 \<Longrightarrow> ?b" "0 \<le> queue_cur_num pool" using d by (auto simp: pool_data_ok_def list_ok_def)
    have "pool_sync_ok ?s q"
      using y False q(2) e hd by (auto simp: pool_sync_ok_def dest!: in_upd)
    ultimately show ?thesis using q(3) a by (auto simp: pool_inv_def dest!: in_upd)
  qed
qed

lemma destroyer_step_inv:
  assumes inv: "pool_inv s" and tp: "tp s = Some pool" and run: "can_run Destroyer s"
  shows "wp (destroyer_step s) pool_inv"
proof -
  from inv tp have d_ok: "pool_data_ok s pool" and y: "pool_sync_ok s pool" by (auto elim: pool_invE)
  have a: "\<forall>t. A_ready t \<in> set (adders s) \<or> A_wait t \<in> set (adders s) \<longrightarrow> fst t \<noteq> 0 \<and> snd t \<noteq> NULL" using inv by (simp add: pool_inv_def)
  note s = pool_inv_def pool_sync_ok_def closed_states_def
  from run consider (idle) "destroyer s = D_idle" | (ready) "destroyer s = D_ready" | (closed) "destroyer s = D_closed"
    | (nfull) "destroyer s = D_not_full" | (join) i where "destroyer s = D_join i" by auto
  then show ?thesis
  proof cases
    case idle
    have "pool_close pool = False" "queue_close pool = False" using y idle by (auto simp: pool_sync_ok_def closed_states_def)
    then show ?thesis
      using y idle a tp d_ok unfolding destroyer_step_def destroy_section_def destroy_loop_def by (auto simp: s)
  next
    case ready
    then show ?thesis using y a tp d_ok unfolding destroyer_step_def destroy_loop_def by (auto simp: s)
  next
    case closed
    then show ?thesis using y a tp d_ok unfolding destroyer_step_def signal_def by (auto simp: s)
  next
    case nfull
    then show ?thesis using y a tp d_ok unfolding destroyer_step_def signal_def by (auto simp: s)
  next
    case (join i)
    have n: "thread_num pool = int (length (workers s))" using d_ok by (simp add: pool_data_ok_def)
    have ij: "i \<le> length (workers s)" "\<forall>j < i. workers s ! j = W_done" using y join by (simp_all add: pool_sync_ok_def)
    show ?thesis
    proof (cases "i < length (workers s)")
      case True
      have "pool_data_ok (s\<lparr>destroyer := D_join (i + 1)\<rparr>) pool" using d_ok by (simp add: pool_data_ok_def)
      moreover have "workers s ! i = W_done" using run join True by auto
      ultimately show ?thesis using y join a tp n True unfolding destroyer_step_def by (auto simp: s less_Suc_eq)
    next
      case False
      then have w: "set (workers s) \<subseteq> {W_done}" using ij by (auto simp: in_set_conv_nth)
      then have "running (workers s) = []" by (induction "workers s") (auto simp: running_def)
      moreover have "queue_cur_num pool = 0" using y join by (simp add: pool_sync_ok_def closed_states_def)
      ultimately have "accepted s = taken s" "mset (taken s) = mset (executed s)"
        using d_ok by (auto simp: pool_data_ok_def list_ok_def queue_tasks_def)
      then show ?thesis using w a join False n tp unfolding destroyer_step_def by (auto simp: s)
    qed
  qed
qed

lemma pool_step_inv:
  assumes inv: "pool_inv s" and step: "pool_step s s'"
  shows "pool_inv s'"
  using step
proof (cases rule: pool_step.cases)
  case (run t)
  then have "tp s \<noteq> None" by (cases t; cases "tp s") (simp_all add: worker_step_def adder_step_def destroyer_step_def)
  then obtain pool where tp: "tp s = Some pool" by blast
  have "wp (thread_step t s) pool_inv"
    using run(1) worker_step_inv [OF inv tp] adder_step_inv [OF inv tp] destroyer_step_inv [OF inv tp]
    by (cases t) (simp_all del: can_run_iff)
  with run(2) show ?thesis by simp
next
  case (call f x)
  then obtain pool where tp: "tp s = Some pool" by blast
  from inv tp have "pool_data_ok s pool" "pool_sync_ok s pool" by (auto elim: pool_invE)
  moreover from this have "pool_sync_ok s' pool" unfolding call(1) by (auto simp: pool_sync_ok_def)
  moreover have "\<forall>t. A_ready t \<in> set (adders s') \<or> A_wait t \<in> set (adders s') \<longrightarrow> fst t \<noteq> 0 \<and> snd t \<noteq> NULL"
    using inv call(3,4) unfolding call(1) pool_inv_def by auto
  ultimately show ?thesis using tp call(1) by (simp add: pool_inv_def)
next
  case (spurious_w i)
  then have "W_wait \<in> set (workers s)" by (metis nth_mem)
  then obtain pool where tp: "tp s = Some pool" using inv by (auto simp: pool_inv_def split: option.splits)
  from inv tp have "pool_data_ok s pool" "pool_sync_ok s pool" by (auto elim: pool_invE)
  moreover from this have "pool_sync_ok s' pool" unfolding spurious_w(1) using spurious_w(2,3) by (auto simp: pool_sync_ok_def nth_list_update dest!: in_upd)
  moreover have "pool_data_ok s' pool" unfolding spurious_w(1) using \<open>pool_data_ok s pool\<close> running_upd_ready [OF spurious_w(2,3)] by (simp add: pool_data_ok_def)
  ultimately show ?thesis using inv tp spurious_w(1) by (simp add: pool_inv_def)
next
  case (spurious_a i t)
  then have t: "A_wait t \<in> set (adders s)" by (metis nth_mem)
  then have "fst t \<noteq> 0" "snd t \<noteq> NULL" using inv unfolding pool_inv_def by blast+
  moreover have "tp s = Some pool \<Longrightarrow> pool_sync_ok s pool \<Longrightarrow> pool_sync_ok s' pool" for pool
    unfolding spurious_a(1) by (auto simp: pool_sync_ok_def dest!: in_upd)
  ultimately show ?thesis using inv spurious_a(1) by (auto simp: pool_inv_def split: option.splits dest!: in_upd)
next
  case spurious_d
  then show ?thesis using inv by (auto simp: pool_inv_def pool_sync_ok_def closed_states_def split: option.splits)
qed

definition pool_starts :: "int \<Rightarrow> int \<Rightarrow> pool_state \<Rightarrow> bool" where
  "pool_starts n q s \<longleftrightarrow> 0 \<le> n \<and> 0 \<le> q \<and> (\<exists>fails. threadpool_init n q fails = Some s)"

interpretation pool_machine: invariant_machine "pool_starts n q" pool_step pool_inv for n q
  by unfold_locales (auto simp: pool_starts_def intro: pool_init_inv pool_step_inv)

subsection \<open>Progress\<close>

lemma pool_progress:
  assumes inv: "pool_inv s" and tp: "tp s = Some pool" and w: "workers s \<noteq> []" "1 \<le> queue_max_num pool"
    and busy: "queue_cur_num pool \<noteq> 0 \<or> (\<exists>t. A_wait t \<in> set (adders s) \<or> A_ready t \<in> set (adders s)) \<or> destroyer s \<noteq> D_idle"
  shows "\<exists>t. can_run t s \<and> (t = Destroyer \<longrightarrow> destroyer s \<noteq> D_idle)"
proof (cases "\<exists>i. can_run (Worker i) s")
  case False
  have y: "pool_sync_ok s pool" and d: "pool_data_ok s pool" using inv tp by (auto elim: pool_invE)
  have ws: "workers s ! i = W_wait \<or> workers s ! i = W_done" if "i < length (workers s)" for i
    using False that by (cases "workers s ! i") auto
  show ?thesis
  proof (cases "\<exists>i < length (workers s). workers s ! i = W_wait")
    case True
    then have "W_wait \<in> set (workers s)" by (metis nth_mem)
    then have c: "queue_cur_num pool = 0" "pool_close pool \<Longrightarrow> destroyer s = D_closed" using y by (auto simp: pool_sync_ok_def)
    show ?thesis
    proof (cases "\<exists>t. A_ready t \<in> set (adders s)")
      case True
      then obtain i t where "i < length (adders s)" "adders s ! i = A_ready t" by (metis in_set_conv_nth)
      then have "can_run (Adder i NULL) s" by simp
      then show ?thesis by blast
    next
      case False
      have "\<not> (\<exists>t. A_wait t \<in> set (adders s))" using y c(1) w(2) by (auto simp: pool_sync_ok_def)
      then have "destroyer s \<noteq> D_idle" using busy c(1) False by blast
      moreover have "destroyer s \<noteq> D_wait" "\<forall>e. destroyer s \<noteq> D_ret e" "closed_states (destroyer s) \<Longrightarrow> destroyer s = D_closed"
        using y c by (auto simp: pool_sync_ok_def)
      ultimately have "can_run Destroyer s" by (cases "destroyer s") (auto simp: closed_states_def)
      then show ?thesis using \<open>destroyer s \<noteq> D_idle\<close> by blast
    qed
  next
    case False
    then have all: "\<forall>i < length (workers s). workers s ! i = W_done" using ws by blast
    moreover from this w(1) have "W_done \<in> set (workers s)" by (metis length_greater_0_conv nth_mem)
    then have "closed_states (destroyer s)" "\<forall>e. destroyer s \<noteq> D_ret e" using y by (auto simp: pool_sync_ok_def)
    ultimately have "can_run Destroyer s \<and> destroyer s \<noteq> D_idle" by (cases "destroyer s") (auto simp: closed_states_def)
    then show ?thesis by blast
  qed
qed blast

subsection \<open>Runs as lists of actions\<close>

datatype action = Run thread | Call task

fun exec_actions :: "action list \<Rightarrow> pool_state \<Rightarrow> pool_state option" where
  "exec_actions [] s = Some s"
| "exec_actions (Run t # as) s = (if can_run t s then do { s \<leftarrow> thread_step t s; exec_actions as s } else None)"
| "exec_actions (Call t # as) s =
     (if tp s \<noteq> None \<and> fst t \<noteq> 0 \<and> snd t \<noteq> NULL then exec_actions as (s\<lparr>adders := adders s @ [A_ready t]\<rparr>) else None)"

lemma exec_reach: "exec_actions as s = Some s' \<Longrightarrow> pool_step\<^sup>*\<^sup>* s s'"
proof (induction as s rule: exec_actions.induct)
  case (2 t as s)
  then obtain s1 where "can_run t s" "thread_step t s = Some s1" "exec_actions as s1 = Some s'" by (auto split: if_splits simp: Option.bind_eq_Some_conv)
  then show ?case using 2(1) by (meson converse_rtranclp_into_rtranclp pool_step.run)
next
  case (3 t as s)
  then have "pool_step s (s\<lparr>adders := adders s @ [A_ready t]\<rparr>)" by (cases t) (auto intro: pool_step.call split: if_splits)
  then show ?case using 3 by (auto split: if_splits intro: converse_rtranclp_into_rtranclp)
qed simp

end
