(* ===== verification/Thread_Pool_Correct.thy ===== *)
theory Thread_Pool_Correct
  imports Thread_Pool
begin

text \<open>The properties of the thread pools.\<close>

subsection \<open>A run\<close>

definition demo_init :: pool_state where
  "demo_init = the (threadpool_init 1 1 [])"

lemma demo_init: "threadpool_init 1 1 [] = Some demo_init"
  by (simp add: demo_init_def threadpool_init_def)

lemma demo_starts_pool: "pool_starts 1 1 demo_init"
  using demo_init by (auto simp: pool_starts_def)

text \<open>One worker and a queue of one: three tasks are offered, the third finds the queue full; the pool is destroyed.\<close>

definition demo_acts :: "action list" where
  "demo_acts = [Call (1, 5), Run (Adder 0 10), Run (Worker 0), Call (2, 6), Run (Adder 1 11), Call (3, 7), Run (Adder 2 12),
     Run Destroyer, Run (Worker 0), Run (Worker 0), Run Destroyer, Run Destroyer, Run Destroyer, Run (Worker 0), Run (Worker 0),
     Run Destroyer, Run Destroyer]"

text \<open>C17. Whatever the interleaving, the tasks taken from the queue and the tasks still in it are the accepted tasks
  in the order of acceptance, the queue never exceeds its maximum, and the tasks taken are those executed and
  those a worker is executing, each once.\<close>

theorem pool_fifo_once:
  assumes "pool_starts n q s0" "pool_step\<^sup>*\<^sup>* s0 s" "tp s = Some pool"
  shows "accepted s = taken s @ queue_tasks pool \<and> int (length (queue_tasks pool)) = queue_cur_num pool \<and>
    queue_cur_num pool \<le> queue_max_num pool \<and>
    mset (taken s) = mset (executed s) + mset (map (task_at pool) (running (workers s)))"
  using pool_machine.inv_reachable [OF assms(1,2)] assms(3)
  by (auto simp: pool_inv_def pool_data_ok_def list_ok_def queue_tasks_def)

theorem pool_fifo_once_witness:
  "case exec_actions (take 8 demo_acts) demo_init of None \<Rightarrow> False
   | Some s \<Rightarrow> (case tp s of None \<Rightarrow> False | Some pool \<Rightarrow> accepted s = taken s @ queue_tasks pool)"
proof -
  have "(case exec_actions (take 8 demo_acts) demo_init of None \<Rightarrow> False | Some s \<Rightarrow> tp s \<noteq> None)" by code_simp
  then obtain s pool where s: "exec_actions (take 8 demo_acts) demo_init = Some s" "tp s = Some pool" by (auto split: option.splits)
  from pool_fifo_once [OF demo_starts_pool exec_reach [OF s(1)] s(2)] s show ?thesis by simp
qed

text \<open>C18. When \<open>threadpool_destroy\<close> has returned 0, every accepted task has been executed exactly once and every worker
  has ended.\<close>

theorem destroy_drains:
  assumes "pool_starts n q s0" "pool_step\<^sup>*\<^sup>* s0 s" "destroyer s = D_ret 0"
  shows "tp s = None \<and> mset (executed s) = mset (accepted s) \<and> set (workers s) \<subseteq> {W_done}"
  using pool_machine.inv_reachable [OF assms(1,2)] assms(3)
  by (auto simp: pool_inv_def pool_sync_ok_def split: option.splits)

theorem destroy_drains_witness:
  "case exec_actions demo_acts demo_init of None \<Rightarrow> False
   | Some s \<Rightarrow> destroyer s = D_ret 0 \<and> mset (executed s) = mset (accepted s) \<and> length (executed s) = 2"
proof -
  have "(case exec_actions demo_acts demo_init of None \<Rightarrow> False | Some s \<Rightarrow> destroyer s = D_ret 0 \<and> length (executed s) = 2)" by code_simp
  then obtain s where s: "exec_actions demo_acts demo_init = Some s" "destroyer s = D_ret 0" "length (executed s) = 2" by (auto split: option.splits)
  from destroy_drains [OF demo_starts_pool exec_reach [OF s(1)] s(2)] s show ?thesis by simp
qed



text \<open>A caller of \<open>threadpool_add_job\<close> that was waiting for room when the pool is destroyed is woken, but
  \<open>threadpool_destroy\<close> does not wait for it: it frees the pool, and the caller goes on with the freed one.\<close>

theorem add_after_free:
  "case exec_actions demo_acts demo_init of None \<Rightarrow> False
   | Some s \<Rightarrow> tp s = None \<and> can_run (Adder 2 12) s \<and> thread_step (Adder 2 12) s = None"
  by code_simp

subsection \<open>The ring-buffer pool\<close>

lemma ring_push_max: "ring_push t r = Some r' \<Longrightarrow> max_task_num r' = max_task_num r"
  by (auto simp: ring_push_def ring_add_def Let_def split: if_splits)

lemma ring_pop_max: "ring_pop r = Some (t, r') \<Longrightarrow> max_task_num r' = max_task_num r"
  by (auto simp: ring_pop_def ring_take_def Let_def Option.bind_eq_Some_conv split: if_splits)

lemma ring_run_max: "ring.run ops r = Some (ts, r') \<Longrightarrow> max_task_num r' = max_task_num r"
proof (induction ops arbitrary: r ts)
  case (Cons a ops)
  then show ?case
    by (cases a) (auto simp: Option.bind_eq_Some_conv dest!: ring_push_max ring_pop_max)
qed simp

text \<open>C20. In a ring-buffer pool created for \<open>m\<close> tasks the tasks come out in the order in which they went in, whatever
  the sequence of additions and removals and however often the indices wrap round, and a task is refused exactly
  when \<open>m - 1\<close> are waiting.\<close>

theorem ring_fifo:
  assumes "ring_create n m arrays starts = Some r" "1 \<le> m" "length (fst arrays) = nat m + 1" "length (snd arrays) = nat m + 1"
    and "ring.allowed ops r"
  shows "wp (ring.run ops r) (\<lambda>(ts, r'). ts @ ring_items r' = ring.added ops \<and>
    (\<forall>t. wp (ring_add t r') (\<lambda>(e, q). e = (if int (length (ring_items r')) < m - 1 then 0 else -1))))"
proof -
  note c = ring_create_ok [OF assms(1-4)]
  from ring.fifo [OF c(1) assms(5)] c(2)
  obtain ts r' where r: "ring.run ops r = Some (ts, r')" "ring_ok r'" "ts @ ring_items r' = ring.added ops" by (auto elim!: wpE)
  have m: "max_task_num r' = m" using ring_run_max [OF r(1)] c(3) by simp
  have l: "int (length (ring_items r')) = curr_task_num r'" using r(2) by (simp add: ring_ok_def ring_items_def)
  have "wp (ring_add t r') (\<lambda>(e, q). e = (if int (length (ring_items r')) < m - 1 then 0 else -1))" for t
    using ring_add_ok [OF r(2), of t] ring_full [OF r(2), of t] l m
    by (cases "ring_room t r'") (auto simp: ring_room_def elim!: wp_mono)
  then show ?thesis using r by simp
qed

definition demo_ring :: "ptr list \<Rightarrow> nat list \<Rightarrow> nat \<Rightarrow> nat \<Rightarrow> int \<Rightarrow> ring_pool" where
  "demo_ring xs fs i j n = \<lparr>threadnum = 2, threads = [1, 2], ring_args = xs, ring_funs = fs, ring_start = i, ring_end = j,
     curr_task_num = n, max_task_num = 3\<rparr>"

lemma demo_ring_steps:
  "ring_push (7, 5) (demo_ring [0, 0, 0, 0] [0, 0, 0, 0] 0 0 0) = Some (demo_ring [5, 0, 0, 0] [7, 0, 0, 0] 0 1 1)"
  "ring_push (2, 6) (demo_ring [5, 0, 0, 0] [7, 0, 0, 0] 0 1 1) = Some (demo_ring [5, 6, 0, 0] [7, 2, 0, 0] 0 2 2)"
  "ring_pop (demo_ring [5, 6, 0, 0] [7, 2, 0, 0] 0 2 2) = Some ((7, 5), demo_ring [5, 6, 0, 0] [7, 2, 0, 0] 1 2 1)"
  "ring_push (3, 7) (demo_ring [5, 6, 0, 0] [7, 2, 0, 0] 1 2 1) = Some (demo_ring [5, 6, 7, 0] [7, 2, 3, 0] 1 3 2)"
  "ring_pop (demo_ring [5, 6, 7, 0] [7, 2, 3, 0] 1 3 2) = Some ((2, 6), demo_ring [5, 6, 7, 0] [7, 2, 3, 0] 2 3 1)"
  "ring_push (9, 8) (demo_ring [5, 6, 7, 0] [7, 2, 3, 0] 2 3 1) = Some (demo_ring [5, 6, 7, 8] [7, 2, 3, 9] 2 1 2)"
  "ring_items (demo_ring [5, 6, 0, 0] [7, 2, 0, 0] 0 2 2) \<noteq> []" "ring_items (demo_ring [5, 6, 7, 0] [7, 2, 3, 0] 1 3 2) \<noteq> []"
  by code_simp+

lemma demo_ring_room: "ring_room t (demo_ring xs fs i j n) \<longleftrightarrow> n \<le> 1"
  by (simp add: ring_room_def demo_ring_def)

theorem ring_fifo_witness:
  "wp (ring.run [Add (7, 5), Add (2, 6), Take, Add (3, 7), Take, Add (9, 8)] (the (ring_create 2 3 ([0, 0, 0, 0], [0, 0, 0, 0]) [1, 2])))
     (\<lambda>(ts, r'). ts = [(7, 5), (2, 6)] \<and> ts @ ring_items r' = [(7, 5), (2, 6), (3, 7), (9, 8)])"
proof -
  let ?ops = "[Add (7, 5), Add (2, 6), Take, Add (3, 7), Take, Add (9, 8)]" and ?r = "demo_ring [0, 0, 0, 0] [0, 0, 0, 0] 0 0 0"
  have r: "ring_create 2 3 ([0, 0, 0, 0], [0, 0, 0, 0]) [1, 2] = Some ?r" by (simp add: ring_create_def demo_ring_def)
  have a: "ring.allowed ?ops ?r" by (simp add: demo_ring_steps demo_ring_room del: One_nat_def)
  have "ring.run ?ops ?r = Some ([(7, 5), (2, 6)], demo_ring [5, 6, 7, 8] [7, 2, 3, 9] 2 1 2)" by (simp add: demo_ring_steps del: One_nat_def)
  then show ?thesis using ring_fifo [OF r _ _ _ a] r by simp
qed

end
