(* ===== verification/Work_Queue.thy ===== *)
theory Work_Queue
  imports Prelude
begin

text \<open>
  \<open>src/threadpool/threadpool/workqueue.c\<close> (the same file is in \<open>src/mult_thread_server\<close>): worker
  threads that take jobs from a list, with the mutex as a part of the state. A step is what a
  thread does from locking the mutex to unlocking it or waiting; the mutex of a thread that ends
  without unlocking it stays locked.
\<close>

subsection \<open>The list of jobs\<close>

text \<open>\<open>LL_ADD\<close> does not set the \<open>prev\<close> field of the old head.\<close>

record job_t =
  job_function :: nat
  user_data :: ptr
  prev :: ptr
  nxt :: ptr

definition LL_ADD :: "ptr \<Rightarrow> ptr \<Rightarrow> (ptr \<rightharpoonup> job_t) \<Rightarrow> (ptr \<times> (ptr \<rightharpoonup> job_t)) option" where
  "LL_ADD item list h = do {
     h \<leftarrow> store h item (prev_update (\<lambda>_. NULL));
     h \<leftarrow> store h item (nxt_update (\<lambda>_. list));
     Some (item, h)
   }"

definition LL_REMOVE :: "ptr \<Rightarrow> ptr \<Rightarrow> (ptr \<rightharpoonup> job_t) \<Rightarrow> (ptr \<times> (ptr \<rightharpoonup> job_t)) option" where
  "LL_REMOVE item list h = do {
     p \<leftarrow> load h item prev;
     n \<leftarrow> load h item nxt;
     h \<leftarrow> (if p \<noteq> NULL then store h p (nxt_update (\<lambda>_. n)) else Some h);
     h \<leftarrow> (if n \<noteq> NULL then store h n (prev_update (\<lambda>_. p)) else Some h);
     list \<leftarrow> Some (if list = item then n else list);
     h \<leftarrow> store h item (nxt_update (\<lambda>_. NULL));
     h \<leftarrow> store h item (prev_update (\<lambda>_. NULL));
     Some (list, h)
   }"

text \<open>The list at \<open>p\<close>: distinct jobs linked by \<open>nxt\<close>, all with an empty \<open>prev\<close>.\<close>

fun ll_path :: "(ptr \<rightharpoonup> job_t) \<Rightarrow> ptr \<Rightarrow> ptr list \<Rightarrow> bool" where
  "ll_path h p [] \<longleftrightarrow> p = NULL"
| "ll_path h p (a # as) \<longleftrightarrow> p \<noteq> NULL \<and> a = p \<and> a \<notin> set as \<and> (\<exists>j. h p = Some j \<and> prev j = NULL \<and> ll_path h (nxt j) as)"

lemma ll_path_upd: "a \<notin> set ps \<Longrightarrow> ll_path (h(a := v)) p ps = ll_path h p ps"
  by (induction ps arbitrary: p) auto

lemma LL_ADD_path:
  assumes "ll_path h p ps" "a \<noteq> NULL" "a \<notin> set ps" "h a \<noteq> None"
  shows "wp (LL_ADD a p h) (\<lambda>(q, h'). ll_path h' q (a # ps) \<and> (\<forall>x. x \<noteq> a \<longrightarrow> h' x = h x) \<and> dom h' = dom h)"
  using assms by (auto simp: LL_ADD_def ll_path_upd insert_absorb domI)

lemma LL_REMOVE_path:
  assumes "ll_path h p (a # ps)"
  shows "wp (LL_REMOVE a p h) (\<lambda>(q, h'). ll_path h' q ps \<and> dom h' = dom h \<and>
     (\<forall>x. map_option job_function (h' x) = map_option job_function (h x) \<and> map_option user_data (h' x) = map_option user_data (h x)))"
proof -
  from assms obtain j where j: "p = a" "a \<noteq> NULL" "h a = Some j" "prev j = NULL" "ll_path h (nxt j) ps" "a \<notin> set ps" by auto
  show ?thesis
  proof (cases ps)
    case Nil
    then show ?thesis using j by (auto simp: LL_REMOVE_def insert_absorb domI)
  next
    case (Cons b bs)
    then obtain k where k: "nxt j = b" "b \<noteq> NULL" "h b = Some k" "prev k = NULL" "b \<notin> set bs" "ll_path h (nxt k) bs" "a \<noteq> b" "a \<notin> set bs"
      using j by auto
    then have "k\<lparr>prev := NULL\<rparr> = k" by simp
    then show ?thesis using j(1-4) k Cons by (auto simp: LL_REMOVE_def ll_path_upd insert_absorb domI)
  qed
qed

subsection \<open>Threads\<close>

datatype worker_pc = T_top | T_wait | T_run ptr | T_exit

record worker_t =
  terminate :: bool
  pc :: worker_pc

datatype shutdown_pc = S_idle | S_mark nat | S_lock | S_done

record workqueue =
  wq_workers :: "worker_t list"
  waiting_jobs :: ptr
  wq_jobs :: "ptr \<rightharpoonup> job_t"
  mutex_held :: bool
  shutdown :: shutdown_pc
  ran :: "ptr list"


definition set_pc :: "nat \<Rightarrow> worker_pc \<Rightarrow> workqueue \<Rightarrow> workqueue" where
  "set_pc i x q = q\<lparr>wq_workers := (wq_workers q)[i := (wq_workers q ! i)\<lparr>pc := x\<rparr>]\<rparr>"

text \<open>
  \<open>worker_function\<close> from the lock on: the inner loop, the test of \<open>terminate\<close>, which leaves the
  loop with the mutex locked, and the removal of a job; then the call of the job's function.
\<close>

definition worker_section :: "nat \<Rightarrow> workqueue \<Rightarrow> workqueue option" where
  "worker_section i q =
     (let w = wq_workers q ! i in
      if waiting_jobs q = NULL \<and> \<not> terminate w then Some (set_pc i T_wait q)
      else if terminate w then Some ((set_pc i T_exit q)\<lparr>mutex_held := True\<rparr>)
      else do {
        j \<leftarrow> Some (waiting_jobs q);
        (l, h) \<leftarrow> LL_REMOVE j (waiting_jobs q) (wq_jobs q);
        Some (set_pc i (T_run j) (q\<lparr>waiting_jobs := l, wq_jobs := h\<rparr>))
      })"

definition worker_run :: "nat \<Rightarrow> ptr \<Rightarrow> workqueue \<Rightarrow> workqueue option" where
  "worker_run i j q = do {
     _ \<leftarrow> load (wq_jobs q) j job_function;
     Some (set_pc i T_top (q\<lparr>ran := ran q @ [j]\<rparr>))
   }"

text \<open>\<open>workqueue_add_job\<close>; \<open>i\<close> is the waiting worker that \<open>pthread_cond_signal\<close> wakes.\<close>

definition wake :: "nat \<Rightarrow> workqueue \<Rightarrow> workqueue" where
  "wake i q = (if i < length (wq_workers q) \<and> pc (wq_workers q ! i) = T_wait then set_pc i T_top q else q)"

definition workqueue_add_job :: "ptr \<Rightarrow> nat \<Rightarrow> workqueue \<Rightarrow> workqueue option" where
  "workqueue_add_job j i q = do {
     (l, h) \<leftarrow> LL_ADD j (waiting_jobs q) (wq_jobs q);
     Some (wake i (q\<lparr>waiting_jobs := l, wq_jobs := h\<rparr>))
   }"

text \<open>\<open>workqueue_shutdown\<close>: the marks are set one by one without the mutex.\<close>

definition shutdown_mark :: "nat \<Rightarrow> workqueue \<Rightarrow> workqueue" where
  "shutdown_mark k q = (if k < length (wq_workers q)
     then q\<lparr>wq_workers := (wq_workers q)[k := (wq_workers q ! k)\<lparr>terminate := True\<rparr>], shutdown := S_mark (k + 1)\<rparr>
     else q\<lparr>shutdown := S_lock\<rparr>)"

definition shutdown_section :: "workqueue \<Rightarrow> workqueue" where
  "shutdown_section q = q\<lparr>waiting_jobs := NULL, shutdown := S_done,
     wq_workers := map (\<lambda>w. if pc w = T_wait then w\<lparr>pc := T_top\<rparr> else w) (wq_workers q)\<rparr>"

inductive wq_step :: "workqueue \<Rightarrow> workqueue \<Rightarrow> bool" where
  locked: "i < length (wq_workers q) \<Longrightarrow> pc (wq_workers q ! i) = T_top \<Longrightarrow> \<not> mutex_held q \<Longrightarrow> worker_section i q = Some q' \<Longrightarrow> wq_step q q'"
| job: "i < length (wq_workers q) \<Longrightarrow> pc (wq_workers q ! i) = T_run j \<Longrightarrow> worker_run i j q = Some q' \<Longrightarrow> wq_step q q'"
| alloc: "j \<noteq> NULL \<Longrightarrow> wq_jobs q j = None \<Longrightarrow> wq_step q (q\<lparr>wq_jobs := (wq_jobs q)(j \<mapsto> d)\<rparr>)"
| add: "\<not> mutex_held q \<Longrightarrow> shutdown q = S_idle \<Longrightarrow> wq_jobs q j \<noteq> None \<Longrightarrow> workqueue_add_job j i q = Some q' \<Longrightarrow> wq_step q q'"
| stop: "shutdown q = S_idle \<Longrightarrow> wq_step q (q\<lparr>shutdown := S_mark 0\<rparr>)"
| mark: "shutdown q = S_mark k \<Longrightarrow> wq_step q (shutdown_mark k q)"
| clear: "shutdown q = S_lock \<Longrightarrow> \<not> mutex_held q \<Longrightarrow> wq_step q (shutdown_section q)"
| spurious: "i < length (wq_workers q) \<Longrightarrow> pc (wq_workers q ! i) = T_wait \<Longrightarrow> wq_step q (set_pc i T_top q)"

inductive_cases wq_stepE: "wq_step q q'"

subsection \<open>At most one worker ends\<close>

definition exited :: "workqueue \<Rightarrow> nat set" where
  "exited q = {i. i < length (wq_workers q) \<and> pc (wq_workers q ! i) = T_exit}"



lemma exited_simps [simp]: "exited (q\<lparr>waiting_jobs := l\<rparr>) = exited q" "exited (q\<lparr>wq_jobs := h\<rparr>) = exited q" "exited (q\<lparr>shutdown := s\<rparr>) = exited q"
  "exited (q\<lparr>ran := r\<rparr>) = exited q" "exited (q\<lparr>mutex_held := b\<rparr>) = exited q"
  by (simp_all add: exited_def)

lemma set_pc_simps [simp]: "mutex_held (set_pc i x q) = mutex_held q"
  by (simp add: set_pc_def)





subsection \<open>Properties\<close>




end
