(* ===== verification/C_Array.thy ===== *)
theory C_Array
  imports Prelude
begin

text \<open>
  C arrays: a list read and written by an \<open>int\<close> index, where an access out of bounds is \<open>None\<close>.
\<close>

definition aget :: "'a list \<Rightarrow> int \<Rightarrow> 'a option" where
  "aget xs i = (if 0 \<le> i \<and> nat i < length xs then Some (xs ! nat i) else None)"

definition aset :: "'a list \<Rightarrow> int \<Rightarrow> 'a \<Rightarrow> 'a list option" where
  "aset xs i x = (if 0 \<le> i \<and> nat i < length xs then Some (xs[nat i := x]) else None)"

lemma aget_int [simp]: "i < length xs \<Longrightarrow> aget xs (int i) = Some (xs ! i)"
  by (simp add: aget_def)

lemma aset_int [simp]: "i < length xs \<Longrightarrow> aset xs (int i) x = Some (xs[i := x])"
  by (simp add: aset_def)

end
