(* ===== verification/Time_Heap.thy ===== *)
theory Time_Heap
  imports C_Array "HOL-Library.Multiset"
begin

text \<open>
  The class \<open>time_heap\<close> of the time-heap header under \<open>src/timer\<close>: timers in a binary heap
  ordered by their expiry time. \<open>timers\<close> is the memory that holds the timers, \<open>harray\<close> the array
  of pointers; a read or write outside the array or of a deleted timer is \<open>None\<close>. A callback is a
  number; the calls a \<open>tick\<close> makes are returned as a list, and callbacks do not touch the heap.
\<close>

subsection \<open>Data\<close>

record heap_timer =
  expire :: int
  cb_func :: "nat option"
  timer_user_data :: ptr

record time_heap =
  harray :: "ptr list"
  capacity :: int
  cur_size :: int
  timers :: "ptr \<rightharpoonup> heap_timer"

subsection \<open>Operations\<close>

function down_loop :: "(ptr \<rightharpoonup> heap_timer) \<Rightarrow> int \<Rightarrow> ptr \<Rightarrow> int \<Rightarrow> ptr list \<Rightarrow> (int \<times> ptr list) option" where
  "down_loop mem n temp hole a =
     (if 0 \<le> hole \<and> hole * 2 + 1 \<le> n - 1 then do {
        child \<leftarrow> Some (hole * 2 + 1);
        child \<leftarrow> (if child < n - 1 then do {
            r \<leftarrow> aget a (child + 1); re \<leftarrow> load mem r expire;
            l \<leftarrow> aget a child; le \<leftarrow> load mem l expire;
            Some (if re < le then child + 1 else child)
          } else Some child);
        c \<leftarrow> aget a child;
        ce \<leftarrow> load mem c expire;
        te \<leftarrow> load mem temp expire;
        if ce < te then do { a \<leftarrow> aset a hole c; down_loop mem n temp child a }
        else Some (hole, a)
      } else Some (hole, a))"
  by pat_completeness auto
termination
  by (relation "measure (\<lambda>(mem, n, temp, hole, a). nat (n - hole))")
    (auto simp: Option.bind_eq_Some_conv split: if_splits)

declare down_loop.simps [simp del]

definition percolate_down :: "int \<Rightarrow> time_heap \<Rightarrow> time_heap option" where
  "percolate_down hole h = do {
     temp \<leftarrow> aget (harray h) hole;
     (hole, a) \<leftarrow> down_loop (timers h) (cur_size h) temp hole (harray h);
     a \<leftarrow> aset a hole temp;
     Some (h\<lparr>harray := a\<rparr>)
   }"

definition time_heap_new :: "int \<Rightarrow> (ptr \<rightharpoonup> heap_timer) \<Rightarrow> time_heap option" where
  "time_heap_new cap mem = (if cap < 0 then None
     else Some \<lparr>harray = replicate (nat cap) NULL, capacity = cap, cur_size = 0, timers = mem\<rparr>)"

fun heapify :: "nat \<Rightarrow> time_heap \<Rightarrow> time_heap option" where
  "heapify 0 h = Some h"
| "heapify (Suc i) h = do { h \<leftarrow> percolate_down (int i) h; heapify i h }"

text \<open>The constructor from an array; \<open>i\<close> counts down from \<open>(size - 1) / 2\<close>.\<close>

definition time_heap_of :: "ptr list \<Rightarrow> int \<Rightarrow> int \<Rightarrow> (ptr \<rightharpoonup> heap_timer) \<Rightarrow> time_heap option" where
  "time_heap_of init_array sz cap mem =
     (if cap < sz \<or> sz < 0 \<or> length init_array < nat sz then None
      else let h = \<lparr>harray = take (nat sz) init_array @ replicate (nat (cap - sz)) NULL, capacity = cap, cur_size = sz, timers = mem\<rparr> in
        if sz \<noteq> 0 then heapify (nat ((sz - 1) div 2) + 1) h else Some h)"

text \<open>\<open>capacity\<close> is an \<open>int\<close>: doubling it past \<open>INT_MAX\<close> is undefined.\<close>

definition resize :: "time_heap \<Rightarrow> time_heap option" where
  "resize h =
     (let c = 2 * capacity h; n = nat (cur_size h) in
      if c \<le> 2147483647 \<and> n \<le> nat c \<and> n \<le> length (harray h) then
        Some (h\<lparr>capacity := c, harray := take n (harray h) @ replicate (nat c - n) NULL\<rparr>)
      else None)"

fun up_loop :: "(ptr \<rightharpoonup> heap_timer) \<Rightarrow> ptr \<Rightarrow> nat \<Rightarrow> ptr list \<Rightarrow> (nat \<times> ptr list) option" where
  "up_loop mem timer 0 a = Some (0, a)"
| "up_loop mem timer (Suc h) a = do {
     p \<leftarrow> aget a (int (h div 2));
     pe \<leftarrow> load mem p expire;
     te \<leftarrow> load mem timer expire;
     if pe \<le> te then Some (Suc h, a)
     else do { a \<leftarrow> aset a (int (Suc h)) p; up_loop mem timer (h div 2) a }
   }"

definition add_timer :: "ptr \<Rightarrow> time_heap \<Rightarrow> time_heap option" where
  "add_timer timer h =
     (if timer = NULL then Some h
      else do {
        h \<leftarrow> (if cur_size h \<ge> capacity h then resize h else Some h);
        hole \<leftarrow> Some (cur_size h);
        h \<leftarrow> Some (h\<lparr>cur_size := cur_size h + 1\<rparr>);
        (hole, a) \<leftarrow> up_loop (timers h) timer (nat hole) (harray h);
        a \<leftarrow> aset a (int hole) timer;
        Some (h\<lparr>harray := a\<rparr>)
      })"

definition del_timer :: "ptr \<Rightarrow> time_heap \<Rightarrow> time_heap option" where
  "del_timer timer h =
     (if timer = NULL then Some h
      else do { m \<leftarrow> store (timers h) timer (cb_func_update (\<lambda>_. None)); Some (h\<lparr>timers := m\<rparr>) })"

definition heap_empty :: "time_heap \<Rightarrow> bool" where
  "heap_empty h \<longleftrightarrow> cur_size h = 0"

definition heap_top :: "time_heap \<Rightarrow> ptr option" where
  "heap_top h = (if heap_empty h then Some NULL else aget (harray h) 0)"

definition delete_timer :: "ptr \<Rightarrow> (ptr \<rightharpoonup> heap_timer) \<Rightarrow> (ptr \<rightharpoonup> heap_timer) option" where
  "delete_timer p m = (if m p = None then None else Some (m(p := None)))"

definition pop_timer :: "time_heap \<Rightarrow> time_heap option" where
  "pop_timer h =
     (if heap_empty h then Some h
      else do {
        p \<leftarrow> aget (harray h) 0;
        if p \<noteq> NULL then do {
          m \<leftarrow> delete_timer p (timers h);
          h \<leftarrow> Some (h\<lparr>timers := m, cur_size := cur_size h - 1\<rparr>);
          l \<leftarrow> aget (harray h) (cur_size h);
          a \<leftarrow> aset (harray h) 0 l;
          percolate_down 0 (h\<lparr>harray := a\<rparr>)
        } else Some h
      })"

text \<open>The loop of \<open>tick\<close> at time \<open>cur\<close>.\<close>

partial_function (option) tick_loop :: "int \<Rightarrow> ptr \<Rightarrow> time_heap \<Rightarrow> ((nat \<times> ptr) list \<times> time_heap) option" where
  "tick_loop cur tmp h =
     (if heap_empty h then Some ([], h)
      else if tmp = NULL then Some ([], h)
      else do {
        e \<leftarrow> load (timers h) tmp expire;
        if e > cur then Some ([], h)
        else do {
          t \<leftarrow> aget (harray h) 0;
          f \<leftarrow> load (timers h) t cb_func;
          d \<leftarrow> load (timers h) t timer_user_data;
          h \<leftarrow> pop_timer h;
          tmp \<leftarrow> aget (harray h) 0;
          (out, h) \<leftarrow> tick_loop cur tmp h;
          Some ((case f of Some g \<Rightarrow> (g, d) # out | None \<Rightarrow> out), h)
        }
      })"

definition tick :: "int \<Rightarrow> time_heap \<Rightarrow> ((nat \<times> ptr) list \<times> time_heap) option" where
  "tick cur h = do { tmp \<leftarrow> aget (harray h) 0; tick_loop cur tmp h }"

fun delete_all :: "ptr list \<Rightarrow> (ptr \<rightharpoonup> heap_timer) \<Rightarrow> (ptr \<rightharpoonup> heap_timer) option" where
  "delete_all [] m = Some m"
| "delete_all (p # ps) m = (if p = NULL then delete_all ps m else do { m \<leftarrow> delete_timer p m; delete_all ps m })"

definition time_heap_destroy :: "time_heap \<Rightarrow> (ptr \<rightharpoonup> heap_timer) option" where
  "time_heap_destroy h = delete_all (take (nat (cur_size h)) (harray h)) (timers h)"

subsection \<open>Heap order\<close>

definition par :: "nat \<Rightarrow> nat" where
  "par i = (i - 1) div 2"

text \<open>Order below the positions from \<open>m\<close> on; \<open>hole_ord\<close> leaves out the children of \<open>h\<close>.\<close>

definition heap_ord :: "(ptr \<Rightarrow> int) \<Rightarrow> nat \<Rightarrow> nat \<Rightarrow> ptr list \<Rightarrow> bool" where
  "heap_ord k m n xs \<longleftrightarrow> (\<forall>i < n. 0 < i \<longrightarrow> m \<le> par i \<longrightarrow> k (xs ! par i) \<le> k (xs ! i))"

definition hole_ord :: "(ptr \<Rightarrow> int) \<Rightarrow> nat \<Rightarrow> nat \<Rightarrow> nat \<Rightarrow> ptr list \<Rightarrow> bool" where
  "hole_ord k m n h xs \<longleftrightarrow> (\<forall>i < n. 0 < i \<longrightarrow> m \<le> par i \<longrightarrow> par i \<noteq> h \<longrightarrow> k (xs ! par i) \<le> k (xs ! i)) \<and>
     (\<forall>i < n. 0 < i \<longrightarrow> par i = h \<longrightarrow> 0 < h \<longrightarrow> m \<le> par h \<longrightarrow> k (xs ! par h) \<le> k (xs ! i))"

text \<open>\<open>last_ord\<close> leaves out \<open>h\<close> itself, for the way up.\<close>

definition last_ord :: "(ptr \<Rightarrow> int) \<Rightarrow> nat \<Rightarrow> nat \<Rightarrow> ptr list \<Rightarrow> bool" where
  "last_ord k n h xs \<longleftrightarrow> (\<forall>i < n. 0 < i \<longrightarrow> i \<noteq> h \<longrightarrow> k (xs ! par i) \<le> k (xs ! i)) \<and>
     (\<forall>i < n. 0 < i \<longrightarrow> par i = h \<longrightarrow> 0 < h \<longrightarrow> k (xs ! par h) \<le> k (xs ! i))"

definition swap :: "nat \<Rightarrow> nat \<Rightarrow> 'a list \<Rightarrow> 'a list" where
  "swap i j xs = xs[i := xs ! j, j := xs ! i]"

lemma swap_simps [simp]: "length (swap i j xs) = length xs" "i < length xs \<Longrightarrow> j < length xs \<Longrightarrow> mset (swap i j xs) = mset xs"
  "i < n \<Longrightarrow> j < n \<Longrightarrow> drop n (swap i j xs) = drop n xs"
  by (simp_all add: swap_def mset_swap)

lemma swap_nth: "i < length xs \<Longrightarrow> j < length xs \<Longrightarrow> swap i j xs ! k = (if k = j then xs ! i else if k = i then xs ! j else xs ! k)"
  by (simp add: swap_def nth_list_update)

lemma par_less: "0 < i \<Longrightarrow> par i < i"
  by (auto simp: par_def)

lemma par_child: "0 < i \<Longrightarrow> par i = h \<longleftrightarrow> i = 2 * h + 1 \<or> i = 2 * h + 2"
  by (auto simp: par_def)

lemma hole_ord_swap:
  assumes "hole_ord k m n h xs" "0 < c" "par c = h" "c < n" "n \<le> length xs" "k (xs ! c) \<le> k (xs ! h)" "m \<le> h"
    and "\<And>i. i < n \<Longrightarrow> 0 < i \<Longrightarrow> par i = h \<Longrightarrow> k (xs ! c) \<le> k (xs ! i)"
  shows "hole_ord k m n c (swap h c xs)"
proof -
  have hc: "h < c" "h < length xs" "c < length xs" using par_less [OF assms(2)] assms(3-5) by simp_all
  note nth = swap_nth [OF hc(2,3)]
  show ?thesis
    unfolding hole_ord_def
  proof (intro conjI allI impI)
    fix i assume i: "i < n" "0 < i" "m \<le> par i" "par i \<noteq> c"
    show "k (swap h c xs ! par i) \<le> k (swap h c xs ! i)"
    proof (cases "i = c")
      case True
      then show ?thesis using assms(3,6) hc by (simp add: nth)
    next
      case False
      show ?thesis
      proof (cases "i = h")
        case True
        then show ?thesis using assms(1,2,3,4) i hc par_less [OF i(2)] unfolding hole_ord_def by (auto simp: nth)
      next
        case False
        then show ?thesis using \<open>i \<noteq> c\<close> i assms(1,8) hc unfolding hole_ord_def by (auto simp: nth)
      qed
    qed
  next
    fix i assume i: "i < n" "0 < i" "par i = c"
    then have "c < i" using par_less by blast
    then show "k (swap h c xs ! par c) \<le> k (swap h c xs ! i)"
      using i assms(1,3,7) hc unfolding hole_ord_def by (auto simp: nth)
  qed
qed

lemma last_ord_swap:
  assumes "last_ord k n h xs" "0 < h" "h < n" "n \<le> length xs" "k (xs ! h) \<le> k (xs ! par h)"
  shows "last_ord k n (par h) (swap (par h) h xs)"
proof -
  let ?p = "par h"
  have ph: "?p < h" "?p < length xs" "h < length xs" using par_less [OF assms(2)] assms(3,4) by simp_all
  note nth = swap_nth [OF ph(2,3)]
  show ?thesis
    unfolding last_ord_def
  proof (intro conjI allI impI)
    fix i assume i: "i < n" "0 < i" "i \<noteq> ?p"
    show "k (swap ?p h xs ! par i) \<le> k (swap ?p h xs ! i)"
    proof (cases "i = h")
      case True
      then show ?thesis using assms(5) ph by (simp add: nth)
    next
      case False
      have "k (xs ! par i) \<le> k (xs ! i)" "par i = h \<Longrightarrow> k (xs ! ?p) \<le> k (xs ! i)"
        using assms(1,2) i False unfolding last_ord_def by auto
      then show ?thesis using False i assms(5) ph by (auto simp: nth)
    qed
  next
    fix i assume i: "i < n" "0 < i" "par i = ?p" "0 < ?p"
    have pp: "par ?p < ?p" by (rule par_less [OF i(4)])
    have "k (xs ! par ?p) \<le> k (xs ! ?p)" using assms(1,3) i(4) ph unfolding last_ord_def by auto
    moreover have "i \<noteq> h \<Longrightarrow> k (xs ! ?p) \<le> k (xs ! i)" using assms(1) i unfolding last_ord_def by metis
    moreover have "i \<noteq> ?p" using i(3) par_less [OF i(2)] by auto
    ultimately show "k (swap ?p h xs ! par ?p) \<le> k (swap ?p h xs ! i)"
      using pp ph by (auto simp: nth)
  qed
qed

subsection \<open>The loops\<close>

definition key :: "(ptr \<rightharpoonup> heap_timer) \<Rightarrow> ptr \<Rightarrow> int" where
  "key mem p = expire (the (mem p))"

lemma load_key: "mem p \<noteq> None \<Longrightarrow> load mem p expire = Some (key mem p)"
  by (auto simp: key_def)

lemma down_step:
  assumes "2 * h + 1 < n" "n \<le> length a" "\<forall>i < n. i \<noteq> h \<longrightarrow> mem (a ! i) \<noteq> None" "mem temp \<noteq> None"
  defines "c \<equiv> if 2 * h + 2 < n \<and> key mem (a ! (2 * h + 2)) < key mem (a ! (2 * h + 1)) then 2 * h + 2 else 2 * h + 1"
  shows "down_loop mem (int n) temp (int h) a =
      (if key mem (a ! c) < key mem temp then down_loop mem (int n) temp (int c) (a[h := a ! c]) else Some (int h, a))"
    and "h < c" "c < n" "par c = h" "\<And>i. i < n \<Longrightarrow> 0 < i \<Longrightarrow> par i = h \<Longrightarrow> key mem (a ! c) \<le> key mem (a ! i)"
proof -
  define i where "i = 2 * h + 1"
  define j where "j = 2 * h + 2"
  have e: "int h * 2 + 1 = int i" "int i + 1 = int j" by (simp_all add: i_def j_def)
  have b: "(0 \<le> int h \<and> int i \<le> int n - 1) = True" "(int i < int n - 1) = (j < n)" using assms(1) by (auto simp: i_def j_def)
  have l: "load mem (a ! i) expire = Some (key mem (a ! i))" using assms(1,3) by (intro load_key) (auto simp: i_def)
  have r: "j < n \<Longrightarrow> load mem (a ! j) expire = Some (key mem (a ! j))" using assms(3) by (intro load_key) (auto simp: j_def)
  have cij: "c = (if j < n \<and> key mem (a ! j) < key mem (a ! i) then j else i)" by (simp add: c_def i_def j_def)
  show c: "h < c" "c < n" "par c = h" using assms(1) by (auto simp: c_def par_def)
  have cn: "h < length a" "i < length a" "j < n \<Longrightarrow> j < length a" using c assms(1,2) by (auto simp: i_def j_def)
  show "down_loop mem (int n) temp (int h) a =
      (if key mem (a ! c) < key mem temp then down_loop mem (int n) temp (int c) (a[h := a ! c]) else Some (int h, a))"
    by (subst down_loop.simps, unfold bind.bind_lunit e b cij) (use l r cn load_key [of mem temp, OF assms(4)] in simp)
  fix g assume "g < n" "0 < g" "par g = h"
  then have "g = i \<or> g = j" by (simp add: par_child i_def j_def)
  then show "key mem (a ! c) \<le> key mem (a ! g)" using \<open>g < n\<close> by (auto simp: cij)
qed

lemma down_loop_ok:
  assumes "n \<le> length a" "h < n" "\<forall>i < n. i \<noteq> h \<longrightarrow> mem (a ! i) \<noteq> None" "mem temp \<noteq> None"
    and "hole_ord (key mem) m n h (a[h := temp])" "m \<le> h"
  shows "wp (down_loop mem (int n) temp (int h) a) (\<lambda>(h', a'). \<exists>g. h' = int g \<and> g < n \<and> length a' = length a \<and>
     mset (a'[g := temp]) = mset (a[h := temp]) \<and> drop n (a'[g := temp]) = drop n a \<and> heap_ord (key mem) m n (a'[g := temp]))"
  using assms
proof (induction "n - h" arbitrary: a h rule: less_induct)
  case less
  have ha: "h < length a" using less.prems by simp
  show ?case
  proof (cases "2 * h + 1 < n")
    case False
    have "heap_ord (key mem) m n (a[h := temp])"
      unfolding heap_ord_def
    proof (intro allI impI)
      fix i assume i: "i < n" "0 < i" "m \<le> par i"
      then have "par i \<noteq> h" using False by (auto simp: par_child)
      then show "key mem (a[h := temp] ! par i) \<le> key mem (a[h := temp] ! i)" using less.prems(5) i by (simp add: hole_ord_def)
    qed
    moreover have "down_loop mem (int n) temp (int h) a = Some (int h, a)" using False by (subst down_loop.simps) auto
    ultimately show ?thesis using less.prems(2) by auto
  next
    case True
    define c where "c = (if 2 * h + 2 < n \<and> key mem (a ! (2 * h + 2)) < key mem (a ! (2 * h + 1)) then 2 * h + 2 else 2 * h + 1)"
    note d = down_step [OF True less.prems(1,3,4), folded c_def]
    have ca: "c < length a" using d(3) less.prems(1) by simp
    have ord: "key mem (a ! c) \<le> key mem (a[h := temp] ! i)" if "i < n" "0 < i" "par i = h" for i
      using d(5) [OF that] par_less [OF that(2)] that(3) by simp
    show ?thesis
    proof (cases "key mem (a ! c) < key mem temp")
      case False
      have "heap_ord (key mem) m n (a[h := temp])"
        unfolding heap_ord_def
      proof (intro allI impI)
        fix i assume i: "i < n" "0 < i" "m \<le> par i"
        show "key mem (a[h := temp] ! par i) \<le> key mem (a[h := temp] ! i)"
        proof (cases "par i = h")
          case True
          then show ?thesis using ord [OF i(1,2)] False ha by (simp add: True)
        next
          case neq: False
          then show ?thesis using less.prems(5) i by (simp add: hole_ord_def)
        qed
      qed
      then show ?thesis using False d(1) less.prems(2) by auto
    next
      case T: True
      let ?ys = "a[h := temp]" and ?b = "a[h := a ! c]"
      have sw: "?b[c := temp] = swap h c ?ys" using d(2) ha ca by (simp add: swap_def)
      have "hole_ord (key mem) m n c (swap h c ?ys)"
        by (rule hole_ord_swap [OF less.prems(5)]) (use d ha ca T less.prems ord in auto)
      then have "wp (down_loop mem (int n) temp (int c) ?b) (\<lambda>(h', a'). \<exists>g. h' = int g \<and> g < n \<and> length a' = length ?b \<and>
          mset (a'[g := temp]) = mset (?b[c := temp]) \<and> drop n (a'[g := temp]) = drop n ?b \<and> heap_ord (key mem) m n (a'[g := temp]))"
        using less.prems d(2,3) ca by (intro less.hyps) (auto simp: sw nth_list_update)
      then show ?thesis using T d(1) sw ha ca less.prems(1,2) by simp
    qed
  qed
qed

lemma up_loop_ok:
  assumes "h < n" "n \<le> length a" "\<forall>i < n. i \<noteq> h \<longrightarrow> mem (a ! i) \<noteq> None" "mem temp \<noteq> None" "last_ord (key mem) n h (a[h := temp])"
  shows "wp (up_loop mem temp h a) (\<lambda>(g, a'). g < n \<and> length a' = length a \<and>
     mset (a'[g := temp]) = mset (a[h := temp]) \<and> drop n (a'[g := temp]) = drop n a \<and> heap_ord (key mem) 0 n (a'[g := temp]))"
  using assms
proof (induction h arbitrary: a rule: less_induct)
  case (less h)
  show ?case
  proof (cases h)
    case 0
    then show ?thesis using less.prems by (auto simp: heap_ord_def last_ord_def)
  next
    case (Suc q)
    let ?p = "q div 2"
    have p: "par h = ?p" "?p < h" "?p < n" "?p < length a" using Suc less.prems by (auto simp: par_def)
    have pm: "mem (a ! ?p) \<noteq> None" using less.prems(3) p by auto
    show ?thesis
    proof (cases "key mem (a ! ?p) \<le> key mem temp")
      case True
      have "heap_ord (key mem) 0 n (a[h := temp])"
        unfolding heap_ord_def
      proof (intro allI impI)
        fix i assume "i < n" "0 < i"
        then show "key mem (a[h := temp] ! par i) \<le> key mem (a[h := temp] ! i)"
          using less.prems(1,2,5) True p by (cases "i = h") (auto simp: last_ord_def)
      qed
      then show ?thesis using True Suc p(4) less.prems load_key [of mem "a ! (q div 2)", OF pm] load_key [of mem temp] by auto
    next
      case False
      let ?ys = "a[h := temp]" and ?b = "a[h := a ! ?p]"
      have ha: "h < length a" using less.prems by simp
      have sw: "?b[?p := temp] = swap ?p h ?ys" using p(2,4) ha by (auto simp: swap_def nth_list_update intro!: nth_equalityI)
      have "last_ord (key mem) n ?p (swap ?p h ?ys)"
        using last_ord_swap [OF less.prems(5), unfolded p(1)] less.prems p False Suc by simp
      then have "wp (up_loop mem temp ?p ?b) (\<lambda>(g, a'). g < n \<and> length a' = length ?b \<and>
          mset (a'[g := temp]) = mset (?b[?p := temp]) \<and> drop n (a'[g := temp]) = drop n ?b \<and> heap_ord (key mem) 0 n (a'[g := temp]))"
        using less.prems p ha by (intro less.IH) (auto simp: sw nth_list_update)
      moreover have "up_loop mem temp h a = up_loop mem temp ?p ?b"
        using False Suc p(4) ha load_key [of mem "a ! (q div 2)", OF pm] load_key [of mem temp, OF less.prems(4)] by (simp del: of_nat_Suc)
      ultimately show ?thesis using sw ha p less.prems(1,2) by simp
    qed
  qed
qed

end
