(* ===== verification/Time_Heap_Correct.thy ===== *)
theory Time_Heap_Correct
  imports Time_Heap
begin

text \<open>
  The contracts of the time heap: every operation keeps \<open>heap_inv\<close>, \<open>pop_timer\<close> removes a timer
  that expires first, and a \<open>tick\<close> runs the callbacks of exactly the timers that have expired.
\<close>

subsection \<open>Contracts\<close>

definition elems :: "time_heap \<Rightarrow> ptr list" where
  "elems h = take (nat (cur_size h)) (harray h)"

definition heap_inv :: "time_heap \<Rightarrow> bool" where
  "heap_inv h \<longleftrightarrow> 0 < capacity h \<and> 0 \<le> cur_size h \<and> cur_size h \<le> capacity h \<and> length (harray h) = nat (capacity h) \<and>
     distinct (elems h) \<and> NULL \<notin> set (elems h) \<and> set (elems h) \<subseteq> dom (timers h) \<and>
     heap_ord (key (timers h)) 0 (nat (cur_size h)) (harray h)"

lemma heap_ord_root: "heap_ord k 0 n xs \<Longrightarrow> i < n \<Longrightarrow> k (xs ! 0) \<le> k (xs ! i)"
proof (induction i rule: less_induct)
  case (less i)
  show ?case
  proof (cases "i = 0")
    case False
    then have "par i < i" "k (xs ! par i) \<le> k (xs ! i)" using less.prems par_less by (auto simp: heap_ord_def)
    then show ?thesis using less.IH [of "par i"] less.prems by simp
  qed simp
qed

lemma mset_take_cong: "mset b = mset a \<Longrightarrow> drop n b = drop n a \<Longrightarrow> mset (take n b) = mset (take n a)"
  by (metis add_right_imp_eq append_take_drop_id mset_append)

lemma heap_ord_cong: "\<forall>i < n. k (xs ! i) = k' (ys ! i) \<Longrightarrow> heap_ord k m n xs = heap_ord k' m n ys"
  using par_less by (auto simp: heap_ord_def) (metis less_trans)+

lemma take_mem: "i < n \<Longrightarrow> n \<le> length xs \<Longrightarrow> xs ! i \<in> set (take n xs)"
  by (auto simp: in_set_conv_nth)

lemma percolate_ok:
  assumes "harray h = b" "timers h = mem" "cur_size h = int n" "n \<le> length b" "hole < n" "m \<le> hole" "\<forall>i < n. mem (b ! i) \<noteq> None"
    and "hole_ord (key mem) m n hole b"
  shows "wp (percolate_down (int hole) h) (\<lambda>h'. \<exists>a. h' = h\<lparr>harray := a\<rparr> \<and> length a = length b \<and>
     mset a = mset b \<and> drop n a = drop n b \<and> heap_ord (key mem) m n a)"
proof -
  let ?a = b and ?t = "b ! hole"
  have "wp (down_loop mem (int n) ?t (int hole) ?a) (\<lambda>(h', a'). \<exists>g. h' = int g \<and> g < n \<and> length a' = length ?a \<and>
     mset (a'[g := ?t]) = mset (?a[hole := ?t]) \<and> drop n (a'[g := ?t]) = drop n ?a \<and> heap_ord (key mem) m n (a'[g := ?t]))"
    using assms by (intro down_loop_ok) auto
  then show ?thesis
    unfolding percolate_down_def using assms(1-5)
    by (auto simp: wp_bind elim!: wp_mono intro!: exI [of _ "_[_ := _]"])
qed

lemma percolate_empty: "cur_size h = 0 \<Longrightarrow> 0 < length (harray h) \<Longrightarrow> percolate_down 0 h = Some h"
  by (simp add: percolate_down_def aget_def aset_def down_loop.simps)

lemma heapify_ok:
  assumes "cur_size h = int n" "n \<le> length (harray h)" "i \<le> n" "\<forall>p \<in> set (take n (harray h)). timers h p \<noteq> None"
    and "heap_ord (key (timers h)) i n (harray h)"
  shows "wp (heapify i h) (\<lambda>h'. \<exists>a. h' = h\<lparr>harray := a\<rparr> \<and> length a = length (harray h) \<and>
     mset a = mset (harray h) \<and> drop n a = drop n (harray h) \<and> heap_ord (key (timers h)) 0 n a)"
  using assms
proof (induction i arbitrary: h)
  case 0
  then show ?case by (auto intro!: exI [of _ "harray h"])
next
  case (Suc i)
  have m: "\<forall>j < n. timers h (harray h ! j) \<noteq> None"
    using Suc.prems(2,4) take_mem by blast
  have "hole_ord (key (timers h)) i n i (harray h)"
    unfolding hole_ord_def using Suc.prems(5) par_less [of i] by (auto simp: heap_ord_def Suc_le_eq)
  then have "wp (percolate_down (int i) h) (\<lambda>h'. \<exists>a. h' = h\<lparr>harray := a\<rparr> \<and> length a = length (harray h) \<and>
     mset a = mset (harray h) \<and> drop n a = drop n (harray h) \<and> heap_ord (key (timers h)) i n a)"
    using Suc.prems m by (intro percolate_ok) auto
  then show ?case
  proof (rule wpE)
    fix h' assume h': "percolate_down (int i) h = Some h'" "\<exists>a. h' = h\<lparr>harray := a\<rparr> \<and> length a = length (harray h) \<and>
     mset a = mset (harray h) \<and> drop n a = drop n (harray h) \<and> heap_ord (key (timers h)) i n a"
    then obtain a where a: "h' = h\<lparr>harray := a\<rparr>" "length a = length (harray h)" "mset a = mset (harray h)" "drop n a = drop n (harray h)"
      "heap_ord (key (timers h)) i n a" by blast
    have "set (take n a) = set (take n (harray h))"
      using mset_take_cong [OF a(3,4)] by (metis set_mset_mset)
    then show ?thesis using Suc.IH [of h'] Suc.prems h'(1) a by (auto simp: wp_bind elim!: wp_mono)
  qed
qed

lemma elems_nth: "i < n \<Longrightarrow> cur_size h = int n \<Longrightarrow> n \<le> length (harray h) \<Longrightarrow> harray h ! i \<in> set (elems h)"
  by (auto simp: elems_def intro!: take_mem)

text \<open>The invariant of a heap whose array is a permutation of \<open>ps\<close>.\<close>

lemma heap_invI:
  assumes "0 < capacity h" "cur_size h = int n" "int n \<le> capacity h" "length (harray h) = nat (capacity h)"
    and "mset (elems h) = mset ps" "distinct ps" "NULL \<notin> set ps" "set ps \<subseteq> dom (timers h)" "heap_ord (key (timers h)) 0 n (harray h)"
  shows "heap_inv h"
  using assms mset_eq_setD [OF assms(5)] mset_eq_imp_distinct_iff [OF assms(5)] by (simp add: heap_inv_def)

lemma key_upd [simp]: "q \<noteq> p \<Longrightarrow> key (mem(p := x)) q = key mem q"
  by (simp add: key_def)

lemma pop_ok:
  assumes "heap_inv h" "\<not> heap_empty h"
  defines "p \<equiv> harray h ! 0"
  shows "wp (pop_timer h) (\<lambda>h'. heap_inv h' \<and> timers h' = (timers h)(p := None) \<and> mset (elems h) = add_mset p (mset (elems h')))"
    and "aget (harray h) 0 = Some p" "p \<in> set (elems h)" "\<forall>q \<in> set (elems h). key (timers h) p \<le> key (timers h) q"
proof -
  let ?k = "key (timers h)" and ?n = "nat (cur_size h)" and ?a = "harray h" and ?m = "(timers h)(p := None)"
  have n: "0 < ?n" "?n \<le> length ?a" "cur_size h = int ?n" "0 < length ?a"
    using assms(1,2) by (auto simp: heap_inv_def heap_empty_def)
  show p0: "aget ?a 0 = Some p" using n by (simp add: aget_def p_def)
  show pin: "p \<in> set (elems h)" unfolding p_def using n by (intro elems_nth [of 0 ?n]) auto
  show "\<forall>q \<in> set (elems h). ?k p \<le> ?k q"
    using assms(1) heap_ord_root [of ?k ?n ?a] by (auto simp: elems_def in_set_conv_nth p_def heap_inv_def)
  have "p \<noteq> NULL" using assms(1) pin by (metis heap_inv_def)
  moreover have "timers h p \<noteq> None" using assms(1) pin by (auto simp: heap_inv_def)
  ultimately have pn: "p \<noteq> NULL" "timers h p \<noteq> None" by simp_all
  define l where "l = ?a ! (?n - 1)"
  define b where "b = ?a[0 := l]"
  define ps where "ps = take (?n - 1) b"
  let ?h = "h\<lparr>timers := ?m, cur_size := cur_size h - 1, harray := b\<rparr>"
  have c: "nat (cur_size h - 1) = ?n - 1" "cur_size h - 1 = int (?n - 1)" using n by simp_all
  have "aget ?a (int (?n - 1)) = Some l" "aset ?a (int 0) l = Some b" unfolding l_def b_def using n by (intro aget_int aset_int; linarith)+
  then have ag: "aget ?a (cur_size h - 1) = Some l" "aset ?a 0 l = Some b" unfolding c by simp_all
  have eq: "pop_timer h = percolate_down 0 ?h"
    using assms(2) p0 pn ag by (auto simp: pop_timer_def delete_timer_def)
  have split: "elems h = take (?n - 1) ?a @ [l]" using n by (metis Suc_diff_1 elems_def l_def less_le_trans take_Suc_conv_app_nth lessI)
  have tk: "?n = 1 \<or> (\<exists>T. take (?n - 1) ?a = p # T \<and> ps = l # T)"
  proof (cases "?n - 1")
    case (Suc k)
    obtain x xs where "?a = x # xs" using n by (cases ?a) auto
    then show ?thesis unfolding Suc p_def ps_def b_def by simp
  qed (use n in simp)
  then have ms: "mset (elems h) = add_mset p (mset ps)"
    using split by (auto simp: ps_def p_def l_def)
  have dst: "distinct ps" "p \<notin> set ps" "set (elems h) = insert p (set ps)"
    using assms(1) mset_eq_imp_distinct_iff [of "elems h" "p # ps"] mset_eq_setD [of "elems h" "p # ps"] ms by (auto simp: heap_inv_def)
  have dom: "NULL \<notin> set ps" "set ps \<subseteq> dom ?m" using assms(1) dst by (auto simp: heap_inv_def)
  have "wp (percolate_down 0 ?h) (\<lambda>h'. \<exists>a. h' = ?h\<lparr>harray := a\<rparr> \<and> length a = length b \<and>
     mset a = mset b \<and> drop (?n - 1) a = drop (?n - 1) b \<and> heap_ord (key ?m) 0 (?n - 1) a)"
  proof (cases "?n = 1")
    case True
    then show ?thesis using n percolate_empty [of ?h] by (auto simp: b_def heap_ord_def intro!: exI [of _ b])
  next
    case False
    have kb: "key ?m (b ! i) = key (timers h) (b ! i)" "?m (b ! i) \<noteq> None" if "i < ?n - 1" for i
    proof -
      have "b ! i \<in> set ps" unfolding ps_def using that n by (intro take_mem) (auto simp: b_def)
      then show "key ?m (b ! i) = key (timers h) (b ! i)" "?m (b ! i) \<noteq> None" using dst(2) dom(2) by (metis key_upd, blast)
    qed
    have "hole_ord (key ?m) 0 (?n - 1) 0 b"
      unfolding hole_ord_def
    proof (intro conjI allI impI)
      fix i assume i: "i < ?n - 1" "0 < i" "par i \<noteq> 0"
      then show "key ?m (b ! par i) \<le> key ?m (b ! i)"
        using assms(1) par_less [OF i(2)] kb(1) [of i] kb(1) [of "par i"] by (auto simp: heap_inv_def heap_ord_def b_def)
    qed simp
    moreover have "length b = length ?a" "?n - 1 \<le> length ?a" "0 < ?n - 1" "cur_size ?h = int (?n - 1)" using n False by (auto simp: b_def)
    moreover have "\<forall>i < ?n - 1. ?m (b ! i) \<noteq> None" using kb(2) by blast
    ultimately have "wp (percolate_down (int 0) ?h) (\<lambda>h'. \<exists>a. h' = ?h\<lparr>harray := a\<rparr> \<and> length a = length b \<and>
     mset a = mset b \<and> drop (?n - 1) a = drop (?n - 1) b \<and> heap_ord (key ?m) 0 (?n - 1) a)"
      by (intro percolate_ok) simp_all
    then show ?thesis by simp
  qed
  then show "wp (pop_timer h) (\<lambda>h'. heap_inv h' \<and> timers h' = ?m \<and> mset (elems h) = add_mset p (mset (elems h')))"
    unfolding eq
  proof (rule wp_mono)
    fix h' assume "\<exists>a. h' = ?h\<lparr>harray := a\<rparr> \<and> length a = length b \<and> mset a = mset b \<and> drop (?n - 1) a = drop (?n - 1) b \<and> heap_ord (key ?m) 0 (?n - 1) a"
    then obtain a where a: "h' = ?h\<lparr>harray := a\<rparr>" "length a = length b" "mset a = mset b" "drop (?n - 1) a = drop (?n - 1) b"
      "heap_ord (key ?m) 0 (?n - 1) a" by blast
    have e: "mset (elems h') = mset ps" using mset_take_cong [OF a(3,4)] by (simp add: a(1) elems_def ps_def c)
    have "heap_inv h'"
      by (rule heap_invI [of _ "?n - 1" ps]) (use assms(1) n a e dst dom in \<open>auto simp: heap_inv_def b_def\<close>)
    then show "heap_inv h' \<and> timers h' = ?m \<and> mset (elems h) = add_mset p (mset (elems h'))" using a(1) ms e by simp
  qed
qed


text \<open>The calls a list of timers makes.\<close>

definition calls :: "(ptr \<rightharpoonup> heap_timer) \<Rightarrow> ptr list \<Rightarrow> (nat \<times> ptr) list" where
  "calls mem ps = concat (map (\<lambda>p. case cb_func (the (mem p)) of Some g \<Rightarrow> [(g, timer_user_data (the (mem p)))] | None \<Rightarrow> []) ps)"

lemma calls_simps [simp]: "calls mem [] = []"
  "calls mem (p # ps) = (case cb_func (the (mem p)) of Some g \<Rightarrow> [(g, timer_user_data (the (mem p)))] | None \<Rightarrow> []) @ calls mem ps"
  by (simp_all add: calls_def)

lemma calls_upd [simp]: "p \<notin> set ps \<Longrightarrow> calls (mem(p := x)) ps = calls mem ps"
  by (induction ps) (auto split: option.split)

lemma tick_loop_ok:
  assumes "heap_inv h" "cur_size h = 0 \<or> tmp = harray h ! 0"
  shows "wp (tick_loop cur tmp h) (\<lambda>(out, h'). heap_inv h' \<and> (\<exists>ps. out = calls (timers h) ps \<and>
      mset (elems h) = mset ps + mset (elems h') \<and> sorted (map (key (timers h)) ps) \<and> (\<forall>p \<in> set ps. key (timers h) p \<le> cur) \<and>
      (\<forall>p \<in> set (elems h'). cur < key (timers h) p) \<and> timers h' = timers h |` (- set ps)))"
  using assms
proof (induction "length (elems h)" arbitrary: h tmp rule: less_induct)
  case less
  let ?k = "key (timers h)"
  show ?case
  proof (cases "heap_empty h")
    case True
    then have "elems h = []" by (simp add: heap_empty_def elems_def)
    moreover have "tick_loop cur tmp h = Some ([], h)" using True by (subst tick_loop.simps) simp
    ultimately show ?thesis using less.prems(1) by (auto intro!: exI [of _ "[]"])
  next
    case False
    note pop = pop_ok [OF less.prems(1) False]
    define p where "p = harray h ! 0"
    have tmp: "tmp = p" using less.prems(2) False by (simp add: heap_empty_def p_def)
    have pm: "p \<noteq> NULL" "timers h p \<noteq> None" using pop(3) less.prems(1) unfolding heap_inv_def p_def by (metis, blast)
    then obtain t where t: "timers h p = Some t" by blast
    show ?thesis
    proof (cases "expire t > cur")
      case True
      have "tick_loop cur tmp h = Some ([], h)" using True tmp pm t False by (subst tick_loop.simps) simp
      moreover have "\<forall>q \<in> set (elems h). cur < ?k q" using pop(4) True t unfolding p_def [symmetric] by (auto simp: key_def)
      ultimately show ?thesis using less.prems(1) by (auto intro!: exI [of _ "[]"])
    next
      case le: False
      from pop(1) obtain h1 where h1: "pop_timer h = Some h1" "heap_inv h1" "timers h1 = (timers h)(p := None)"
        "mset (elems h) = add_mset p (mset (elems h1))" unfolding p_def by (blast elim!: wpE)
      have "0 < length (harray h1)" using h1(2) by (simp add: heap_inv_def)
      then have a1: "aget (harray h1) 0 = Some (harray h1 ! 0)" by (simp add: aget_def)
      have eq: "tick_loop cur tmp h = do { (out, h') \<leftarrow> tick_loop cur (harray h1 ! 0) h1;
          Some ((case cb_func t of Some g \<Rightarrow> (g, timer_user_data t) # out | None \<Rightarrow> out), h') }"
        using tmp pm t False le h1(1) a1 pop(2) by (subst tick_loop.simps) (simp add: p_def [symmetric])
      have "distinct (p # elems h1)" using less.prems(1) h1(4) by (metis heap_inv_def mset.simps(2) mset_eq_imp_distinct_iff)
      then have pn: "p \<notin> set (elems h1)" by simp
      have len: "length (elems h1) < length (elems h)" using arg_cong [OF h1(4), of size] by simp
      have "wp (tick_loop cur (harray h1 ! 0) h1) (\<lambda>(out, h'). heap_inv h' \<and> (\<exists>ps. out = calls (timers h1) ps \<and>
          mset (elems h1) = mset ps + mset (elems h') \<and> sorted (map (key (timers h1)) ps) \<and> (\<forall>p \<in> set ps. key (timers h1) p \<le> cur) \<and>
          (\<forall>p \<in> set (elems h'). cur < key (timers h1) p) \<and> timers h' = timers h1 |` (- set ps)))"
        by (rule less.hyps [OF len h1(2)]) simp
      then show ?thesis
        unfolding eq wp_bind
      proof (rule wp_mono)
        fix r assume r: "case r of (out, h') \<Rightarrow> heap_inv h' \<and> (\<exists>ps. out = calls (timers h1) ps \<and>
          mset (elems h1) = mset ps + mset (elems h') \<and> sorted (map (key (timers h1)) ps) \<and> (\<forall>p \<in> set ps. key (timers h1) p \<le> cur) \<and>
          (\<forall>p \<in> set (elems h'). cur < key (timers h1) p) \<and> timers h' = timers h1 |` (- set ps))"
        obtain out h' where r': "r = (out, h')" by fastforce
        with r obtain ps where ps: "heap_inv h'" "out = calls (timers h1) ps" "mset (elems h1) = mset ps + mset (elems h')"
          "sorted (map (key (timers h1)) ps)" "\<forall>p \<in> set ps. key (timers h1) p \<le> cur"
          "\<forall>p \<in> set (elems h'). cur < key (timers h1) p" "timers h' = timers h1 |` (- set ps)" by auto
        have sub: "set ps \<subseteq> set (elems h1)" "set (elems h') \<subseteq> set (elems h1)" using arg_cong [OF ps(3), of set_mset] by auto
        then have kk: "\<And>q. q \<in> set ps \<or> q \<in> set (elems h') \<Longrightarrow> key (timers h1) q = ?k q" "p \<notin> set ps" using pn h1(3) by (metis key_upd subsetD, blast)
        have "set (elems h) = insert p (set (elems h1))" using arg_cong [OF h1(4), of set_mset] by simp
        then have min: "\<forall>q \<in> set ps. ?k p \<le> ?k q" using pop(4) sub unfolding p_def by blast
        have "sorted (map ?k (p # ps))" using min ps(4) kk(1) by (simp cong: map_cong)
        moreover have "\<forall>q \<in> set (p # ps). ?k q \<le> cur" using ps(5) kk(1) le t by (auto simp: key_def)
        moreover have "calls (timers h) (p # ps) = (case cb_func t of Some g \<Rightarrow> (g, timer_user_data t) # out | None \<Rightarrow> out)"
          using ps(2) h1(3) kk(2) t by (simp split: option.splits)
        moreover have "mset (elems h) = mset (p # ps) + mset (elems h')" using h1(4) ps(3) by simp
        moreover have "timers h' = timers h |` (- set (p # ps))" using ps(7) h1(3) by (auto simp: restrict_map_def)
        moreover have "\<forall>q \<in> set (elems h'). cur < ?k q" using ps(6) kk(1) by simp
        ultimately show "wp (case r of (out, h') \<Rightarrow> Some (case cb_func t of None \<Rightarrow> out | Some g \<Rightarrow> (g, timer_user_data t) # out, h'))
          (\<lambda>(out, h'). heap_inv h' \<and> (\<exists>ps. out = calls (timers h) ps \<and>
          mset (elems h) = mset ps + mset (elems h') \<and> sorted (map ?k ps) \<and> (\<forall>p \<in> set ps. ?k p \<le> cur) \<and>
          (\<forall>p \<in> set (elems h'). cur < ?k p) \<and> timers h' = timers h |` (- set ps)))"
          unfolding r' using ps(1) by (simp only: prod.case wp_Some) metis
      qed
    qed
  qed
qed


lemma add_ok:
  assumes "heap_inv h" "timer \<noteq> NULL" "timer \<in> dom (timers h)" "timer \<notin> set (elems h)" "cur_size h < capacity h \<or> capacity h < 2 ^ 30"
  shows "wp (add_timer timer h) (\<lambda>h'. heap_inv h' \<and> timers h' = timers h \<and> mset (elems h') = add_mset timer (mset (elems h)) \<and>
     (capacity h' = capacity h \<or> capacity h' = 2 * cur_size h) \<and> cur_size h' = cur_size h + 1)"
proof -
  let ?k = "key (timers h)" and ?n = "nat (cur_size h)"
  have n: "0 \<le> cur_size h" "cur_size h = int ?n" "0 < capacity h" "?n \<le> length (harray h)" "length (harray h) = nat (capacity h)"
    "cur_size h \<le> capacity h" using assms(1) by (auto simp: heap_inv_def)
  let ?g = "if cur_size h \<ge> capacity h then resize h else Some h"
  obtain h1 where h1: "?g = Some h1" "timers h1 = timers h" "cur_size h1 = int ?n" "?n < length (harray h1)" "length (harray h1) = nat (capacity h1)"
    "0 < capacity h1" "take ?n (harray h1) = elems h" "capacity h1 = capacity h \<or> capacity h1 = 2 * cur_size h"
  proof (rule that [of "if cur_size h \<ge> capacity h then
        h\<lparr>capacity := 2 * capacity h, harray := take ?n (harray h) @ replicate (nat (2 * capacity h) - ?n) NULL\<rparr> else h"])
  qed (use n assms(5) in \<open>auto simp: resize_def elems_def nat_mult_distrib\<close>)
  let ?a = "harray h1"
  let ?b = "?a[?n := timer]"
  have at: "?a ! i = harray h ! i" if "i < ?n" for i using h1(7) that unfolding elems_def by (metis nth_take)
  have "\<forall>i < Suc ?n. i \<noteq> ?n \<longrightarrow> timers h (?a ! i) \<noteq> None"
  proof (intro allI impI)
    fix i assume "i < Suc ?n" "i \<noteq> ?n"
    then have "harray h ! i \<in> set (elems h)" "?a ! i = harray h ! i" using at elems_nth [OF _ n(2,4)] by simp_all
    then show "timers h (?a ! i) \<noteq> None" using assms(1) by (auto simp: heap_inv_def)
  qed
  moreover have "last_ord ?k (Suc ?n) ?n ?b"
    unfolding last_ord_def
  proof (intro conjI allI impI)
    fix i assume i: "i < Suc ?n" "0 < i" "i \<noteq> ?n"
    then show "?k (?b ! par i) \<le> ?k (?b ! i)"
      using assms(1) par_less [OF i(2)] at [of i] at [of "par i"] by (auto simp: heap_inv_def heap_ord_def)
  next
    fix i assume i: "i < Suc ?n" "0 < i" "par i = ?n"
    then show "?k (?b ! par ?n) \<le> ?k (?b ! i)" using par_less [OF i(2)] by simp
  qed
  ultimately have "wp (up_loop (timers h) timer ?n ?a) (\<lambda>(g, a'). g < Suc ?n \<and> length a' = length ?a \<and>
     mset (a'[g := timer]) = mset ?b \<and> drop (Suc ?n) (a'[g := timer]) = drop (Suc ?n) ?a \<and> heap_ord ?k 0 (Suc ?n) (a'[g := timer]))"
    using h1(4) assms(3) by (intro up_loop_ok) auto
  then obtain g a' where u: "up_loop (timers h) timer ?n ?a = Some (g, a')" "g < Suc ?n" "length a' = length ?a"
     "mset (a'[g := timer]) = mset ?b" "drop (Suc ?n) (a'[g := timer]) = drop (Suc ?n) ?b" "heap_ord ?k 0 (Suc ?n) (a'[g := timer])"
    by (auto elim!: wpE)
  define h' where "h' = h1\<lparr>cur_size := int (Suc ?n), harray := a'[g := timer]\<rparr>"
  have eq: "add_timer timer h = Some h'"
  proof -
    have c: "cur_size h1 = cur_size h" "int (Suc ?n) = cur_size h + 1" using n(2) h1(3) by simp_all
    have "aset a' (int g) timer = Some (a'[g := timer])" using u(2,3) h1(4) by (intro aset_int) simp
    then show ?thesis using assms(2) h1(1,2) u(1) by (simp add: add_timer_def h'_def c del: of_nat_Suc)
  qed
  have e1: "elems h' = take (Suc ?n) (a'[g := timer])" by (simp add: h'_def elems_def del: of_nat_Suc)
  have "take (Suc ?n) ?b = elems h @ [timer]" using h1(4,7) by (simp add: take_Suc_conv_app_nth)
  then have ms: "mset (elems h') = mset (timer # elems h)"
    using mset_take_cong [OF u(4,5)] unfolding e1 by simp
  have "heap_inv h'"
    by (rule heap_invI [of _ "Suc ?n" "timer # elems h"]) (use assms ms h1 u in \<open>auto simp: h'_def heap_inv_def\<close>)
  then show ?thesis using eq ms h1(2,8) n(2) by (auto simp: h'_def)
qed


lemma filter_all: "\<forall>x \<in> set xs. P x \<Longrightarrow> filter_mset P (mset xs) = mset xs"
  by (induction xs) auto

lemma filter_none: "\<forall>x \<in> set xs. \<not> P x \<Longrightarrow> filter_mset P (mset xs) = {#}"
  by (induction xs) auto

lemma time_heap_of_ok:
  assumes "distinct ps" "NULL \<notin> set ps" "set ps \<subseteq> dom mem" "0 < cap" "int (length ps) \<le> cap"
  shows "wp (time_heap_of ps (int (length ps)) cap mem) (\<lambda>h. heap_inv h \<and> timers h = mem \<and> mset (elems h) = mset ps)"
proof -
  let ?n = "length ps"
  define xs where "xs = ps @ replicate (nat (cap - int ?n)) NULL"
  define h where "h = \<lparr>harray = xs, capacity = cap, cur_size = int ?n, timers = mem\<rparr>"
  have h: "cur_size h = int ?n" "harray h = xs" "?n \<le> length xs" "length xs = nat cap" "timers h = mem" "take ?n xs = ps"
    using assms(5) by (auto simp: h_def xs_def)
  have eq: "time_heap_of ps (int ?n) cap mem = (if ?n = 0 then Some h else heapify (nat ((int ?n - 1) div 2) + 1) h)"
    using assms(5) by (auto simp: time_heap_of_def h_def xs_def)
  let ?i = "if ?n = 0 then 0 else nat ((int ?n - 1) div 2) + 1"
  have i: "\<not> (i < ?n \<and> 0 < i \<and> ?i \<le> par i)" for i by (auto simp: par_def)
  have "wp (heapify ?i h) (\<lambda>h'. \<exists>a. h' = h\<lparr>harray := a\<rparr> \<and> length a = length (harray h) \<and>
     mset a = mset (harray h) \<and> drop ?n a = drop ?n (harray h) \<and> heap_ord (key (timers h)) 0 ?n a)"
  proof (rule heapify_ok)
    show "heap_ord (key (timers h)) ?i ?n (harray h)" unfolding heap_ord_def using i by blast
    show "?i \<le> ?n" by (cases ?n) (auto simp: nat_div_distrib)
  qed (use h assms in auto)
  then have "wp (time_heap_of ps (int ?n) cap mem) (\<lambda>h'. \<exists>a. h' = h\<lparr>harray := a\<rparr> \<and> length a = length xs \<and>
     mset a = mset xs \<and> drop ?n a = drop ?n xs \<and> heap_ord (key mem) 0 ?n a)"
    unfolding eq h(2,5) by (simp split: if_splits)
  then show ?thesis
  proof (rule wp_mono)
    fix h' assume "\<exists>a. h' = h\<lparr>harray := a\<rparr> \<and> length a = length xs \<and> mset a = mset xs \<and> drop ?n a = drop ?n xs \<and> heap_ord (key mem) 0 ?n a"
    then obtain a where a: "h' = h\<lparr>harray := a\<rparr>" "length a = length xs" "mset a = mset xs" "drop ?n a = drop ?n xs" "heap_ord (key mem) 0 ?n a" by blast
    have e: "mset (elems h') = mset ps" using mset_take_cong [OF a(3,4)] h by (simp add: a(1) elems_def)
    have "heap_inv h'"
      by (rule heap_invI [of _ ?n ps]) (use assms a h e in \<open>auto simp: h_def\<close>)
    then show "heap_inv h' \<and> timers h' = mem \<and> mset (elems h') = mset ps" using a(1) h e by simp
  qed
qed

text \<open>A client: timers are added one by one, and some are cancelled.\<close>

fun add_all :: "ptr list \<Rightarrow> time_heap \<Rightarrow> time_heap option" where
  "add_all [] h = Some h"
| "add_all (p # ps) h = do { h \<leftarrow> add_timer p h; add_all ps h }"

fun del_all :: "ptr list \<Rightarrow> time_heap \<Rightarrow> time_heap option" where
  "del_all [] h = Some h"
| "del_all (p # ps) h = do { h \<leftarrow> del_timer p h; del_all ps h }"

lemma add_all_ok:
  assumes "heap_inv h" "mset (elems h) = mset qs" "distinct (qs @ ps)" "NULL \<notin> set ps" "set ps \<subseteq> dom (timers h)" "length (qs @ ps) \<le> 2 ^ 30"
  shows "wp (add_all ps h) (\<lambda>h'. heap_inv h' \<and> timers h' = timers h \<and> mset (elems h') = mset (qs @ ps))"
  using assms
proof (induction ps arbitrary: h qs)
  case (Cons p ps)
  have "int (length (elems h)) = cur_size h" using Cons.prems(1) by (auto simp: heap_inv_def elems_def)
  then have "cur_size h < capacity h \<or> capacity h < 2 ^ 30"
    using Cons.prems(6) arg_cong [OF Cons.prems(2), of size] by auto
  moreover have "p \<notin> set (elems h)" using Cons.prems(2,3) by (metis distinct_append disjoint_insert(2) list.set(2) mset_eq_setD)
  ultimately have "wp (add_timer p h) (\<lambda>h'. heap_inv h' \<and> timers h' = timers h \<and> mset (elems h') = mset (p # elems h))"
    using Cons.prems by (intro wp_mono [OF add_ok]) auto
  then obtain h1 where h1: "add_timer p h = Some h1" "heap_inv h1" "timers h1 = timers h" "mset (elems h1) = mset (qs @ [p])"
    using Cons.prems(2) by (auto elim!: wpE)
  have "wp (add_all ps h1) (\<lambda>h'. heap_inv h' \<and> timers h' = timers h1 \<and> mset (elems h') = mset ((qs @ [p]) @ ps))"
    using Cons.prems h1 by (intro Cons.IH) auto
  then show ?case using h1(1,3) by (auto elim!: wp_mono)
qed simp

definition no_cb :: "ptr list \<Rightarrow> (ptr \<rightharpoonup> heap_timer) \<Rightarrow> (ptr \<rightharpoonup> heap_timer)" where
  "no_cb ds mem = (\<lambda>p. if p \<in> set ds then map_option (cb_func_update (\<lambda>_. None)) (mem p) else mem p)"

lemma no_cb_simps [simp]: "dom (no_cb ds mem) = dom mem" "key (no_cb ds mem) p = key mem p \<or> mem p = None"
  by (auto simp: no_cb_def key_def split: if_splits)

lemma no_cb_key: "p \<in> dom mem \<Longrightarrow> key (no_cb ds mem) p = key mem p"
  by (auto simp: no_cb_def key_def)

lemma del_all_ok:
  assumes "NULL \<notin> set ds" "set ds \<subseteq> dom (timers h)"
  shows "del_all ds h = Some (h\<lparr>timers := no_cb ds (timers h)\<rparr>)"
  using assms
proof (induction ds arbitrary: h)
  case (Cons p ds)
  then obtain t where t: "timers h p = Some t" by auto
  let ?h = "h\<lparr>timers := (timers h)(p \<mapsto> cb_func_update (\<lambda>_. None) t)\<rparr>"
  have "no_cb ds (timers ?h) = no_cb (p # ds) (timers h)" using t by (auto simp: no_cb_def)
  moreover have "del_all ds ?h = Some (?h\<lparr>timers := no_cb ds (timers ?h)\<rparr>)"
    using Cons.prems by (intro Cons.IH) auto
  ultimately show ?case using t Cons.prems by (simp add: del_timer_def)
qed (simp add: no_cb_def)

lemma calls_no_cb: "set ps \<subseteq> dom mem \<Longrightarrow> calls (no_cb ds mem) ps = calls mem (filter (\<lambda>p. p \<notin> set ds) ps)"
  by (induction ps) (auto simp: no_cb_def)

lemma del_keeps_inv: "heap_inv h \<Longrightarrow> heap_inv (h\<lparr>timers := no_cb ds (timers h)\<rparr>)"
proof -
  assume h: "heap_inv h"
  have "heap_ord (key (no_cb ds (timers h))) 0 (nat (cur_size h)) (harray h) = heap_ord (key (timers h)) 0 (nat (cur_size h)) (harray h)"
  proof (intro heap_ord_cong allI impI no_cb_key)
    fix i assume "i < nat (cur_size h)"
    then have "harray h ! i \<in> set (elems h)" using h by (intro elems_nth [of i "nat (cur_size h)"]) (auto simp: heap_inv_def)
    then show "harray h ! i \<in> dom (timers h)" using h by (auto simp: heap_inv_def)
  qed
  then show ?thesis using h by (simp add: heap_inv_def elems_def)
qed

lemma delete_all_ok:
  "distinct ps \<Longrightarrow> NULL \<notin> set ps \<Longrightarrow> set ps \<subseteq> dom m \<Longrightarrow> delete_all ps m = Some (m |` (- set ps))"
proof (induction ps arbitrary: m)
  case (Cons p ps)
  then have "delete_all ps (m(p := None)) = Some (m(p := None) |` (- set ps))" by (intro Cons.IH) auto
  moreover have "m(p := None) |` (- set ps) = m |` (- set (p # ps))" by (auto simp: restrict_map_def)
  ultimately show ?case using Cons.prems by (auto simp: delete_timer_def)
qed (simp add: restrict_map_def)

subsection \<open>The scheduler\<close>

text \<open>C22. A time heap built from an array of timers, to which more timers are added and of which some
are cancelled, runs at a \<open>tick\<close> the callbacks of exactly the timers that have expired and are not
cancelled, in the order of their expiry times, and frees those timers; the others stay in the heap,
and destroying the heap frees each of them once. No access is out of bounds or to a freed timer.\<close>

theorem heap_schedules:
  assumes "distinct (init @ ps)" "NULL \<notin> set (init @ ps)" "set (init @ ps) \<subseteq> dom mem" "set ds \<subseteq> set (init @ ps)"
    and "0 < cap" "int (length init) \<le> cap" "length (init @ ps) \<le> 2 ^ 30"
  shows "wp (do { h \<leftarrow> time_heap_of init (int (length init)) cap mem; h \<leftarrow> add_all ps h; h \<leftarrow> del_all ds h; tick cur h })
    (\<lambda>(out, h). \<exists>due. mset due = filter_mset (\<lambda>p. key mem p \<le> cur) (mset (init @ ps)) \<and> sorted (map (key mem) due) \<and>
       out = calls mem (filter (\<lambda>p. p \<notin> set ds) due) \<and>
       mset (elems h) = filter_mset (\<lambda>p. cur < key mem p) (mset (init @ ps)) \<and> dom (timers h) = dom mem - set due \<and>
       wp (time_heap_destroy h) (\<lambda>m. dom m = dom mem - set (init @ ps)))"
proof -
  let ?k = "key mem" and ?all = "init @ ps"
  obtain h0 where h0: "time_heap_of init (int (length init)) cap mem = Some h0" "heap_inv h0" "timers h0 = mem" "mset (elems h0) = mset init"
    using time_heap_of_ok [of init mem cap] assms by (auto elim!: wpE)
  obtain h1 where h1: "add_all ps h0 = Some h1" "heap_inv h1" "timers h1 = mem" "mset (elems h1) = mset ?all"
    using add_all_ok [of h0 init ps] assms h0 by (auto elim!: wpE)
  define h2 where "h2 = h1\<lparr>timers := no_cb ds mem\<rparr>"
  have h2: "del_all ds h1 = Some h2" "heap_inv h2" "timers h2 = no_cb ds mem" "mset (elems h2) = mset ?all"
    using del_all_ok [of ds h1] del_keeps_inv [of h1 ds] assms(2,3,4) h1 by (auto simp: h2_def elems_def)
  have k: "p \<in> set ?all \<Longrightarrow> key (no_cb ds mem) p = ?k p" for p using assms(3) by (intro no_cb_key) blast
  have "0 < length (harray h2)" using h2(2) by (simp add: heap_inv_def)
  then have "tick cur h2 = tick_loop cur (harray h2 ! 0) h2" by (simp add: tick_def aget_def)
  then have "wp (tick cur h2) (\<lambda>(out, h'). heap_inv h' \<and> (\<exists>ps. out = calls (timers h2) ps \<and>
      mset (elems h2) = mset ps + mset (elems h') \<and> sorted (map (key (timers h2)) ps) \<and> (\<forall>p \<in> set ps. key (timers h2) p \<le> cur) \<and>
      (\<forall>p \<in> set (elems h'). cur < key (timers h2) p) \<and> timers h' = timers h2 |` (- set ps)))"
    using tick_loop_ok [OF h2(2)] by simp
  then obtain out h due where t: "tick cur h2 = Some (out, h)" "heap_inv h" "out = calls (no_cb ds mem) due"
    "mset ?all = mset due + mset (elems h)" "sorted (map (key (no_cb ds mem)) due)" "\<forall>p \<in> set due. key (no_cb ds mem) p \<le> cur"
    "\<forall>p \<in> set (elems h). cur < key (no_cb ds mem) p" "timers h = no_cb ds mem |` (- set due)"
    unfolding h2(3,4) by (auto elim!: wpE)
  have sets: "set due \<union> set (elems h) = set ?all" using arg_cong [OF t(4), of set_mset] by simp
  have k': "\<forall>p \<in> set due. key (no_cb ds mem) p = ?k p" "\<forall>p \<in> set (elems h). key (no_cb ds mem) p = ?k p" using k sets by blast+
  have le: "\<forall>p \<in> set due. ?k p \<le> cur" "\<forall>p \<in> set (elems h). \<not> ?k p \<le> cur" "\<forall>p \<in> set due. \<not> cur < ?k p" "\<forall>p \<in> set (elems h). cur < ?k p"
    using t(6,7) k' by auto
  have "filter_mset (\<lambda>p. ?k p \<le> cur) (mset ?all) = mset due" "filter_mset (\<lambda>p. cur < ?k p) (mset ?all) = mset (elems h)"
    unfolding t(4) using le by (simp_all add: filter_all filter_none)
  moreover have "sorted (map ?k due)" using t(5) k'(1) by (simp cong: map_cong)
  moreover have "out = calls mem (filter (\<lambda>p. p \<notin> set ds) due)" using t(3) calls_no_cb [of due mem ds] sets assms(3) by auto
  moreover have "dom (timers h) = dom mem - set due" unfolding t(8) by auto
  moreover have "time_heap_destroy h = Some (timers h |` (- set (elems h)))"
    using t(2) unfolding time_heap_destroy_def elems_def [symmetric] by (intro delete_all_ok) (auto simp: heap_inv_def)
  moreover have "dom (timers h |` (- set (elems h))) = dom mem - set ?all" unfolding t(8) using sets by auto
  ultimately show ?thesis using h0(1) h1(1) h2(1) t(1) by (auto intro!: exI [of _ due])
qed


definition timer_mem :: "ptr \<rightharpoonup> heap_timer" where
  "timer_mem = map_of [(1, \<lparr>expire = 30, cb_func = Some 7, timer_user_data = 11\<rparr>), (2, \<lparr>expire = 10, cb_func = Some 8, timer_user_data = 12\<rparr>),
     (3, \<lparr>expire = 20, cb_func = Some 7, timer_user_data = 13\<rparr>), (4, \<lparr>expire = 40, cb_func = Some 9, timer_user_data = 14\<rparr>)]"

lemma heap_schedules_witness:
  "wp (do { h \<leftarrow> time_heap_of [1, 2] (int (length [1::nat, 2])) 2 timer_mem; h \<leftarrow> add_all [3, 4] h; h \<leftarrow> del_all [3] h; tick 35 h })
    (\<lambda>(out, h). \<exists>due. mset due = filter_mset (\<lambda>p. key timer_mem p \<le> 35) (mset ([1, 2] @ [3, 4])) \<and> sorted (map (key timer_mem) due) \<and>
       out = calls timer_mem (filter (\<lambda>p. p \<notin> set [3]) due) \<and>
       mset (elems h) = filter_mset (\<lambda>p. 35 < key timer_mem p) (mset ([1, 2] @ [3, 4])) \<and> dom (timers h) = dom timer_mem - set due \<and>
       wp (time_heap_destroy h) (\<lambda>m. dom m = dom timer_mem - set ([1, 2] @ [3, 4])))"
  by (rule heap_schedules) (simp_all add: timer_mem_def)

end
