(* ===== verification/Time_Wheel.thy ===== *)
theory Time_Wheel
  imports C_Array "HOL-Library.Multiset"
begin

text \<open>
  The class \<open>time_wheel\<close> of the time-wheel header under \<open>src/timer\<close>: 60 slots, each the head of a
  doubly linked list of timers. \<open>nodes\<close> is the memory that holds the timers; a dereference of
  \<open>NULL\<close> or of a deleted timer is \<open>None\<close>, and so is a call of a null callback. A callback is a
  number; the calls a \<open>tick\<close> makes are returned as a list, and callbacks do not touch the wheel.
\<close>

subsection \<open>Data\<close>

record tw_timer =
  rotation :: int
  time_slot :: int
  cb_func :: "nat option"
  user_data :: ptr
  nxt :: ptr
  prv :: ptr

record time_wheel =
  slots :: "ptr list"
  cur_slot :: int
  nodes :: "ptr \<rightharpoonup> tw_timer"

definition N :: int where
  "N = 60"

definition SI :: int where
  "SI = 1"

subsection \<open>Operations\<close>

definition time_wheel_new :: "(ptr \<rightharpoonup> tw_timer) \<Rightarrow> time_wheel" where
  "time_wheel_new m = \<lparr>slots = replicate (nat N) NULL, cur_slot = 0, nodes = m\<rparr>"

definition delete_node :: "ptr \<Rightarrow> (ptr \<rightharpoonup> tw_timer) \<Rightarrow> (ptr \<rightharpoonup> tw_timer) option" where
  "delete_node p m = (if m p = None then None else Some (m(p := None)))"

text \<open>\<open>a\<close> is the address \<open>new\<close> returns. The divisions are of non-negative numbers.\<close>

definition add_timer :: "int \<Rightarrow> nat option \<Rightarrow> ptr \<Rightarrow> ptr \<Rightarrow> time_wheel \<Rightarrow> (ptr \<times> time_wheel) option" where
  "add_timer timeout cb d a w =
     (if timeout < 0 then Some (NULL, w)
      else do {
        ticks \<leftarrow> Some (if timeout < SI then 1 else timeout div SI);
        rot \<leftarrow> Some (ticks div N);
        ts \<leftarrow> Some ((cur_slot w + ticks mod N) mod N);
        m \<leftarrow> Some ((nodes w)(a \<mapsto> \<lparr>rotation = rot, time_slot = ts, cb_func = cb, user_data = d, nxt = NULL, prv = NULL\<rparr>));
        head \<leftarrow> aget (slots w) ts;
        if head = NULL then do {
          s \<leftarrow> aset (slots w) ts a;
          Some (a, w\<lparr>slots := s, nodes := m\<rparr>)
        } else do {
          m \<leftarrow> store m a (nxt_update (\<lambda>_. head));
          m \<leftarrow> store m head (prv_update (\<lambda>_. a));
          s \<leftarrow> aset (slots w) ts a;
          Some (a, w\<lparr>slots := s, nodes := m\<rparr>)
        }
      })"

definition del_timer :: "ptr \<Rightarrow> time_wheel \<Rightarrow> time_wheel option" where
  "del_timer timer w =
     (if timer = NULL then Some w
      else do {
        ts \<leftarrow> load (nodes w) timer time_slot;
        head \<leftarrow> aget (slots w) ts;
        if timer = head then do {
          n \<leftarrow> load (nodes w) head nxt;
          s \<leftarrow> aset (slots w) ts n;
          m \<leftarrow> (if n \<noteq> NULL then store (nodes w) n (prv_update (\<lambda>_. NULL)) else Some (nodes w));
          m \<leftarrow> delete_node timer m;
          Some (w\<lparr>slots := s, nodes := m\<rparr>)
        } else do {
          p \<leftarrow> load (nodes w) timer prv;
          n \<leftarrow> load (nodes w) timer nxt;
          m \<leftarrow> store (nodes w) p (nxt_update (\<lambda>_. n));
          n \<leftarrow> load m timer nxt;
          m \<leftarrow> (if n \<noteq> NULL then do { p \<leftarrow> load m timer prv; store m n (prv_update (\<lambda>_. p)) } else Some m);
          m \<leftarrow> delete_node timer m;
          Some (w\<lparr>nodes := m\<rparr>)
        }
      })"

text \<open>The removal of an expired timer in \<open>tick\<close>; the second result is the next timer to look at.\<close>

definition tick_remove :: "ptr \<Rightarrow> time_wheel \<Rightarrow> (ptr \<times> time_wheel) option" where
  "tick_remove tmp w = do {
     head \<leftarrow> aget (slots w) (cur_slot w);
     if tmp = head then do {
       n \<leftarrow> load (nodes w) tmp nxt;
       s \<leftarrow> aset (slots w) (cur_slot w) n;
       m \<leftarrow> delete_node tmp (nodes w);
       m \<leftarrow> (if n \<noteq> NULL then store m n (prv_update (\<lambda>_. NULL)) else Some m);
       Some (n, w\<lparr>slots := s, nodes := m\<rparr>)
     } else do {
       p \<leftarrow> load (nodes w) tmp prv;
       n \<leftarrow> load (nodes w) tmp nxt;
       m \<leftarrow> store (nodes w) p (nxt_update (\<lambda>_. n));
       n \<leftarrow> load m tmp nxt;
       m \<leftarrow> (if n \<noteq> NULL then do { p \<leftarrow> load m tmp prv; store m n (prv_update (\<lambda>_. p)) } else Some m);
       tmp2 \<leftarrow> load m tmp nxt;
       m \<leftarrow> delete_node tmp m;
       Some (tmp2, w\<lparr>nodes := m\<rparr>)
     }
   }"

partial_function (option) tick_loop :: "ptr \<Rightarrow> time_wheel \<Rightarrow> ((nat \<times> ptr) list \<times> time_wheel) option" where
  "tick_loop tmp w =
     (if tmp = NULL then Some ([], w)
      else do {
        r \<leftarrow> load (nodes w) tmp rotation;
        if r > 0 then do {
          m \<leftarrow> store (nodes w) tmp (rotation_update (\<lambda>r. r - 1));
          n \<leftarrow> load m tmp nxt;
          tick_loop n (w\<lparr>nodes := m\<rparr>)
        } else do {
          cb \<leftarrow> load (nodes w) tmp cb_func;
          f \<leftarrow> cb;
          d \<leftarrow> load (nodes w) tmp user_data;
          (n, w) \<leftarrow> tick_remove tmp w;
          (out, w) \<leftarrow> tick_loop n w;
          Some ((f, d) # out, w)
        }
      })"

definition tick :: "time_wheel \<Rightarrow> ((nat \<times> ptr) list \<times> time_wheel) option" where
  "tick w = do {
     tmp \<leftarrow> aget (slots w) (cur_slot w);
     (out, w) \<leftarrow> tick_loop tmp w;
     Some (out, w\<lparr>cur_slot := (cur_slot w + 1) mod N\<rparr>)
   }"

text \<open>The destructor: every list is freed from its head on.\<close>

partial_function (option) free_list :: "ptr \<Rightarrow> (ptr \<rightharpoonup> tw_timer) \<Rightarrow> (ptr \<rightharpoonup> tw_timer) option" where
  "free_list tmp m =
     (if tmp = NULL then Some m
      else do { n \<leftarrow> load m tmp nxt; m \<leftarrow> delete_node tmp m; free_list n m })"

fun free_slots :: "ptr list \<Rightarrow> (ptr \<rightharpoonup> tw_timer) \<Rightarrow> (ptr \<rightharpoonup> tw_timer) option" where
  "free_slots [] m = Some m"
| "free_slots (p # ps) m = do { m \<leftarrow> free_list p m; free_slots ps m }"

definition time_wheel_destroy :: "time_wheel \<Rightarrow> (ptr \<rightharpoonup> tw_timer) option" where
  "time_wheel_destroy w = free_slots (slots w) (nodes w)"

end
