(* ===== verification/Time_Wheel_Correct.thy ===== *)
theory Time_Wheel_Correct
  imports Time_Wheel
begin

text \<open>
  The time wheel refines an agenda: a map from timers to the number of ticks left and the call to
  make. The lists of the slots are related to HOL lists by \<open>chain\<close>.
\<close>

subsection \<open>Doubly linked lists\<close>

definition first :: "ptr list \<Rightarrow> ptr \<Rightarrow> ptr" where
  "first xs q = (case xs of [] \<Rightarrow> q | x # _ \<Rightarrow> x)"

definition final :: "ptr \<Rightarrow> ptr list \<Rightarrow> ptr" where
  "final b xs = (if xs = [] then b else last xs)"

lemma first_simps [simp]: "first [] q = q" "first (x # xs) q = x" "first (xs @ ys) q = first xs (first ys q)"
  by (auto simp: first_def split: list.split)

lemma final_simps [simp]: "final b [] = b" "final b (x # xs) = final x xs" "final b (xs @ [x]) = x"
  by (simp_all add: final_def)

text \<open>\<open>xs\<close> is linked from \<open>b\<close> to \<open>q\<close>.\<close>

fun chain :: "(ptr \<rightharpoonup> tw_timer) \<Rightarrow> ptr \<Rightarrow> ptr list \<Rightarrow> ptr \<Rightarrow> bool" where
  "chain m b [] q = True"
| "chain m b (x # xs) q = (x \<noteq> NULL \<and> (\<exists>t. m x = Some t \<and> prv t = b \<and> nxt t = first xs q) \<and> chain m x xs q)"

lemma chain_append [simp]: "chain m b (xs @ ys) q \<longleftrightarrow> chain m b xs (first ys q) \<and> chain m (final b xs) ys q"
  by (induction xs arbitrary: b) auto

lemma chain_dom: "chain m b xs q \<Longrightarrow> x \<in> set xs \<Longrightarrow> x \<noteq> NULL \<and> (\<exists>t. m x = Some t)"
  by (induction xs arbitrary: b) auto

definition links :: "(ptr \<rightharpoonup> tw_timer) \<Rightarrow> ptr \<Rightarrow> (ptr \<times> ptr) option" where
  "links m x = map_option (\<lambda>t. (prv t, nxt t)) (m x)"

lemma chain_Cons: "chain m b (x # xs) q = (x \<noteq> NULL \<and> links m x = Some (b, first xs q) \<and> chain m x xs q)"
  by (auto simp: links_def)

lemma dll_cong: "\<forall>x \<in> set xs. links m' x = links m x \<Longrightarrow> chain m' b xs q = chain m b xs q"
  by (induction xs arbitrary: b) (simp_all add: chain_Cons del: chain.simps(2))

lemma chain_frame: "x \<notin> set xs \<Longrightarrow> chain (m(x := v)) b xs q = chain m b xs q"
  by (rule dll_cong) (auto simp: links_def)

lemma links_data: "m x = Some t \<Longrightarrow> (prv t', nxt t') = (prv t, nxt t) \<Longrightarrow> links (m(x \<mapsto> t')) y = links m y"
  by (auto simp: links_def)

lemma chain_set_next:
  assumes "chain m b qs q" "distinct qs" "qs \<noteq> []" "m (last qs) = Some t" "prv t' = prv t" "nxt t' = q'"
  shows "chain (m(last qs \<mapsto> t')) b qs q'"
proof -
  obtain rs l where qs: "qs = rs @ [l]" using assms(3) by (metis append_butlast_last_id)
  have "chain m b rs l" "chain m (final b rs) [l] q" "l \<notin> set rs" using assms(1,2) qs by auto
  then show ?thesis using assms(4-6) qs by (auto simp: chain_frame)
qed

lemma chain_set_prev:
  assumes "chain m b (y # ys) q" "distinct (y # ys)" "m y = Some t" "nxt t' = nxt t" "prv t' = b'"
  shows "chain (m(y \<mapsto> t')) b' (y # ys) q"
  using assms by (auto simp: chain_frame)

text \<open>Everything but the links.\<close>

definition info :: "(ptr \<rightharpoonup> tw_timer) \<Rightarrow> (ptr \<rightharpoonup> tw_timer)" where
  "info m = (\<lambda>x. map_option (\<lambda>t. t\<lparr>nxt := NULL, prv := NULL\<rparr>) (m x))"

lemma info_links [simp]:
  "m x = Some t \<Longrightarrow> info (m(x \<mapsto> t\<lparr>nxt := a\<rparr>)) = info m" "m x = Some t \<Longrightarrow> info (m(x \<mapsto> t\<lparr>prv := a\<rparr>)) = info m"
  by (auto simp: info_def)

lemma info_del [simp]: "info (m(x := None)) = (info m)(x := None)"
  by (auto simp: info_def)

text \<open>Taking \<open>x\<close> out of a list, up to the update of the head.\<close>

definition unlink :: "ptr list \<Rightarrow> ptr \<Rightarrow> ptr list \<Rightarrow> (ptr \<rightharpoonup> tw_timer) \<Rightarrow> (ptr \<rightharpoonup> tw_timer) \<Rightarrow> bool" where
  "unlink qs x ys m m' \<longleftrightarrow> chain m' NULL (qs @ ys) NULL \<and> info m' = (info m)(x := None) \<and> (\<forall>y. y \<notin> set (qs @ x # ys) \<longrightarrow> m' y = m y)"

lemma unlink_head:
  assumes "chain m NULL (x # ys) NULL" "distinct (x # ys)"
  shows "\<exists>t. m x = Some t \<and> nxt t = first ys NULL"
    and "ys = [] \<Longrightarrow> unlink [] x ys m (m(x := None))"
    and "ys = y # zs \<Longrightarrow> \<exists>u. m y = Some u \<and> unlink [] x ys m (m(x := None, y \<mapsto> u\<lparr>prv := NULL\<rparr>)) \<and> y \<noteq> x"
proof -
  show "\<exists>t. m x = Some t \<and> nxt t = first ys NULL" using assms by auto
  show "ys = [] \<Longrightarrow> unlink [] x ys m (m(x := None))" by (simp add: unlink_def)
  assume ys: "ys = y # zs"
  then obtain u where u: "m y = Some u" "y \<noteq> x" using assms by auto
  have "chain (m(x := None)) x (y # zs) NULL" using assms ys by (simp add: chain_frame del: chain.simps) (simp add: chain_frame)
  then have "chain (m(x := None, y \<mapsto> u\<lparr>prv := NULL\<rparr>)) NULL (y # zs) NULL"
    using assms(2) ys u by (intro chain_set_prev [where t = u]) auto
  then show "\<exists>u. m y = Some u \<and> unlink [] x ys m (m(x := None, y \<mapsto> u\<lparr>prv := NULL\<rparr>)) \<and> y \<noteq> x"
    using u ys by (intro exI [of _ u]) (simp add: unlink_def)
qed


lemma unlink_mid:
  assumes "chain m NULL (qs @ x # ys) NULL" "distinct (qs @ x # ys)" "qs \<noteq> []"
  defines "p \<equiv> last qs"
  shows "\<exists>t. m x = Some t \<and> prv t = p \<and> nxt t = first ys NULL" and "\<exists>tp. m p = Some tp" and "p \<noteq> x"
    and "m p = Some tp \<Longrightarrow> ys = [] \<Longrightarrow> unlink qs x ys m (m(p \<mapsto> tp\<lparr>nxt := NULL\<rparr>, x := None))"
    and "m p = Some tp \<Longrightarrow> ys = y # zs \<Longrightarrow> \<exists>u. m y = Some u \<and> y \<noteq> p \<and> y \<noteq> x \<and> y \<noteq> NULL \<and>
           unlink qs x ys m (m(p \<mapsto> tp\<lparr>nxt := y\<rparr>, y \<mapsto> u\<lparr>prv := p\<rparr>, x := None))"
proof -
  have c: "chain m NULL qs x" "chain m (final NULL qs) (x # ys) NULL" using assms(1) by simp_all
  have pq: "p \<in> set qs" "final NULL qs = p" using assms(3) by (simp_all add: p_def final_def)
  show "\<exists>t. m x = Some t \<and> prv t = p \<and> nxt t = first ys NULL" using c(2) pq by auto
  show "p \<noteq> x" using pq assms(2) by auto
  show "\<exists>tp. m p = Some tp" using chain_dom [OF c(1) pq(1)] by blast
  assume tp: "m p = Some tp"
  have d: "distinct qs" "x \<notin> set qs" using assms(2) by auto
  have q: "chain (m(p \<mapsto> tp\<lparr>nxt := q'\<rparr>)) NULL qs q'" for q'
    unfolding p_def by (rule chain_set_next [OF c(1) d(1) assms(3)]) (use tp in \<open>simp_all add: p_def\<close>)
  show "ys = [] \<Longrightarrow> unlink qs x ys m (m(p \<mapsto> tp\<lparr>nxt := NULL\<rparr>, x := None))"
    using q d(2) tp pq(1) by (auto simp: unlink_def chain_frame)
  assume ys: "ys = y # zs"
  have yz: "chain m x (y # zs) NULL" "y \<notin> set qs" "y \<noteq> x" "p \<notin> set zs" "x \<notin> set zs" "x \<notin> set (y # zs)" "distinct (y # zs)"
    using c(2) assms(2) ys pq(1) by auto
  then obtain u where u: "m y = Some u" "y \<noteq> NULL" by auto
  have yp: "y \<noteq> p" using yz(2) pq(1) by auto
  let ?m = "m(p \<mapsto> tp\<lparr>nxt := y\<rparr>)"
  have "chain ?m x (y # zs) NULL" using yz yp by (subst chain_frame) auto
  then have "chain (?m(y \<mapsto> u\<lparr>prv := p\<rparr>)) p (y # zs) NULL"
    using yz(7) u yp by (intro chain_set_prev [where t = u]) auto
  moreover have "chain (?m(y \<mapsto> u\<lparr>prv := p\<rparr>)) NULL qs y" using q yz(2) by (simp add: chain_frame)
  ultimately have "chain (?m(y \<mapsto> u\<lparr>prv := p\<rparr>, x := None)) NULL (qs @ y # zs) NULL"
    using d(2) yz(6) pq(2) by (simp add: chain_frame del: chain.simps)
  moreover have "info (?m(y \<mapsto> u\<lparr>prv := p\<rparr>)) = info m" using tp u yp by simp
  ultimately show "\<exists>u. m y = Some u \<and> y \<noteq> p \<and> y \<noteq> x \<and> y \<noteq> NULL \<and>
           unlink qs x ys m (m(p \<mapsto> tp\<lparr>nxt := y\<rparr>, y \<mapsto> u\<lparr>prv := p\<rparr>, x := None))"
    using u yp yz(3) ys pq(1) by (intro exI [of _ u]) (auto simp: unlink_def)
qed

lemma first_zero: "chain m b xs q \<Longrightarrow> first xs NULL = NULL \<longleftrightarrow> xs = []"
  by (cases xs) auto

lemma head_ne: "distinct (qs @ x # ys) \<Longrightarrow> x = first (qs @ x # ys) NULL \<longleftrightarrow> qs = []"
  by (cases qs) auto

lemma tick_remove_ok:
  assumes "chain (nodes w) NULL (qs @ x # ys) NULL" "distinct (qs @ x # ys)" "aget (slots w) (cur_slot w) = Some (first (qs @ x # ys) NULL)"
  shows "wp (tick_remove x w) (\<lambda>(n, w'). n = first ys NULL \<and> cur_slot w' = cur_slot w \<and> unlink qs x ys (nodes w) (nodes w') \<and>
     slots w' = (slots w)[nat (cur_slot w) := first (qs @ ys) NULL])"
proof (cases "qs = []")
  case True
  note u = unlink_head [OF assms(1,2) [unfolded True append_Nil]]
  from u(1) obtain t where t: "nodes w x = Some t" "nxt t = first ys NULL" by blast
  have s: "aset (slots w) (cur_slot w) n = Some ((slots w)[nat (cur_slot w) := n])" for n
    using assms(3) by (simp add: aget_def aset_def split: if_splits)
  show ?thesis
  proof (cases ys)
    case Nil
    then show ?thesis using u(2) t s assms(3) True by (simp add: tick_remove_def delete_node_def)
  next
    case (Cons y zs)
    with u(3) obtain v where v: "nodes w y = Some v" "unlink [] x ys (nodes w) ((nodes w)(x := None, y \<mapsto> v\<lparr>prv := NULL\<rparr>))" "y \<noteq> x" by blast
    moreover have "y \<noteq> NULL" using assms(1) Cons by auto
    ultimately show ?thesis using t s assms(3) True Cons by (simp add: tick_remove_def delete_node_def)
  qed
next
  case False
  let ?p = "last qs" and ?m = "nodes w"
  note u = unlink_mid [OF assms(1,2) False]
  from u(1) obtain t where t: "?m x = Some t" "prv t = ?p" "nxt t = first ys NULL" by blast
  from u(2) obtain tp where tp: "?m ?p = Some tp" by blast
  have hd: "x \<noteq> first qs x" using head_ne [OF assms(2)] False by simp
  have sl: "(slots w)[nat (cur_slot w) := first (qs @ ys) NULL] = slots w"
    using assms(3) False by (cases qs) (auto simp: aget_def split: if_splits)
  show ?thesis
  proof (cases ys)
    case Nil
    then show ?thesis using u(3) u(4) [OF tp] t tp hd sl assms(3) by (simp add: tick_remove_def delete_node_def)
  next
    case (Cons y zs)
    with u(5) [OF tp] obtain v where v: "?m y = Some v" "y \<noteq> ?p" "y \<noteq> x" "y \<noteq> NULL"
      "unlink qs x ys ?m (?m(?p \<mapsto> tp\<lparr>nxt := y\<rparr>, y \<mapsto> v\<lparr>prv := ?p\<rparr>, x := None))" by blast
    then show ?thesis using u(3) t tp hd sl assms(3) Cons by (simp add: tick_remove_def delete_node_def)
  qed
qed

lemma del_timer_ok:
  assumes "chain (nodes w) NULL (qs @ x # ys) NULL" "distinct (qs @ x # ys)" "nodes w x = Some t"
    and "aget (slots w) (time_slot t) = Some (first (qs @ x # ys) NULL)"
  shows "wp (del_timer x w) (\<lambda>w'. cur_slot w' = cur_slot w \<and> unlink qs x ys (nodes w) (nodes w') \<and>
     slots w' = (slots w)[nat (time_slot t) := first (qs @ ys) NULL])"
proof (cases "qs = []")
  case True
  note u = unlink_head [OF assms(1,2) [unfolded True append_Nil]]
  have t: "nxt t = first ys NULL" "x \<noteq> NULL" using u(1) assms(1,3) True by auto
  have s: "aset (slots w) (time_slot t) n = Some ((slots w)[nat (time_slot t) := n])" for n
    using assms(4) by (simp add: aget_def aset_def split: if_splits)
  show ?thesis
  proof (cases ys)
    case Nil
    then show ?thesis using u(2) t s assms(3,4) True by (simp add: del_timer_def delete_node_def)
  next
    case (Cons y zs)
    with u(3) obtain v where v: "nodes w y = Some v" "unlink [] x ys (nodes w) ((nodes w)(x := None, y \<mapsto> v\<lparr>prv := NULL\<rparr>))" "y \<noteq> x" by blast
    moreover have "y \<noteq> NULL" using assms(1) Cons by auto
    ultimately show ?thesis using t s assms(3,4) True Cons by (simp add: del_timer_def delete_node_def fun_upd_twist)
  qed
next
  case False
  let ?p = "last qs" and ?m = "nodes w"
  note u = unlink_mid [OF assms(1,2) False]
  have t: "prv t = ?p" "nxt t = first ys NULL" "x \<noteq> NULL" using u(1) assms(1,3) by auto
  from u(2) obtain tp where tp: "?m ?p = Some tp" by blast
  have hd: "x \<noteq> first qs x" using head_ne [OF assms(2)] False by simp
  have sl: "(slots w)[nat (time_slot t) := first (qs @ ys) NULL] = slots w"
    using assms(4) False by (cases qs) (auto simp: aget_def split: if_splits)
  show ?thesis
  proof (cases ys)
    case Nil
    then show ?thesis using u(3) u(4) [OF tp] t tp hd sl assms(3,4) by (simp add: del_timer_def delete_node_def)
  next
    case (Cons y zs)
    with u(5) [OF tp] obtain v where v: "?m y = Some v" "y \<noteq> ?p" "y \<noteq> x" "y \<noteq> NULL"
      "unlink qs x ys ?m (?m(?p \<mapsto> tp\<lparr>nxt := y\<rparr>, y \<mapsto> v\<lparr>prv := ?p\<rparr>, x := None))" by blast
    then show ?thesis using u(3) t tp hd sl assms(3,4) Cons by (simp add: del_timer_def delete_node_def)
  qed
qed


subsection \<open>The loop of tick\<close>

lemma aget_same: "aget xs i = Some x \<Longrightarrow> xs[nat i := x] = xs"
  unfolding aget_def by (metis list_update_id option.distinct(1) option.inject)

definition live :: "(ptr \<rightharpoonup> tw_timer) \<Rightarrow> ptr \<Rightarrow> bool" where
  "live I x \<longleftrightarrow> 0 < rotation (the (I x))"

definition call_of :: "(ptr \<rightharpoonup> tw_timer) \<Rightarrow> ptr \<Rightarrow> nat \<times> ptr" where
  "call_of I x = (the (cb_func (the (I x))), user_data (the (I x)))"

definition turned :: "(ptr \<rightharpoonup> tw_timer) \<Rightarrow> ptr list \<Rightarrow> (ptr \<rightharpoonup> tw_timer)" where
  "turned I xs = (\<lambda>y. if y \<in> set xs then (if live I y then map_option (rotation_update (\<lambda>r. r - 1)) (I y) else None) else I y)"

lemma info_fields: "m x = Some t \<Longrightarrow> \<exists>u. info m x = Some u \<and> rotation u = rotation t \<and> time_slot u = time_slot t \<and>
    cb_func u = cb_func t \<and> user_data u = user_data t"
  by (simp add: info_def)

lemma info_eq: "info m' x = info m x \<Longrightarrow> m x = Some t \<Longrightarrow> \<exists>u. m' x = Some u \<and> rotation u = rotation t \<and> time_slot u = time_slot t \<and>
    cb_func u = cb_func t \<and> user_data u = user_data t"
  by (cases "m' x"; cases t; cases "the (m' x)") (auto simp: info_def)

lemma live_upd: "x \<notin> set xs \<Longrightarrow> filter (live (I(x := v))) xs = filter (live I) xs"
  "x \<notin> set xs \<Longrightarrow> filter (\<lambda>y. \<not> live (I(x := v)) y) xs = filter (\<lambda>y. \<not> live I y) xs"
  "x \<notin> set xs \<Longrightarrow> map (call_of (I(x := v))) (filter P xs) = map (call_of I) (filter P xs)"
  by (auto simp: live_def call_of_def intro!: filter_cong split: if_splits)

definition loop_post :: "ptr list \<Rightarrow> ptr list \<Rightarrow> time_wheel \<Rightarrow> (nat \<times> ptr) list \<times> time_wheel \<Rightarrow> bool" where
  "loop_post qs xs w = (\<lambda>(out, w'). let I = info (nodes w); zs = qs @ filter (live I) xs in
     cur_slot w' = cur_slot w \<and> slots w' = (slots w)[nat (cur_slot w) := first zs NULL] \<and> chain (nodes w') NULL zs NULL \<and>
     info (nodes w') = turned I xs \<and> (\<forall>y. y \<notin> set (qs @ xs) \<longrightarrow> nodes w' y = nodes w y) \<and>
     out = map (call_of I) (filter (\<lambda>y. \<not> live I y) xs))"

lemma wheel_tick_loop_ok:
  assumes "chain (nodes w) NULL (qs @ xs) NULL" "distinct (qs @ xs)" "aget (slots w) (cur_slot w) = Some (first (qs @ xs) NULL)"
    and "\<forall>x \<in> set xs. \<exists>t. nodes w x = Some t \<and> cb_func t \<noteq> None"
  shows "wp (tick_loop (first xs NULL) w) (loop_post qs xs w)"
  using assms
proof (induction xs arbitrary: qs w)
  case Nil
  have "(slots w)[nat (cur_slot w) := first qs NULL] = slots w" using aget_same [OF Nil.prems(3)] by simp
  then show ?case using Nil.prems by (subst tick_loop.simps) (simp add: loop_post_def turned_def)
next
  case (Cons x xs)
  obtain t f where t: "nodes w x = Some t" "cb_func t = Some f" using Cons.prems(4) by auto
  obtain u where u: "info (nodes w) x = Some u" "rotation u = rotation t" "cb_func u = Some f" "user_data u = user_data t"
    using info_fields [of "nodes w", OF t(1)] t(2) by auto
  have x0: "x \<noteq> NULL" "nxt t = first xs NULL" "x \<notin> set xs" "x \<notin> set qs" using Cons.prems(1,2) t(1) by auto
  show ?case
  proof (cases "rotation t > 0")
    case True
    define t' where "t' = rotation_update (\<lambda>r. r - 1) t"
    define w1 where "w1 = w\<lparr>nodes := (nodes w)(x \<mapsto> t')\<rparr>"
    have n1: "nodes w1 = (nodes w)(x \<mapsto> t')" "cur_slot w1 = cur_slot w" "slots w1 = slots w" by (simp_all add: w1_def)
    have c1: "chain (nodes w1) NULL ((qs @ [x]) @ xs) NULL"
      using Cons.prems(1) t(1) unfolding n1 by (subst dll_cong) (auto simp: links_data t'_def)
    have IH: "wp (tick_loop (first xs NULL) w1) (loop_post (qs @ [x]) xs w1)"
    proof (rule Cons.IH [OF c1])
      show "\<forall>y \<in> set xs. \<exists>t. nodes w1 y = Some t \<and> cb_func t \<noteq> None" using Cons.prems(4) x0(3) by (auto simp: n1(1))
    qed (use Cons.prems(2,3) n1 in auto)
    have eq: "tick_loop (first (x # xs) NULL) w = tick_loop (first xs NULL) w1"
      using t x0 True by (subst tick_loop.simps) (simp add: w1_def t'_def)
    have I1: "info (nodes w1) = (info (nodes w))(x \<mapsto> rotation_update (\<lambda>r. r - 1) u)"
      using t(1) u(1) unfolding n1 by (auto simp: info_def t'_def)
    have lx: "live (info (nodes w)) x" using True u by (simp add: live_def)
    have T: "turned (info (nodes w1)) xs = turned (info (nodes w)) (x # xs)"
      unfolding I1 using u(1) x0 lx by (auto simp: turned_def live_def fun_eq_iff)
    have fl: "filter (live (info (nodes w1))) xs = filter (live (info (nodes w))) xs"
      "filter (\<lambda>y. \<not> live (info (nodes w1)) y) xs = filter (\<lambda>y. \<not> live (info (nodes w)) y) xs"
      "\<And>P. map (call_of (info (nodes w1))) (filter P xs) = map (call_of (info (nodes w))) (filter P xs)"
      unfolding I1 using x0(3) by (simp_all add: live_upd)
    have "loop_post (qs @ [x]) xs w1 r \<Longrightarrow> loop_post qs (x # xs) w r" for r
      unfolding loop_post_def Let_def fl T n1(2,3) using lx by (auto simp: n1(1))
    then show ?thesis unfolding eq using IH by (auto elim!: wp_mono)
  next
    case False
    have rm: "wp (tick_remove x w) (\<lambda>(n, w'). n = first xs NULL \<and> cur_slot w' = cur_slot w \<and> unlink qs x xs (nodes w) (nodes w') \<and>
      slots w' = (slots w)[nat (cur_slot w) := first (qs @ xs) NULL])"
      by (rule tick_remove_ok [OF Cons.prems(1-3)])
    then obtain w1 where w1: "tick_remove x w = Some (first xs NULL, w1)" "cur_slot w1 = cur_slot w" "unlink qs x xs (nodes w) (nodes w1)"
      "slots w1 = (slots w)[nat (cur_slot w) := first (qs @ xs) NULL]" by (auto elim!: wpE)
    from w1(3) have ul: "chain (nodes w1) NULL (qs @ xs) NULL" "info (nodes w1) = (info (nodes w))(x := None)"
      "\<forall>y. y \<notin> set (qs @ x # xs) \<longrightarrow> nodes w1 y = nodes w y" by (simp_all add: unlink_def)
    have cb: "\<forall>y \<in> set xs. \<exists>t. nodes w1 y = Some t \<and> cb_func t \<noteq> None"
    proof
      fix y assume y: "y \<in> set xs"
      then obtain s where s: "nodes w y = Some s" "cb_func s \<noteq> None" using Cons.prems(4) by auto
      have "info (nodes w1) y = info (nodes w) y" using ul(2) y x0(3) by auto
      then show "\<exists>t. nodes w1 y = Some t \<and> cb_func t \<noteq> None" using info_eq [of "nodes w1" y "nodes w"] s by auto
    qed
    have "aget (slots w1) (cur_slot w1) = Some (first (qs @ xs) NULL)" using w1 Cons.prems(3) by (auto simp: aget_def split: if_splits)
    then have IH: "wp (tick_loop (first xs NULL) w1) (loop_post qs xs w1)"
      using Cons.prems(2) ul cb by (intro Cons.IH) auto
    have eq: "tick_loop (first (x # xs) NULL) w = do { (out, w') \<leftarrow> tick_loop (first xs NULL) w1; Some ((f, user_data t) # out, w') }"
      using t x0 False w1(1) by (subst tick_loop.simps) simp
    have lx: "\<not> live (info (nodes w)) x" "call_of (info (nodes w)) x = (f, user_data t)" using False u by (simp_all add: live_def call_of_def)
    have T: "turned (info (nodes w1)) xs = turned (info (nodes w)) (x # xs)"
      unfolding ul(2) using x0 lx by (auto simp: turned_def live_def fun_eq_iff)
    have fl: "filter (live (info (nodes w1))) xs = filter (live (info (nodes w))) xs"
      "filter (\<lambda>y. \<not> live (info (nodes w1)) y) xs = filter (\<lambda>y. \<not> live (info (nodes w)) y) xs"
      "\<And>P. map (call_of (info (nodes w1))) (filter P xs) = map (call_of (info (nodes w))) (filter P xs)"
      unfolding ul(2) using x0(3) by (simp_all add: live_upd)
    have "loop_post qs xs w1 (out, w') \<Longrightarrow> loop_post qs (x # xs) w ((f, user_data t) # out, w')" for out w'
      unfolding loop_post_def Let_def fl T w1(2,4) using lx ul(3) by auto
    then show ?thesis unfolding eq wp_bind using IH by (auto elim!: wp_mono)
  qed
qed


subsection \<open>The wheel and its agenda\<close>

definition slot_ok :: "(ptr \<rightharpoonup> tw_timer) \<Rightarrow> ptr list list \<Rightarrow> bool" where
  "slot_ok I ss \<longleftrightarrow> (\<forall>i < 60. \<forall>x \<in> set (ss ! i). \<exists>t. I x = Some t \<and> time_slot t = int i \<and> 0 \<le> rotation t \<and> cb_func t \<noteq> None) \<and>
     (\<forall>x. I x \<noteq> None \<longrightarrow> (\<exists>i < 60. x \<in> set (ss ! i)))"

definition wheel_rep :: "time_wheel \<Rightarrow> ptr list list \<Rightarrow> bool" where
  "wheel_rep w ss \<longleftrightarrow> length (slots w) = 60 \<and> length ss = 60 \<and> 0 \<le> cur_slot w \<and> cur_slot w < 60 \<and>
     (\<forall>i < 60. slots w ! i = first (ss ! i) NULL \<and> chain (nodes w) NULL (ss ! i) NULL \<and> distinct (ss ! i)) \<and>
     slot_ok (info (nodes w)) ss"

definition wheel_inv :: "time_wheel \<Rightarrow> bool" where
  "wheel_inv w \<longleftrightarrow> (\<exists>ss. wheel_rep w ss)"

text \<open>The calls to \<open>tick\<close> before the one that fires, and the call it makes.\<close>

definition entry :: "int \<Rightarrow> tw_timer \<Rightarrow> int \<times> nat \<times> ptr" where
  "entry cur t = (rotation t * 60 + (time_slot t - cur) mod 60, the (cb_func t), user_data t)"

definition agenda :: "time_wheel \<Rightarrow> ptr \<rightharpoonup> int \<times> nat \<times> ptr" where
  "agenda w = (\<lambda>x. map_option (entry (cur_slot w)) (nodes w x))"

lemma agenda_info: "agenda w x = map_option (entry (cur_slot w)) (info (nodes w) x)"
  by (cases "nodes w x") (simp_all add: agenda_def info_def entry_def)

lemma slot_okD: "slot_ok I ss \<Longrightarrow> i < 60 \<Longrightarrow> x \<in> set (ss ! i) \<Longrightarrow>
    \<exists>t. I x = Some t \<and> time_slot t = int i \<and> 0 \<le> rotation t \<and> cb_func t \<noteq> None"
  by (simp add: slot_ok_def)

lemma slot_okE: "slot_ok I ss \<Longrightarrow> I x = Some t \<Longrightarrow> \<exists>i < 60. x \<in> set (ss ! i)"
  by (simp add: slot_ok_def)

lemma slot_disjoint: "slot_ok I ss \<Longrightarrow> i < 60 \<Longrightarrow> j < 60 \<Longrightarrow> x \<in> set (ss ! i) \<Longrightarrow> x \<in> set (ss ! j) \<Longrightarrow> i = j"
  by (metis slot_okD of_nat_eq_iff option.inject)

lemma rep_change:
  assumes "wheel_rep w ss" "k < 60" "0 \<le> cur_slot w'" "cur_slot w' < 60" "slots w' = (slots w)[k := first zs NULL]"
    and "chain (nodes w') NULL zs NULL" "distinct zs" "slot_ok (info (nodes w')) (ss[k := zs])"
    and "\<And>i y. i < 60 \<Longrightarrow> i \<noteq> k \<Longrightarrow> y \<in> set (ss ! i) \<Longrightarrow> links (nodes w') y = links (nodes w) y"
  shows "wheel_rep w' (ss[k := zs])"
  unfolding wheel_rep_def
proof (intro conjI allI impI)
  fix i :: nat assume i: "i < 60"
  have l: "length (slots w) = 60" "length ss = 60" using assms(1) by (simp_all add: wheel_rep_def)
  have r: "slots w ! i = first (ss ! i) NULL" "chain (nodes w) NULL (ss ! i) NULL" "distinct (ss ! i)"
    using assms(1) i by (simp_all add: wheel_rep_def)
  show "slots w' ! i = first (ss[k := zs] ! i) NULL" "distinct (ss[k := zs] ! i)"
    using assms(2,5,7) i l r by (simp_all add: nth_list_update)
  show "chain (nodes w') NULL (ss[k := zs] ! i) NULL"
  proof (cases "i = k")
    case False
    then show ?thesis using r(2) dll_cong [of "ss ! i" "nodes w'" "nodes w"] assms(9) [OF i] by simp
  qed (use assms(2,6) l in simp)
qed (use assms in \<open>simp_all add: wheel_rep_def\<close>)

lemma new_ok: "wheel_inv (time_wheel_new Map.empty)" "agenda (time_wheel_new Map.empty) = Map.empty"
  unfolding wheel_inv_def
  by (rule exI [of _ "replicate 60 []"]) (auto simp: time_wheel_new_def wheel_rep_def slot_ok_def info_def agenda_def N_def)

lemma slot_nodes:
  assumes "wheel_rep w ss" "i < 60" "x \<in> set (ss ! i)"
  shows "x \<noteq> NULL" "\<exists>t. nodes w x = Some t \<and> time_slot t = int i \<and> 0 \<le> rotation t \<and> cb_func t \<noteq> None"
proof -
  have "chain (nodes w) NULL (ss ! i) NULL" "slot_ok (info (nodes w)) ss" using assms by (simp_all add: wheel_rep_def)
  from chain_dom [OF this(1) assms(3)] slot_okD [OF this(2) assms(2,3)]
  show "x \<noteq> NULL" "\<exists>t. nodes w x = Some t \<and> time_slot t = int i \<and> 0 \<le> rotation t \<and> cb_func t \<noteq> None"
    by (auto simp: info_def)
qed

lemma node_slot:
  assumes "wheel_rep w ss" "nodes w x = Some t"
  shows "\<exists>i < 60. x \<in> set (ss ! i) \<and> time_slot t = int i"
proof -
  have so: "slot_ok (info (nodes w)) ss" using assms(1) by (simp add: wheel_rep_def)
  obtain u where u: "info (nodes w) x = Some u" "time_slot u = time_slot t" using info_fields [of "nodes w", OF assms(2)] by auto
  then show ?thesis using slot_okE [OF so u(1)] slot_okD [OF so] by fastforce
qed

lemma add_timer_ok:
  assumes "wheel_inv w" "a \<noteq> NULL" "nodes w a = None" "0 \<le> timeout"
  shows "wp (add_timer timeout (Some f) d a w) (\<lambda>(r, w'). r = a \<and> wheel_inv w' \<and> agenda w' = (agenda w)(a \<mapsto> (max 1 timeout, f, d)))"
proof -
  obtain ss where rep: "wheel_rep w ss" using assms(1) by (auto simp: wheel_inv_def)
  define tk where "tk = max 1 timeout"
  define ts where "ts = (cur_slot w + tk mod 60) mod 60"
  define k where "k = nat ts"
  define t where "t = \<lparr>rotation = tk div 60, time_slot = ts, cb_func = Some f, user_data = d, nxt = NULL, prv = NULL\<rparr>"
  have k: "k < 60" "ts = int k" by (auto simp: k_def ts_def)
  have tk: "(if timeout < SI then 1 else timeout div SI) = tk" using assms(4) by (auto simp: tk_def SI_def)
  have len: "length (slots w) = 60" "length ss = 60" and so: "slot_ok (info (nodes w)) ss"
    and c: "chain (nodes w) NULL (ss ! k) NULL" "distinct (ss ! k)" "slots w ! k = first (ss ! k) NULL"
    using rep k(1) by (simp_all add: wheel_rep_def)
  have get: "aget (slots w) ts = Some (first (ss ! k) NULL)" "aset (slots w) ts a = Some ((slots w)[k := a])"
    using k len c(3) by simp_all
  have an: "a \<notin> set (ss ! i)" if "i < 60" for i using slot_nodes(2) [OF rep that, of a] assms(3) by auto
  have ent: "entry (cur_slot w) t = (tk, f, d)"
  proof -
    have "(ts - cur_slot w) mod 60 = tk mod 60" by (simp add: ts_def mod_simps)
    then show ?thesis by (simp add: entry_def t_def)
  qed
  have slot: "slot_ok ((info (nodes w))(a \<mapsto> t)) (ss[k := a # (ss ! k)])"
    unfolding slot_ok_def
  proof (intro conjI allI ballI impI)
    fix i x assume i: "i < (60::nat)" "x \<in> set (ss[k := a # (ss ! k)] ! i)"
    have "0 \<le> tk" by (simp add: tk_def)
    then show "\<exists>u. ((info (nodes w))(a \<mapsto> t)) x = Some u \<and> time_slot u = int i \<and> 0 \<le> rotation u \<and> cb_func u \<noteq> None"
      using i so an k len by (auto simp: slot_ok_def t_def nth_list_update split: if_splits)
  next
    fix x assume "((info (nodes w))(a \<mapsto> t)) x \<noteq> None"
    then have "x = a \<or> (\<exists>i < 60. x \<in> set (ss ! i))" using so by (auto simp: slot_ok_def split: if_splits)
    then show "\<exists>i < 60. x \<in> set (ss[k := a # (ss ! k)] ! i)" using k len by (auto simp: nth_list_update)
  qed
  have fin: "wheel_inv w' \<and> agenda w' = (agenda w)(a \<mapsto> (tk, f, d))"
    if "cur_slot w' = cur_slot w" "slots w' = (slots w)[k := a]" "chain (nodes w') NULL (a # (ss ! k)) NULL"
      "info (nodes w') = (info (nodes w))(a \<mapsto> t)" "\<And>y. y \<notin> set (ss ! k) \<Longrightarrow> y \<noteq> a \<Longrightarrow> nodes w' y = nodes w y" for w'
  proof
    have "wheel_rep w' (ss[k := a # (ss ! k)])"
    proof (rule rep_change [OF rep k(1)])
      fix i y assume i: "i < 60" "i \<noteq> k" "y \<in> set (ss ! i)"
      then have "y \<notin> set (ss ! k)" using slot_disjoint [OF so i(1) k(1) i(3)] by blast
      moreover have "y \<noteq> a" using i an by blast
      ultimately show "links (nodes w') y = links (nodes w) y" using that(5) by (simp add: links_def)
    qed (use that rep slot c an k(1) in \<open>simp_all add: wheel_rep_def\<close>)
    then show "wheel_inv w'" by (auto simp: wheel_inv_def)
    show "agenda w' = (agenda w)(a \<mapsto> (tk, f, d))" using that(1,4) ent by (auto simp: agenda_info)
  qed
  show ?thesis
  proof (cases "ss ! k")
    case Nil
    let ?w = "w\<lparr>slots := (slots w)[k := a], nodes := (nodes w)(a \<mapsto> t)\<rparr>"
    have "add_timer timeout (Some f) d a w = Some (a, ?w)"
      using get Nil assms(4) by (simp add: add_timer_def tk t_def N_def ts_def)
    then show ?thesis using fin [of ?w] Nil assms(2) unfolding tk_def by (simp add: info_def t_def fun_eq_iff)
  next
    case (Cons y ys)
    obtain u where u: "nodes w y = Some u" "y \<noteq> NULL" "y \<noteq> a" using c(1) Cons an [OF k(1)] by auto
    let ?m = "(nodes w)(a \<mapsto> t\<lparr>nxt := y\<rparr>, y \<mapsto> u\<lparr>prv := a\<rparr>)"
    let ?w = "w\<lparr>slots := (slots w)[k := a], nodes := ?m\<rparr>"
    have "add_timer timeout (Some f) d a w = Some (a, ?w)"
      using get Cons u assms(4) by (simp add: add_timer_def tk t_def N_def ts_def)
    moreover have "chain ?m a (y # ys) NULL"
      using c(1,2) Cons u an [OF k(1)] by (intro chain_set_prev [where t = u]) (auto simp: chain_frame)
    moreover have "info ?m = (info (nodes w))(a \<mapsto> t)" using u by (auto simp: info_def t_def)
    ultimately show ?thesis using fin [of ?w] Cons assms(2) u(3) unfolding tk_def by (simp add: t_def)
  qed
qed


lemma del_ok:
  assumes "wheel_inv w" "nodes w x = Some t"
  shows "wp (del_timer x w) (\<lambda>w'. wheel_inv w' \<and> agenda w' = (agenda w)(x := None))"
proof -
  obtain ss where rep: "wheel_rep w ss" using assms(1) by (auto simp: wheel_inv_def)
  obtain k where k: "k < 60" "x \<in> set (ss ! k)" "time_slot t = int k" using node_slot [OF rep assms(2)] by blast
  obtain qs ys where sp: "ss ! k = qs @ x # ys" using split_list [OF k(2)] by blast
  have len: "length (slots w) = 60" "length ss = 60" and so: "slot_ok (info (nodes w)) ss"
    and c: "chain (nodes w) NULL (qs @ x # ys) NULL" "distinct (qs @ x # ys)" "slots w ! k = first (qs @ x # ys) NULL"
    using rep k(1) sp [symmetric] by (simp_all add: wheel_rep_def)
  have dist: "x \<notin> set (qs @ ys)" using c(2) by auto
  have "aget (slots w) (time_slot t) = Some (first (qs @ x # ys) NULL)" using k len c(3) by simp
  from del_timer_ok [OF c(1,2) assms(2) this] show ?thesis
  proof (rule wp_mono)
    fix w' :: time_wheel assume w': "cur_slot w' = cur_slot w \<and> unlink qs x ys (nodes w) (nodes w') \<and> slots w' = (slots w)[nat (time_slot t) := first (qs @ ys) NULL]"
    then have ul: "chain (nodes w') NULL (qs @ ys) NULL" "info (nodes w') = (info (nodes w))(x := None)"
      "\<forall>y. y \<notin> set (qs @ x # ys) \<longrightarrow> nodes w' y = nodes w y" by (simp_all add: unlink_def)
    have "slot_ok (info (nodes w')) (ss[k := qs @ ys])"
      unfolding slot_ok_def
    proof (intro conjI allI ballI impI)
      fix i y assume i: "i < (60::nat)" "y \<in> set (ss[k := qs @ ys] ! i)"
      then have yi: "y \<in> set (ss ! i)" using k len sp by (auto simp: nth_list_update split: if_splits)
      moreover have "y \<noteq> x" using i yi dist slot_disjoint [OF so i(1) k(1) yi] k len by (auto simp: nth_list_update split: if_splits)
      ultimately show "\<exists>u. info (nodes w') y = Some u \<and> time_slot u = int i \<and> 0 \<le> rotation u \<and> cb_func u \<noteq> None"
        using slot_okD [OF so i(1)] by (simp add: ul(2))
    next
      fix y assume y: "info (nodes w') y \<noteq> None"
      then obtain u where "info (nodes w) y = Some u" "y \<noteq> x" by (auto simp: ul(2) split: if_splits)
      then obtain i where i: "i < 60" "y \<in> set (ss ! i)" using slot_okE [OF so] by blast
      have "y \<in> set (ss[k := qs @ ys] ! i)" using i \<open>y \<noteq> x\<close> k sp len by (auto simp: nth_list_update)
      then show "\<exists>i < 60. y \<in> set (ss[k := qs @ ys] ! i)" using i(1) by blast
    qed
    moreover have "links (nodes w') y = links (nodes w) y" if "i < 60" "i \<noteq> k" "y \<in> set (ss ! i)" for i y
    proof -
      have "y \<notin> set (qs @ x # ys)" using slot_disjoint [OF so that(1) k(1) that(3)] that(2) sp by auto
      then show ?thesis using ul(3) by (simp add: links_def)
    qed
    ultimately have "wheel_rep w' (ss[k := qs @ ys])"
      using w' k c(2) ul(1) rep by (intro rep_change [OF rep k(1)]) (simp_all add: wheel_rep_def)
    then show "wheel_inv w' \<and> agenda w' = (agenda w)(x := None)"
      using w' by (auto simp: wheel_inv_def agenda_info ul(2))
  qed
qed

definition passed :: "(ptr \<rightharpoonup> int \<times> nat \<times> ptr) \<Rightarrow> ptr \<rightharpoonup> int \<times> nat \<times> ptr" where
  "passed ag = (\<lambda>x. case ag x of Some (r, c) \<Rightarrow> if r = 0 then None else Some (r - 1, c) | None \<Rightarrow> None)"

lemma mod_small: "- 60 \<le> d \<Longrightarrow> d < 60 \<Longrightarrow> d mod 60 = (if d < 0 then d + 60 else (d::int))"
  using mod_add_self2 [of d 60] mod_pos_pos_trivial [of d 60] mod_pos_pos_trivial [of "d + 60" 60] by simp

lemma entry_same: "(c - ((c::int) + 1) mod 60) mod 60 = 59"
proof -
  have "(c - (c + 1) mod 60) mod 60 = (c - (c + 1)) mod 60" by (rule mod_diff_right_eq)
  then show ?thesis by simp
qed

lemma entry_other: "0 \<le> s \<Longrightarrow> s < 60 \<Longrightarrow> 0 \<le> c \<Longrightarrow> c < 60 \<Longrightarrow> s \<noteq> c \<Longrightarrow> (s - (c + 1) mod 60) mod 60 = (s - c) mod 60 - (1::int)"
proof -
  assume a: "0 \<le> s" "s < 60" "0 \<le> c" "c < 60" "s \<noteq> c"
  have "(s - (c + 1) mod 60) mod 60 = (s - (c + 1)) mod 60" by (rule mod_diff_right_eq)
  also have "\<dots> = (s - c) mod 60 - 1" using a by (simp add: mod_small)
  finally show ?thesis .
qed

definition due :: "(ptr \<rightharpoonup> int \<times> nat \<times> ptr) \<Rightarrow> ptr list \<Rightarrow> bool" where
  "due ag ds \<longleftrightarrow> distinct ds \<and> (\<forall>x. x \<in> set ds \<longleftrightarrow> (\<exists>c. ag x = Some (0, c)))"

lemma tick_ok:
  assumes "wheel_inv w"
  shows "wp (tick w) (\<lambda>(out, w'). wheel_inv w' \<and> agenda w' = passed (agenda w) \<and>
     (\<exists>ds. due (agenda w) ds \<and> out = map (\<lambda>x. snd (the (agenda w x))) ds))"
proof -
  obtain ss where rep: "wheel_rep w ss" using assms by (auto simp: wheel_inv_def)
  define k where "k = nat (cur_slot w)"
  let ?xs = "ss ! k" and ?I = "info (nodes w)" and ?c = "cur_slot w"
  define zs where "zs = filter (live ?I) ?xs"
  have k: "k < 60" "?c = int k" using rep by (auto simp: k_def wheel_rep_def)
  have len: "length (slots w) = 60" "length ss = 60" and so: "slot_ok ?I ss"
    and c: "chain (nodes w) NULL ?xs NULL" "distinct ?xs" "slots w ! k = first ?xs NULL"
    using rep k(1) by (simp_all add: wheel_rep_def)
  have get: "aget (slots w) ?c = Some (first ?xs NULL)" using k len c(3) by simp
  have "wp (tick_loop (first ?xs NULL) w) (loop_post [] ?xs w)"
    using c get slot_nodes(2) [OF rep k(1)] by (intro wheel_tick_loop_ok) fastforce+
  then obtain out w1 where w1: "tick_loop (first ?xs NULL) w = Some (out, w1)" "cur_slot w1 = ?c" "slots w1 = (slots w)[k := first zs NULL]"
    "chain (nodes w1) NULL zs NULL" "info (nodes w1) = turned ?I ?xs" "\<forall>y. y \<notin> set ?xs \<longrightarrow> nodes w1 y = nodes w y"
    "out = map (call_of ?I) (filter (\<lambda>y. \<not> live ?I y) ?xs)"
    by (auto simp: loop_post_def Let_def zs_def k_def elim!: wpE)
  define w' where "w' = w1\<lparr>cur_slot := (?c + 1) mod 60\<rparr>"
  have w'_simps: "nodes w' = nodes w1" "slots w' = (slots w)[k := first zs NULL]" "cur_slot w' = (?c + 1) mod 60"
    using w1(3) by (simp_all add: w'_def)
  have eq: "tick w = Some (out, w')" using get w1(1,2) by (simp add: tick_def w'_def N_def)
  have outside: "?I x = None \<or> time_slot (the (?I x)) \<noteq> ?c" if "x \<notin> set ?xs" for x
    using slot_okE [OF so, of x] slot_okD [OF so, of _ x] k that by fastforce
  have "slot_ok (turned ?I ?xs) (ss[k := zs])"
    unfolding slot_ok_def
  proof (intro conjI allI ballI impI)
    fix i y assume i: "i < (60::nat)" "y \<in> set (ss[k := zs] ! i)"
    then have yi: "y \<in> set (ss ! i)" using k(1) len by (auto simp: zs_def nth_list_update split: if_splits)
    then obtain t where t: "?I y = Some t" "time_slot t = int i" "0 \<le> rotation t" "cb_func t \<noteq> None" using slot_okD [OF so i(1)] by blast
    show "\<exists>u. turned ?I ?xs y = Some u \<and> time_slot u = int i \<and> 0 \<le> rotation u \<and> cb_func u \<noteq> None"
    proof (cases "i = k")
      case True
      then have "y \<in> set ?xs" "live ?I y" using i len by (auto simp: zs_def)
      then show ?thesis using t by (auto simp: turned_def live_def)
    next
      case False
      then have "y \<notin> set ?xs" using slot_disjoint [OF so i(1) k(1) yi] by blast
      then show ?thesis using t by (simp add: turned_def)
    qed
  next
    fix y assume "turned ?I ?xs y \<noteq> None"
    then have y: "?I y \<noteq> None" "y \<in> set ?xs \<longrightarrow> live ?I y" by (auto simp: turned_def split: if_splits)
    then obtain i where i: "i < 60" "y \<in> set (ss ! i)" using slot_okE [OF so] by blast
    then have "y \<in> set (ss[k := zs] ! i)" using y(2) k(1) len by (auto simp: zs_def nth_list_update)
    then show "\<exists>i < 60. y \<in> set (ss[k := zs] ! i)" using i(1) by blast
  qed
  moreover have "links (nodes w') y = links (nodes w) y" if "i < 60" "i \<noteq> k" "y \<in> set (ss ! i)" for i y
  proof -
    have "y \<notin> set ?xs" using slot_disjoint [OF so that(1) k(1) that(3)] that(2) by auto
    then show ?thesis using w1(6) by (simp add: links_def w'_simps)
  qed
  ultimately have "wheel_rep w' (ss[k := zs])"
    using w1(4,5) c(2) by (intro rep_change [OF rep k(1)]) (simp_all add: w'_simps zs_def)
  then have inv: "wheel_inv w'" by (auto simp: wheel_inv_def)
  have slotr: "0 \<le> time_slot t \<and> time_slot t < 60 \<and> 0 \<le> rotation t" if "?I x = Some t" for x t
    using slot_okE [OF so that] slot_okD [OF so] that by fastforce
  have cr: "0 \<le> ?c" "?c < 60" using k by simp_all
  have ag: "agenda w' x = passed (agenda w) x" for x
  proof (cases "?I x")
    case None
    then show ?thesis by (simp add: agenda_info passed_def w'_simps w1(5) turned_def)
  next
    case (Some t)
    note r = slotr [OF Some]
    show ?thesis
    proof (cases "x \<in> set ?xs")
      case True
      then have ts: "time_slot t = ?c" using slot_okD [OF so k(1) True] Some k by auto
      then show ?thesis using True Some r by (auto simp: agenda_info passed_def w'_simps w1(5) turned_def live_def entry_def entry_same)
    next
      case False
      then have ts: "time_slot t \<noteq> ?c" using outside [OF False] Some by simp
      have "0 < (time_slot t - ?c) mod 60" using r cr ts by (simp add: mod_small)
      then have "rotation t * 60 + (time_slot t - ?c) mod 60 \<noteq> 0" using r by linarith
      then show ?thesis using False Some entry_other [OF _ _ cr ts] r by (simp add: agenda_info passed_def w'_simps w1(5) turned_def entry_def)
    qed
  qed
  have "due (agenda w) (filter (\<lambda>y. \<not> live ?I y) ?xs)"
    unfolding due_def
  proof (intro conjI allI)
    fix x
    show "x \<in> set (filter (\<lambda>y. \<not> live ?I y) ?xs) \<longleftrightarrow> (\<exists>c. agenda w x = Some (0, c))"
    proof (cases "?I x")
      case None
      then show ?thesis using slot_okD [OF so k(1), of x] by (auto simp: agenda_info)
    next
      case (Some t)
      note r = slotr [OF Some]
      show ?thesis
      proof (cases "x \<in> set ?xs")
        case True
        then have ts: "time_slot t = ?c" using slot_okD [OF so k(1) True] Some k by auto
        then show ?thesis using True Some r by (auto simp: agenda_info live_def entry_def)
      next
        case False
        then have ts: "time_slot t \<noteq> ?c" using outside [OF False] Some by simp
        have "0 < (time_slot t - ?c) mod 60" using r cr ts by (simp add: mod_small)
        then have "rotation t * 60 + (time_slot t - ?c) mod 60 \<noteq> 0" using r by linarith
        then show ?thesis using False Some by (simp add: agenda_info entry_def)
      qed
    qed
  qed (use c(2) in simp)
  moreover have "out = map (\<lambda>x. snd (the (agenda w x))) (filter (\<lambda>y. \<not> live ?I y) ?xs)"
    unfolding w1(7)
  proof (rule map_cong [OF refl])
    fix x assume "x \<in> set (filter (\<lambda>y. \<not> live ?I y) ?xs)"
    then obtain t where "?I x = Some t" using slot_okD [OF so k(1), of x] by auto
    then show "call_of ?I x = snd (the (agenda w x))" by (simp add: call_of_def agenda_info entry_def)
  qed
  ultimately show ?thesis using eq inv ag by auto
qed


subsection \<open>Destruction\<close>

lemma free_list_ok:
  "chain m b xs NULL \<Longrightarrow> distinct xs \<Longrightarrow> free_list (first xs NULL) m = Some (m |` (- set xs))"
proof (induction xs arbitrary: m b)
  case Nil
  then show ?case by (simp add: free_list.simps)
next
  case (Cons x xs)
  then obtain t where t: "m x = Some t" "nxt t = first xs NULL" "x \<noteq> NULL" by auto
  have "free_list (first xs NULL) (m(x := None)) = Some ((m(x := None)) |` (- set xs))"
    using Cons.prems by (intro Cons.IH [of _ x]) (simp_all add: chain_frame del: fun_upd_apply)
  moreover have "(m(x := None)) |` (- set xs) = m |` (- set (x # xs))" by (auto simp: restrict_map_def)
  ultimately show ?case using t by (subst free_list.simps) (simp add: delete_node_def)
qed

lemma free_slots_ok:
  assumes "\<forall>xs \<in> set ss. chain m NULL xs NULL \<and> distinct xs" "\<forall>i < length ss. \<forall>j < length ss. i \<noteq> j \<longrightarrow> set (ss ! i) \<inter> set (ss ! j) = {}"
  shows "free_slots (map (\<lambda>xs. first xs NULL) ss) m = Some (m |` (- (\<Union>xs \<in> set ss. set xs)))"
  using assms
proof (induction ss arbitrary: m)
  case (Cons xs ss)
  have d: "set xs \<inter> set ys = {}" if "ys \<in> set ss" for ys
    using that Cons.prems(2) by (force simp: in_set_conv_nth)
  have "\<forall>ys \<in> set ss. chain (m |` (- set xs)) NULL ys NULL \<and> distinct ys"
  proof
    fix ys assume ys: "ys \<in> set ss"
    have "chain (m |` (- set xs)) NULL ys NULL = chain m NULL ys NULL"
      using d [OF ys] by (intro dll_cong) (auto simp: links_def restrict_map_def)
    then show "chain (m |` (- set xs)) NULL ys NULL \<and> distinct ys" using Cons.prems(1) ys by simp
  qed
  moreover have "\<forall>i < length ss. \<forall>j < length ss. i \<noteq> j \<longrightarrow> set (ss ! i) \<inter> set (ss ! j) = {}"
    using Cons.prems(2) by fastforce
  ultimately have "free_slots (map (\<lambda>xs. first xs NULL) ss) (m |` (- set xs)) =
      Some (m |` (- set xs) |` (- (\<Union>xs \<in> set ss. set xs)))" by (rule Cons.IH)
  moreover have "free_list (first xs NULL) m = Some (m |` (- set xs))" using Cons.prems(1) by (intro free_list_ok) auto
  moreover have "m |` (- set xs) |` (- (\<Union>xs \<in> set ss. set xs)) = m |` (- (\<Union>xs \<in> set (xs # ss). set xs))"
    by (auto simp: restrict_map_def)
  ultimately show ?case by simp
qed (simp add: restrict_map_def)

lemma destroy_ok:
  assumes "wheel_inv w"
  shows "time_wheel_destroy w = Some Map.empty"
proof -
  obtain ss where rep: "wheel_rep w ss" using assms by (auto simp: wheel_inv_def)
  have so: "slot_ok (info (nodes w)) ss" "length ss = 60" using rep by (simp_all add: wheel_rep_def)
  have "slots w = map (\<lambda>xs. first xs NULL) ss" using rep by (auto simp: wheel_rep_def intro!: nth_equalityI)
  moreover have "free_slots (map (\<lambda>xs. first xs NULL) ss) (nodes w) = Some (nodes w |` (- (\<Union>xs \<in> set ss. set xs)))"
  proof (rule free_slots_ok)
    show "\<forall>xs \<in> set ss. chain (nodes w) NULL xs NULL \<and> distinct xs"
      using rep by (auto simp: wheel_rep_def in_set_conv_nth)
    show "\<forall>i < length ss. \<forall>j < length ss. i \<noteq> j \<longrightarrow> set (ss ! i) \<inter> set (ss ! j) = {}"
      using slot_disjoint [OF so(1)] so(2) by auto
  qed
  moreover have "nodes w |` (- (\<Union>xs \<in> set ss. set xs)) = Map.empty"
  proof
    fix x show "(nodes w |` (- (\<Union>xs \<in> set ss. set xs))) x = None"
      using node_slot [OF rep, of x] so(2) by (cases "nodes w x") (auto simp: restrict_map_def)
  qed
  ultimately show ?thesis by (simp add: time_wheel_destroy_def)
qed

subsection \<open>Runs of the wheel\<close>

datatype wheel_op = Add int nat ptr ptr | Del ptr | Tick

fun wheel_run :: "wheel_op list \<Rightarrow> time_wheel \<Rightarrow> ((nat \<times> ptr) list list \<times> time_wheel) option" where
  "wheel_run [] w = Some ([], w)"
| "wheel_run (Add t f d a # ops) w = do { (_, w) \<leftarrow> add_timer t (Some f) d a w; wheel_run ops w }"
| "wheel_run (Del x # ops) w = do { w \<leftarrow> del_timer x w; wheel_run ops w }"
| "wheel_run (Tick # ops) w = do { (out, w) \<leftarrow> tick w; (outs, w) \<leftarrow> wheel_run ops w; Some (out # outs, w) }"

text \<open>The agenda after an operation, whether a run uses the wheel properly, and the agendas at its ticks.\<close>

fun agenda_op :: "wheel_op \<Rightarrow> (ptr \<rightharpoonup> int \<times> nat \<times> ptr) \<Rightarrow> (ptr \<rightharpoonup> int \<times> nat \<times> ptr)" where
  "agenda_op (Add t f d a) ag = ag(a \<mapsto> (max 1 t, f, d))"
| "agenda_op (Del x) ag = ag(x := None)"
| "agenda_op Tick ag = passed ag"

fun proper :: "wheel_op list \<Rightarrow> (ptr \<rightharpoonup> int \<times> nat \<times> ptr) \<Rightarrow> bool" where
  "proper [] ag = True"
| "proper (Add t f d a # ops) ag = (0 \<le> t \<and> a \<noteq> NULL \<and> ag a = None \<and> proper ops (agenda_op (Add t f d a) ag))"
| "proper (Del x # ops) ag = (ag x \<noteq> None \<and> proper ops (agenda_op (Del x) ag))"
| "proper (Tick # ops) ag = proper ops (agenda_op Tick ag)"

fun at_ticks :: "wheel_op list \<Rightarrow> (ptr \<rightharpoonup> int \<times> nat \<times> ptr) \<Rightarrow> (ptr \<rightharpoonup> int \<times> nat \<times> ptr) list" where
  "at_ticks [] ag = []"
| "at_ticks (c # ops) ag = (if c = Tick then [ag] else []) @ at_ticks ops (agenda_op c ag)"

definition serves :: "(nat \<times> ptr) list \<Rightarrow> (ptr \<rightharpoonup> int \<times> nat \<times> ptr) \<Rightarrow> bool" where
  "serves out ag \<longleftrightarrow> (\<exists>ds. due ag ds \<and> out = map (\<lambda>x. snd (the (ag x))) ds)"

lemma agenda_None: "agenda w x = None \<longleftrightarrow> nodes w x = None"
  by (simp add: agenda_def)

lemma run_ok:
  assumes "wheel_inv w" "proper ops (agenda w)"
  shows "wp (wheel_run ops w) (\<lambda>(outs, w'). wheel_inv w' \<and> agenda w' = fold agenda_op ops (agenda w) \<and> list_all2 serves outs (at_ticks ops (agenda w)))"
  using assms
proof (induction ops arbitrary: w)
  case (Cons c ops)
  show ?case
  proof (cases c)
    case (Add t f d a)
    then obtain w1 where w1: "add_timer t (Some f) d a w = Some (a, w1)" "wheel_inv w1" "agenda w1 = agenda_op c (agenda w)"
      using add_timer_ok [of w a t f d] Cons.prems by (auto simp: agenda_None elim!: wpE)
    then show ?thesis using Cons.IH [OF w1(2), unfolded w1(3)] Cons.prems(2) Add by (simp del: fun_upd_apply)
  next
    case (Del x)
    then obtain t where "nodes w x = Some t" using Cons.prems(2) by (auto simp: agenda_def)
    then obtain w1 where w1: "del_timer x w = Some w1" "wheel_inv w1" "agenda w1 = agenda_op c (agenda w)"
      using del_ok [of w x t] Cons.prems(1) Del by (auto elim!: wpE)
    then show ?thesis using Cons.IH [OF w1(2), unfolded w1(3)] Cons.prems(2) Del by (simp del: fun_upd_apply)
  next
    case Tick
    obtain out w1 where w1: "tick w = Some (out, w1)" "wheel_inv w1" "agenda w1 = agenda_op c (agenda w)" "serves out (agenda w)"
      using tick_ok [OF Cons.prems(1)] Tick by (auto simp: serves_def elim!: wpE)
    then show ?thesis using Cons.IH [OF w1(2), unfolded w1(3)] Cons.prems(2) Tick by (auto simp: wp_bind elim!: wp_mono)
  qed
qed simp

text \<open>C23. Over any run of additions, cancellations and ticks, a time wheel behaves as an agenda: a timer
with timeout t waits max(1, t) ticks, every tick takes one off, and the tick that finds none left makes
the call of the timer, once, and frees it. Every read and write is of a timer that exists, and at the
end the destructor frees every timer that is left.\<close>

theorem wheel_refines_agenda:
  assumes "proper ops Map.empty"
  shows "wp (wheel_run ops (time_wheel_new Map.empty)) (\<lambda>(outs, w). agenda w = fold agenda_op ops Map.empty \<and>
      list_all2 serves outs (at_ticks ops Map.empty) \<and> time_wheel_destroy w = Some Map.empty)"
  using run_ok [of "time_wheel_new Map.empty" ops] new_ok assms by (auto simp: destroy_ok elim!: wp_mono)

lemma wheel_refines_agenda_witness:
  "wp (wheel_run [Add 1 7 11 5, Add 60 8 12 6, Tick, Add 1 9 13 4, Del 6, Tick, Tick] (time_wheel_new Map.empty))
    (\<lambda>(outs, w). agenda w = fold agenda_op [Add 1 7 11 5, Add 60 8 12 6, Tick, Add 1 9 13 4, Del 6, Tick, Tick] Map.empty \<and>
      list_all2 serves outs (at_ticks [Add 1 7 11 5, Add 60 8 12 6, Tick, Add 1 9 13 4, Del 6, Tick, Tick] Map.empty) \<and>
      time_wheel_destroy w = Some Map.empty)"
  by (rule wheel_refines_agenda) (simp add: passed_def)



end
