(* ===== verification/Radix_Tree.thy ===== *)
theory Radix_Tree
  imports Prelude
begin

unbundle bit_operations_syntax

text \<open>
  \<open>src/tree/radix-tree/radix-tree.c\<close>: a map from \<open>unsigned\<close> indices to pointers as a tree of nodes
  with eight slots. \<open>nodes\<close> is the memory that holds the nodes and \<open>avail\<close> what \<open>calloc\<close> will return
  (\<open>NULL\<close>, or nothing left, is a failure). A read outside a node or an array is \<open>None\<close>. The messages
  printed are left out.
\<close>

subsection \<open>Data\<close>

abbreviation (input) RADIX_TREE_MAP_SHIFT :: nat where "RADIX_TREE_MAP_SHIFT \<equiv> 3"
abbreviation (input) RADIX_TREE_MAP_SIZE :: nat where "RADIX_TREE_MAP_SIZE \<equiv> 8"
abbreviation (input) RADIX_TREE_MAP_MASK :: u32 where "RADIX_TREE_MAP_MASK \<equiv> 7"
abbreviation (input) RADIX_TREE_INDEX_BITS :: nat where "RADIX_TREE_INDEX_BITS \<equiv> 32"
abbreviation (input) RADIX_TREE_MAX_PATH :: nat where "RADIX_TREE_MAX_PATH \<equiv> 4"

record radix_tree_node =
  count :: u32
  slots :: "ptr list"

record radix_tree_head =
  height :: nat
  rnode :: ptr
  height_to_maxindex :: "u32 list"
  nodes :: "ptr \<rightharpoonup> radix_tree_node"
  avail :: "ptr list"

text \<open>A \<open>radix_tree_node **\<close>: the root pointer of the head or a slot of a node.\<close>

datatype slot_addr = Root | Slot ptr nat

fun read_slot :: "slot_addr \<Rightarrow> radix_tree_head \<Rightarrow> ptr option" where
  "read_slot Root h = Some (rnode h)"
| "read_slot (Slot p i) h = do { xs \<leftarrow> load (nodes h) p slots; if i < length xs then Some (xs ! i) else None }"

fun write_slot :: "slot_addr \<Rightarrow> ptr \<Rightarrow> radix_tree_head \<Rightarrow> radix_tree_head option" where
  "write_slot Root v h = Some (h\<lparr>rnode := v\<rparr>)"
| "write_slot (Slot p i) v h = do {
     xs \<leftarrow> load (nodes h) p slots;
     if i < length xs then do { m \<leftarrow> store (nodes h) p (slots_update (\<lambda>xs. xs[i := v])); Some (h\<lparr>nodes := m\<rparr>) } else None
   }"

definition count_up :: "ptr \<Rightarrow> radix_tree_head \<Rightarrow> radix_tree_head option" where
  "count_up node h = (if node = NULL then Some h
     else do { m \<leftarrow> store (nodes h) node (count_update (\<lambda>c. c + 1)); Some (h\<lparr>nodes := m\<rparr>) })"

subsection \<open>Operations\<close>

definition radix_tree_node_alloc :: "radix_tree_head \<Rightarrow> ptr \<times> radix_tree_head" where
  "radix_tree_node_alloc h = (case avail h of [] \<Rightarrow> (NULL, h)
     | a # as \<Rightarrow> (a, h\<lparr>avail := as, nodes := (if a = NULL then nodes h else (nodes h)(a \<mapsto> \<lparr>count = 0, slots = replicate RADIX_TREE_MAP_SIZE NULL\<rparr>))\<rparr>))"

definition radix_tree_maxindex :: "radix_tree_head \<Rightarrow> u32 option" where
  "radix_tree_maxindex h = (if height h < length (height_to_maxindex h) then Some (height_to_maxindex h ! height h) else None)"

definition maxindex_of :: "nat \<Rightarrow> u32" where
  "maxindex_of ht = (let tmp = ht * RADIX_TREE_MAP_SHIFT in
     if tmp \<ge> RADIX_TREE_INDEX_BITS then NOT 0 else drop_bit 1 (drop_bit (RADIX_TREE_INDEX_BITS - tmp - 1) (NOT 0)))"

definition radix_tree_init_maxindex :: "radix_tree_head \<Rightarrow> radix_tree_head" where
  "radix_tree_init_maxindex h = h\<lparr>height_to_maxindex := map maxindex_of [0..<RADIX_TREE_MAX_PATH]\<rparr>"

text \<open>The first loop of \<open>radix_tree_extend\<close>; \<open>ms\<close> is \<open>height_to_maxindex\<close>.\<close>

function extend_height :: "u32 list \<Rightarrow> u32 \<Rightarrow> nat \<Rightarrow> nat option" where
  "extend_height ms index ht =
     (if ht < length ms then if index > ms ! ht then extend_height ms index (ht + 1) else Some ht else None)"
  by pat_completeness auto
termination
  by (relation "measure (\<lambda>(ms, index, ht). length ms - ht)") auto

declare extend_height.simps [simp del]

function extend_grow :: "nat \<Rightarrow> radix_tree_head \<Rightarrow> (int \<times> radix_tree_head) option" where
  "extend_grow ht h =
     (case radix_tree_node_alloc h of (node, h) \<Rightarrow>
       if node = NULL then Some (1, h)
       else do {
         h \<leftarrow> write_slot (Slot node 0) (rnode h) h;
         m \<leftarrow> store (nodes h) node (count_update (\<lambda>_. 1));
         h \<leftarrow> Some (h\<lparr>nodes := m, rnode := node, height := height h + 1\<rparr>);
         if ht > height h then extend_grow ht h else Some (0, h)
       })"
  by pat_completeness auto
termination
  by (relation "measure (\<lambda>(ht, h). ht - height h)")
    (auto simp: Option.bind_eq_Some_conv radix_tree_node_alloc_def split: list.splits if_splits)

declare extend_grow.simps [simp del]

definition radix_tree_extend :: "u32 \<Rightarrow> radix_tree_head \<Rightarrow> (int \<times> radix_tree_head) option" where
  "radix_tree_extend index h = do {
     ht \<leftarrow> extend_height (height_to_maxindex h) index (height h + 1);
     if rnode h \<noteq> NULL then extend_grow ht h else Some (0, h\<lparr>height := ht\<rparr>)
   }"

definition slot_no :: "u32 \<Rightarrow> nat \<Rightarrow> nat" where
  "slot_no index shift = unat (drop_bit shift index AND RADIX_TREE_MAP_MASK)"

text \<open>The loop of \<open>radix_tree_insert\<close>; at height \<open>Suc k\<close> the shift is \<open>3 * k\<close>. \<open>None\<close> in the result
  is the return of 1 when there is no memory.\<close>

fun insert_loop :: "nat \<Rightarrow> u32 \<Rightarrow> slot_addr \<Rightarrow> ptr \<Rightarrow> radix_tree_head \<Rightarrow> ((slot_addr \<times> ptr) option \<times> radix_tree_head) option" where
  "insert_loop 0 index slot node h = Some (Some (slot, node), h)"
| "insert_loop (Suc k) index slot node h = do {
     v \<leftarrow> read_slot slot h;
     if v = NULL then
       case radix_tree_node_alloc h of (tmp, h) \<Rightarrow>
         if tmp = NULL then Some (None, h)
         else do {
           h \<leftarrow> write_slot slot tmp h;
           h \<leftarrow> count_up node h;
           insert_loop k index (Slot tmp (slot_no index (k * RADIX_TREE_MAP_SHIFT))) tmp h
         }
     else insert_loop k index (Slot v (slot_no index (k * RADIX_TREE_MAP_SHIFT))) v h
   }"

definition insert_item :: "ptr \<Rightarrow> (slot_addr \<times> ptr) option \<times> radix_tree_head \<Rightarrow> (int \<times> radix_tree_head) option" where
  "insert_item item = (\<lambda>(r, h). case r of None \<Rightarrow> Some (1, h)
     | Some (slot, node) \<Rightarrow> do {
         v \<leftarrow> read_slot slot h;
         if v \<noteq> NULL then Some (1, h)
         else do { h \<leftarrow> count_up node h; h \<leftarrow> write_slot slot item h; Some (0, h) }
       })"

definition radix_tree_insert :: "u32 \<Rightarrow> ptr \<Rightarrow> radix_tree_head \<Rightarrow> (int \<times> radix_tree_head) option" where
  "radix_tree_insert index item h = do {
     mx \<leftarrow> radix_tree_maxindex h;
     (error, h) \<leftarrow> (if index > mx \<or> mx = 0 then radix_tree_extend index h else Some (0, h));
     if error \<noteq> 0 then Some (error, h)
     else do { r \<leftarrow> insert_loop (height h) index Root NULL h; insert_item item r }
   }"

fun lookup_loop :: "nat \<Rightarrow> u32 \<Rightarrow> slot_addr \<Rightarrow> radix_tree_head \<Rightarrow> ptr option" where
  "lookup_loop 0 index slot h = read_slot slot h"
| "lookup_loop (Suc k) index slot h = do {
     v \<leftarrow> read_slot slot h;
     if v = NULL then Some NULL else lookup_loop k index (Slot v (slot_no index (k * RADIX_TREE_MAP_SHIFT))) h
   }"

definition radix_tree_lookup :: "u32 \<Rightarrow> radix_tree_head \<Rightarrow> ptr option" where
  "radix_tree_lookup index h = do {
     mx \<leftarrow> radix_tree_maxindex h;
     if index > mx then Some NULL else lookup_loop (height h) index Root h
   }"

text \<open>\<open>__lookup\<close>: the scan of a leaf from slot \<open>j\<close> on, then the way down to it. \<open>room\<close> is \<open>max_items\<close>.\<close>

fun scan_leaf :: "ptr list \<Rightarrow> u32 \<Rightarrow> nat \<Rightarrow> ptr list \<times> u32" where
  "scan_leaf [] index room = ([], index)"
| "scan_leaf (x # xs) index room =
     (if x \<noteq> NULL then
        if room = 1 then ([x], 0)
        else (case scan_leaf xs (index + 1) (room - 1) of (out, next_index) \<Rightarrow> (x # out, next_index))
      else scan_leaf xs (index + 1) room)"

fun lookup_leaf :: "nat \<Rightarrow> u32 \<Rightarrow> ptr \<Rightarrow> nat \<Rightarrow> radix_tree_head \<Rightarrow> (ptr list \<times> u32) option" where
  "lookup_leaf 0 index slot room h = Some ([], index)"
| "lookup_leaf (Suc k) index slot room h = do {
     xs \<leftarrow> load (nodes h) slot slots;
     if k = 0 then Some (scan_leaf (drop (slot_no index 0) xs) index room)
     else do { v \<leftarrow> read_slot (Slot slot (slot_no index (k * RADIX_TREE_MAP_SHIFT))) h; lookup_leaf k index v room h }
   }"

partial_function (option) gang_loop :: "u32 \<Rightarrow> u32 \<Rightarrow> nat \<Rightarrow> radix_tree_head \<Rightarrow> ptr list option" where
  "gang_loop max_index cur_index room h =
     (if room = 0 then Some []
      else if cur_index > max_index then Some []
      else do {
        (out, next_index) \<leftarrow> lookup_leaf (height h) cur_index (rnode h) room h;
        if next_index = 0 then Some out
        else do { rest \<leftarrow> gang_loop max_index next_index (room - length out) h; Some (out @ rest) }
      })"

declare gang_loop.simps [code]

definition radix_tree_gang_lookup :: "u32 \<Rightarrow> nat \<Rightarrow> radix_tree_head \<Rightarrow> ptr list option" where
  "radix_tree_gang_lookup first_index max_items h = do {
     mx \<leftarrow> radix_tree_maxindex h;
     if rnode h = NULL \<or> mx = 0 then Some [] else gang_loop mx first_index max_items h
   }"

text \<open>
  \<open>radix_tree_delete\<close> for 8-byte pointers. The loop never reads a slot: it takes the address of the
  head's \<open>rnode\<close> field for a node, the address of a slot of that for the next node, and so on, so
  all it visits lies at and after that field. \<open>path_offset\<close> is the distance from the field to the
  last "node". The 32-bit counter at that address is then decremented: at offset 0 it is the low half
  of the root pointer, from offset 8 on an entry of \<open>height_to_maxindex\<close>, and from offset 24 on memory
  after the head. Should the counter reach 0, memory that was never allocated is freed. \<open>hp\<close> is the
  address of the head, whose \<open>rnode\<close> field has offset 8.
\<close>

fun path_offset :: "nat \<Rightarrow> u32 \<Rightarrow> nat" where
  "path_offset 0 index = 0"
| "path_offset (Suc k) index = (if k = 0 then 0 else 8 + 8 * slot_no index (k * RADIX_TREE_MAP_SHIFT) + path_offset k index)"

definition dec_low :: "ptr \<Rightarrow> ptr" where
  "dec_low p = p div 2 ^ 32 * 2 ^ 32 + (p mod 2 ^ 32 + (2 ^ 32 - 1)) mod 2 ^ 32"

definition radix_tree_delete :: "ptr \<Rightarrow> u32 \<Rightarrow> radix_tree_head \<Rightarrow> (ptr \<times> radix_tree_head) option" where
  "radix_tree_delete hp index h = do {
     mx \<leftarrow> radix_tree_maxindex h;
     if index > mx then Some (NULL, h)
     else if height h = 0 then Some (hp + 8, if rnode h = NULL then h\<lparr>height := 0\<rparr> else h)
     else do {
       off \<leftarrow> Some (path_offset (height h) index);
       ret \<leftarrow> Some (hp + 8 + off + 8 + 8 * slot_no index 0);
       if off = 0 then
         if dec_low (rnode h) mod 2 ^ 32 = 0 then None
         else Some (ret, let h = h\<lparr>rnode := dec_low (rnode h)\<rparr> in if rnode h = NULL then h\<lparr>height := 0\<rparr> else h)
       else do {
         i \<leftarrow> Some ((off - 8) div 4);
         if i < length (height_to_maxindex h) then do {
           c \<leftarrow> Some (height_to_maxindex h ! i - 1);
           if c = 0 then None
           else Some (ret, let h = h\<lparr>height_to_maxindex := (height_to_maxindex h)[i := c]\<rparr> in if rnode h = NULL then h\<lparr>height := 0\<rparr> else h)
         } else None
       }
     }
   }"

text \<open>\<open>calloc\<close> of the head: \<open>None\<close> is the \<open>NULL\<close> it may return.\<close>

definition radix_tree_head_new :: "bool \<Rightarrow> ptr list \<Rightarrow> radix_tree_head option" where
  "radix_tree_head_new ok as = (if ok then
     Some \<lparr>height = 0, rnode = NULL, height_to_maxindex = replicate RADIX_TREE_MAX_PATH 0, nodes = Map.empty, avail = as\<rparr> else None)"

definition radix_tree_initial :: "radix_tree_head \<Rightarrow> radix_tree_head" where
  "radix_tree_initial h = radix_tree_init_maxindex h"

definition radix_tree_destroy :: "radix_tree_head \<Rightarrow> int \<times> radix_tree_head" where
  "radix_tree_destroy h = (0, h)"

end
