(* ===== verification/Radix_Correct.thy ===== *)
theory Radix_Correct
  imports Radix_Tree
begin

unbundle bit_operations_syntax

text \<open>
  The radix tree as a map: \<open>content\<close> reads the map off the nodes, \<open>radix_ok\<close> says that the nodes form
  a tree of the head's height, and insertion and both lookups are described on \<open>content\<close>.
\<close>

subsection \<open>Digits of an index\<close>

lemma slot_no_eq: "slot_no index (k * 3) = unat index div 8 ^ k mod 8"
proof -
  have "w AND 7 = take_bit 3 w" for w :: u32
    by (simp add: take_bit_eq_mask mask_eq_exp_minus_1)
  then have "slot_no index (k * 3) = unat (take_bit 3 (drop_bit (k * 3) index))" by (simp add: slot_no_def)
  also have "\<dots> = unat index div 2 ^ (k * 3) mod 8"
    by (simp only: unsigned_take_bit_eq unat_drop_bit_eq) (simp add: take_bit_eq_mod drop_bit_eq_div)
  also have "(2::nat) ^ (k * 3) = 8 ^ k" by (simp add: power_mult mult.commute [of k])
  finally show ?thesis .
qed

lemma slot_no_less [simp]: "slot_no index (k * 3) < 8"
  by (simp add: slot_no_eq)

lemma slot_no_0: "slot_no index 0 = unat index mod 8"
  using slot_no_eq [of index 0] by simp

definition low :: "nat \<Rightarrow> u32 \<Rightarrow> nat" where
  "low k i = unat i mod 8 ^ k"

lemma low_Suc: "low (Suc k) i = low (Suc k) j \<longleftrightarrow> slot_no i (k * 3) = slot_no j (k * 3) \<and> low k i = low k j"
proof -
  have "n mod 8 ^ Suc k = n mod 8 ^ k + 8 ^ k * (n div 8 ^ k mod 8)" for n :: nat
    by (metis mod_mult2_eq mult.commute power_Suc add.commute)
  then have e: "low (Suc k) i = low k i + 8 ^ k * slot_no i (k * 3)" for i by (simp only: low_def slot_no_eq)
  have "low k i < 8 ^ k" "low k j < 8 ^ k" by (simp_all add: low_def)
  then have "low k i = low k j" if "low k i + 8 ^ k * a = low k j + 8 ^ k * b" for a b
    using arg_cong [OF that, of "\<lambda>x. x mod 8 ^ k"] by simp
  then show ?thesis unfolding e by (metis add_left_cancel mult_left_cancel power_not_zero zero_neq_numeral)
qed

subsection \<open>Trees\<close>

abbreviation child :: "(ptr \<rightharpoonup> radix_tree_node) \<Rightarrow> ptr \<Rightarrow> nat \<Rightarrow> ptr" where
  "child m p i \<equiv> slots (the (m p)) ! i"

text \<open>The addresses of the nodes of a tree, the tree being well formed, and the item at an index.\<close>

fun foot :: "(ptr \<rightharpoonup> radix_tree_node) \<Rightarrow> nat \<Rightarrow> ptr \<Rightarrow> ptr set" where
  "foot m 0 p = {}"
| "foot m (Suc k) p = (if p = NULL then {} else insert p (\<Union>i<8. foot m k (child m p i)))"

fun trie :: "(ptr \<rightharpoonup> radix_tree_node) \<Rightarrow> nat \<Rightarrow> ptr \<Rightarrow> bool" where
  "trie m 0 p = True"
| "trie m (Suc k) p = (p = NULL \<or> ((\<exists>n. m p = Some n \<and> length (slots n) = 8) \<and>
     (\<forall>i<8. trie m k (child m p i) \<and> p \<notin> foot m k (child m p i)) \<and>
     (\<forall>i<8. \<forall>j<8. i \<noteq> j \<longrightarrow> foot m k (child m p i) \<inter> foot m k (child m p j) = {})))"

fun item_at :: "(ptr \<rightharpoonup> radix_tree_node) \<Rightarrow> nat \<Rightarrow> ptr \<Rightarrow> u32 \<Rightarrow> ptr" where
  "item_at m 0 p index = p"
| "item_at m (Suc k) p index = (if p = NULL then NULL else item_at m k (child m p (slot_no index (k * 3))) index)"

lemma foot_dom: "trie m k p \<Longrightarrow> foot m k p \<subseteq> dom m"
proof (induction k arbitrary: p)
  case (Suc k)
  then show ?case by auto
qed simp

lemma trie_frame: "\<forall>a \<in> foot m k p. m' a = m a \<Longrightarrow>
    foot m' k p = foot m k p \<and> trie m' k p = trie m k p \<and> item_at m' k p = item_at m k p"
proof (induction k arbitrary: p)
  case (Suc k)
  show ?case
  proof (cases "p = NULL")
    case False
    then have p: "m' p = m p" using Suc.prems by simp
    have ih: "foot m' k (child m p i) = foot m k (child m p i)" "trie m' k (child m p i) = trie m k (child m p i)"
      "item_at m' k (child m p i) = item_at m k (child m p i)" if "i < 8" for i
    proof -
      have "\<forall>a \<in> foot m k (child m p i). m' a = m a" using Suc.prems False that by auto
      from Suc.IH [OF this] show "foot m' k (child m p i) = foot m k (child m p i)" "trie m' k (child m p i) = trie m k (child m p i)"
        "item_at m' k (child m p i) = item_at m k (child m p i)" by simp_all
    qed
    have "item_at m' (Suc k) p index = item_at m (Suc k) p index" for index
      using ih(3) [of "slot_no index (k * 3)"] p by simp
    moreover have "foot m' (Suc k) p = foot m (Suc k) p" using False p ih(1) by auto
    moreover have "trie m' (Suc k) p = trie m (Suc k) p" using False p ih by simp
    ultimately show ?thesis by blast
  next
    case True
    then show ?thesis by (auto simp: fun_eq_iff)
  qed
qed auto

lemma item_low: "low k i = low k j \<Longrightarrow> item_at m k p i = item_at m k p j"
  by (induction k arbitrary: p) (auto simp: low_Suc)

lemma trie_NULL [simp]: "trie m k NULL" "foot m k NULL = {}" "item_at m k NULL i = NULL"
  by (cases k; simp)+


subsection \<open>Insertion into a slot\<close>

definition avail_ok :: "radix_tree_head \<Rightarrow> bool" where
  "avail_ok h \<longleftrightarrow> distinct (filter (\<lambda>a. a \<noteq> NULL) (avail h)) \<and> (\<forall>a \<in> set (avail h). nodes h a = None) \<and> nodes h NULL = None"

text \<open>The slot \<open>s\<close> of a tree of height \<open>k\<close> changed from \<open>v\<close> to \<open>v'\<close> and nothing outside that subtree.\<close>

definition put :: "nat \<Rightarrow> slot_addr \<Rightarrow> ptr \<Rightarrow> ptr \<Rightarrow> radix_tree_head \<Rightarrow> radix_tree_head \<Rightarrow> bool" where
  "put k s v v' h h' \<longleftrightarrow> height h' = height h \<and> height_to_maxindex h' = height_to_maxindex h \<and>
     (case s of Root \<Rightarrow> rnode h' = v' \<and> (\<forall>a. nodes h a \<noteq> None \<longrightarrow> a \<notin> foot (nodes h) k v \<longrightarrow> nodes h' a = nodes h a)
      | Slot p i \<Rightarrow> rnode h' = rnode h \<and> (\<exists>n n'. nodes h p = Some n \<and> nodes h' p = Some n' \<and> slots n' = (slots n)[i := v']) \<and>
          (\<forall>a. nodes h a \<noteq> None \<longrightarrow> a \<noteq> p \<longrightarrow> a \<notin> foot (nodes h) k v \<longrightarrow> nodes h' a = nodes h a)) \<and>
     trie (nodes h') k v' \<and> foot (nodes h') k v' \<subseteq> foot (nodes h) k v \<union> - dom (nodes h)"

definition slot_of :: "slot_addr \<Rightarrow> ptr \<Rightarrow> nat \<Rightarrow> ptr \<Rightarrow> radix_tree_head \<Rightarrow> bool" where
  "slot_of s node k v h \<longleftrightarrow> read_slot s h = Some v \<and> trie (nodes h) k v \<and>
     (case s of Root \<Rightarrow> node = NULL | Slot p i \<Rightarrow> node = p \<and> p \<noteq> NULL \<and> p \<notin> foot (nodes h) k v)"

definition inserted :: "nat \<Rightarrow> u32 \<Rightarrow> ptr \<Rightarrow> slot_addr \<Rightarrow> ptr \<Rightarrow> radix_tree_head \<Rightarrow> int \<times> radix_tree_head \<Rightarrow> bool" where
  "inserted k index item s v h = (\<lambda>(err, h'). \<exists>v'. put k s v v' h h' \<and> avail_ok h' \<and> set (avail h') \<subseteq> set (avail h) \<and>
     (if err = 0 then item_at (nodes h) k v index = NULL \<and>
        (\<forall>j. item_at (nodes h') k v' j = (if low k j = low k index then item else item_at (nodes h) k v j))
      else err = 1 \<and> item_at (nodes h') k v' = item_at (nodes h) k v \<and>
        (item_at (nodes h) k v index \<noteq> NULL \<or> NULL \<in> set (avail h) \<or> avail h' = [])))"

lemma insert_loop_0:
  assumes "slot_of s node 0 v h" "avail_ok h" "item \<noteq> NULL"
  shows "wp (insert_item item (Some (s, node), h)) (inserted 0 index item s v h)"
proof (cases "v = NULL")
  case False
  have "put 0 s v v h h" using assms(1) by (auto simp: put_def slot_of_def Option.bind_eq_Some_conv load_def split: slot_addr.splits if_splits)
  then show ?thesis using assms False by (auto simp: insert_item_def slot_of_def inserted_def intro!: exI [of _ v])
next
  case True
  show ?thesis
  proof (cases s)
    case Root
    then show ?thesis using assms True by (auto simp: insert_item_def slot_of_def inserted_def count_up_def put_def avail_ok_def low_def)
  next
    case (Slot p i)
    then obtain n where n: "nodes h p = Some n" "i < length (slots n)" "slots n ! i = v" "node = p" "p \<noteq> NULL"
      using assms(1) by (auto simp: slot_of_def Option.bind_eq_Some_conv load_def split: if_splits)
    then show ?thesis using assms True Slot
      by (auto simp: insert_item_def slot_of_def inserted_def count_up_def put_def avail_ok_def low_def)
  qed
qed

lemma put_node:
  assumes "trie (nodes h) (Suc k) v" "v \<noteq> NULL" "i < 8" "put k (Slot v i) c c' h h'" "c = child (nodes h) v i"
  shows "trie (nodes h') (Suc k) v" "foot (nodes h') (Suc k) v \<subseteq> foot (nodes h) (Suc k) v \<union> - dom (nodes h)"
    and "child (nodes h') v i = c'" "j < 8 \<Longrightarrow> j \<noteq> i \<Longrightarrow> item_at (nodes h') k (child (nodes h') v j) = item_at (nodes h) k (child (nodes h) v j)"
proof -
  let ?m = "nodes h" and ?m' = "nodes h'"
  obtain n where n: "?m v = Some n" "length (slots n) = 8" using assms(1,2) by auto
  obtain n' where n': "?m' v = Some n'" "slots n' = (slots n)[i := c']" using assms(4) n(1) by (auto simp: put_def)
  have t: "\<forall>j<8. trie ?m k (slots n ! j) \<and> v \<notin> foot ?m k (slots n ! j)" "\<forall>j<8. \<forall>l<8. j \<noteq> l \<longrightarrow> foot ?m k (slots n ! j) \<inter> foot ?m k (slots n ! l) = {}"
    using assms(1,2) n(1) by simp_all
  have c: "c = slots n ! i" using assms(5) n(1) by simp
  have new: "trie ?m' k c'" "foot ?m' k c' \<subseteq> foot ?m k c \<union> - dom ?m" and keep: "\<And>a. ?m a \<noteq> None \<Longrightarrow> a \<noteq> v \<Longrightarrow> a \<notin> foot ?m k c \<Longrightarrow> ?m' a = ?m a"
    using assms(4) by (auto simp: put_def)
  have old: "foot ?m' k (slots n ! j) = foot ?m k (slots n ! j)" "trie ?m' k (slots n ! j)" "item_at ?m' k (slots n ! j) = item_at ?m k (slots n ! j)"
    if j: "j < 8" "j \<noteq> i" for j
  proof -
    have "\<forall>a \<in> foot ?m k (slots n ! j). ?m' a = ?m a"
    proof
      fix a assume a: "a \<in> foot ?m k (slots n ! j)"
      then have "?m a \<noteq> None" "a \<noteq> v" using foot_dom t(1) j by blast+
      moreover have "a \<notin> foot ?m k c" using a t(2) j assms(3) c by blast
      ultimately show "?m' a = ?m a" by (rule keep)
    qed
    from trie_frame [OF this] show "foot ?m' k (slots n ! j) = foot ?m k (slots n ! j)" "trie ?m' k (slots n ! j)"
      "item_at ?m' k (slots n ! j) = item_at ?m k (slots n ! j)" using t(1) j by simp_all
  qed
  have sub: "foot ?m k (slots n ! j) \<subseteq> dom ?m" if "j < 8" for j using foot_dom t(1) that by blast
  have ft: "foot ?m' k (slots n' ! j) \<subseteq> foot ?m k (slots n ! j) \<union> - dom ?m" if "j < 8" for j
    using that new(2) old(1) n'(2) n(2) c by (cases "j = i") auto
  have vn: "v \<notin> foot ?m' k (slots n' ! j)" if "j < 8" for j using ft [OF that] t(1) that n(1) by blast
  have dis: "foot ?m' k (slots n' ! j) \<inter> foot ?m' k (slots n' ! l) = {}" if jl: "j < 8" "l < 8" "j \<noteq> l" for j l
  proof (cases "j = i \<or> l = i")
    case True
    then obtain q where q: "q < 8" "q \<noteq> i" "{j, l} = {i, q}" using jl by (auto simp: doubleton_eq_iff)
    have "foot ?m' k (slots n' ! q) = foot ?m k (slots n ! q)" "foot ?m' k (slots n' ! i) = foot ?m' k c'"
      using q old(1) n'(2) n(2) assms(3) by simp_all
    moreover have "foot ?m k (slots n ! q) \<inter> foot ?m' k c' = {}" using new(2) sub [OF q(1)] t(2) q(1,2) assms(3) c by blast
    ultimately show ?thesis using q(3) by (auto simp: doubleton_eq_iff)
  next
    case False
    then show ?thesis using jl old(1) t(2) n'(2) by simp
  qed
  have "\<forall>j<8. trie ?m' k (slots n' ! j)" using new(1) old(2) n'(2) n(2) assms(3) by (simp add: nth_list_update)
  then show "trie ?m' (Suc k) v" using n' n(2) vn dis by simp
  show "foot ?m' (Suc k) v \<subseteq> foot ?m (Suc k) v \<union> - dom ?m" using ft n n'(1) by auto
  show "child ?m' v i = c'" using n' n(2) assms(3) by simp
  show "j < 8 \<Longrightarrow> j \<noteq> i \<Longrightarrow> item_at ?m' k (child ?m' v j) = item_at ?m k (child ?m v j)" using n n' old(3) by simp
qed


lemma insert_down:
  assumes "slot_of s node (Suc k) v h" "v \<noteq> NULL" "i = slot_no index (k * 3)" "c = child (nodes h) v i"
    and "inserted k index item (Slot v i) c h r"
  shows "inserted (Suc k) index item s v h r"
proof -
  let ?m = "nodes h"
  obtain err h' where r: "r = (err, h')" by fastforce
  have tr: "trie ?m (Suc k) v" using assms(1) by (simp add: slot_of_def)
  have i: "i < 8" unfolding assms(3) by simp
  obtain c' where p: "put k (Slot v i) c c' h h'" and a: "avail_ok h'" "set (avail h') \<subseteq> set (avail h)"
    and res: "if err = 0 then item_at ?m k c index = NULL \<and> (\<forall>j. item_at (nodes h') k c' j = (if low k j = low k index then item else item_at ?m k c j))
      else err = 1 \<and> item_at (nodes h') k c' = item_at ?m k c \<and> (item_at ?m k c index \<noteq> NULL \<or> NULL \<in> set (avail h) \<or> avail h' = [])"
    using assms(5) unfolding r inserted_def prod.case by blast
  note q = put_node [OF tr assms(2) i p assms(4)]
  have fc: "foot ?m k c \<subseteq> foot ?m (Suc k) v" "v \<in> foot ?m (Suc k) v" using assms(2,4) i by auto
  have keep: "\<And>a. ?m a \<noteq> None \<Longrightarrow> a \<notin> foot ?m (Suc k) v \<Longrightarrow> nodes h' a = ?m a" "height h' = height h" "height_to_maxindex h' = height_to_maxindex h" "rnode h' = rnode h"
    using p fc by (auto simp: put_def)
  have put: "put (Suc k) s v v h h'"
  proof (cases s)
    case Root
    then show ?thesis using assms(1) keep q(1,2) by (auto simp: put_def slot_of_def)
  next
    case (Slot p j)
    then obtain n where n: "?m p = Some n" "j < length (slots n)" "slots n ! j = v" "p \<notin> foot ?m (Suc k) v"
      using assms(1) by (auto simp: slot_of_def Option.bind_eq_Some_conv load_def split: if_splits)
    have "nodes h' p = Some n" using keep(1) n(1,4) by simp
    moreover have "slots n = (slots n)[j := v]" using n(3) by auto
    ultimately show ?thesis using keep q(1,2) n(1) Slot unfolding put_def by auto
  qed
  have items: "item_at (nodes h') (Suc k) v j = (if slot_no j (k * 3) = i then item_at (nodes h') k c' j else item_at ?m (Suc k) v j)"
    "item_at ?m (Suc k) v j = item_at ?m k (child ?m v (slot_no j (k * 3))) j" for j
    using q(3,4) assms(2) by simp_all
  have "if err = 0 then item_at ?m (Suc k) v index = NULL \<and>
        (\<forall>j. item_at (nodes h') (Suc k) v j = (if low (Suc k) j = low (Suc k) index then item else item_at ?m (Suc k) v j))
      else err = 1 \<and> item_at (nodes h') (Suc k) v = item_at ?m (Suc k) v \<and>
        (item_at ?m (Suc k) v index \<noteq> NULL \<or> NULL \<in> set (avail h) \<or> avail h' = [])"
  proof (cases "err = 0")
    case True
    then show ?thesis using res unfolding items low_Suc assms(3,4) by auto
  next
    case False
    have "item_at (nodes h') (Suc k) v j = item_at ?m (Suc k) v j" for j
      using False res unfolding items assms(3,4) by auto
    then show ?thesis using False res assms(3,4) items(2) [of index] by auto
  qed
  then show ?thesis unfolding r inserted_def prod.case using put a by blast
qed

lemma update_same: "xs ! i = y \<Longrightarrow> xs = xs[i := y]"
  by auto

text \<open>A fresh node \<open>a\<close> was put into the slot \<open>s\<close>.\<close>

definition grown :: "slot_addr \<Rightarrow> ptr \<Rightarrow> radix_tree_head \<Rightarrow> radix_tree_head \<Rightarrow> bool" where
  "grown s a h h3 \<longleftrightarrow> a \<noteq> NULL \<and> nodes h a = None \<and> nodes h3 a = Some \<lparr>count = 0, slots = replicate 8 NULL\<rparr> \<and>
     height h3 = height h \<and> height_to_maxindex h3 = height_to_maxindex h \<and>
     (case s of Root \<Rightarrow> rnode h3 = a \<and> (\<forall>b. nodes h b \<noteq> None \<longrightarrow> nodes h3 b = nodes h b)
      | Slot p i \<Rightarrow> rnode h3 = rnode h \<and> (\<exists>n n'. nodes h p = Some n \<and> nodes h3 p = Some n' \<and> slots n' = (slots n)[i := a]) \<and>
          (\<forall>b. nodes h b \<noteq> None \<longrightarrow> b \<noteq> p \<longrightarrow> nodes h3 b = nodes h b))"

lemma insert_new:
  assumes "grown s a h h3" "i = slot_no index (k * 3)" "inserted k index item (Slot a i) NULL h3 r" "set (avail h3) \<subseteq> set (avail h)"
  shows "inserted (Suc k) index item s NULL h r"
proof -
  let ?m = "nodes h" and ?m3 = "nodes h3"
  obtain err h' where r: "r = (err, h')" by fastforce
  have i: "i < 8" unfolding assms(2) by simp
  have a: "a \<noteq> NULL" "?m a = None" "?m3 a = Some \<lparr>count = 0, slots = replicate 8 NULL\<rparr>" using assms(1) by (simp_all add: grown_def)
  have dom: "?m3 b \<noteq> None" if "?m b \<noteq> None" for b
  proof (cases s)
    case Root
    then have "?m3 b = ?m b" using assms(1) that by (simp add: grown_def)
    then show ?thesis using that by simp
  next
    case (Slot p j)
    then show ?thesis using assms(1) that by (cases "b = p") (auto simp: grown_def)
  qed
  obtain c' where p: "put k (Slot a i) NULL c' h3 h'" and av: "avail_ok h'" "set (avail h') \<subseteq> set (avail h3)"
    and res: "if err = 0 then item_at ?m3 k NULL index = NULL \<and> (\<forall>j. item_at (nodes h') k c' j = (if low k j = low k index then item else item_at ?m3 k NULL j))
      else err = 1 \<and> item_at (nodes h') k c' = item_at ?m3 k NULL \<and> (item_at ?m3 k NULL index \<noteq> NULL \<or> NULL \<in> set (avail h3) \<or> avail h' = [])"
    using assms(3) unfolding r inserted_def prod.case by blast
  have t3: "trie ?m3 (Suc k) a" using a by simp
  have ch: "NULL = child ?m3 a i" using a i by simp
  note q = put_node [OF t3 a(1) i p ch]
  have "foot ?m3 (Suc k) a = {a}" using a by auto
  then have "foot (nodes h') (Suc k) a \<subseteq> {a} \<union> - dom ?m3" using q(2) by simp
  moreover have "- dom ?m3 \<subseteq> - dom ?m" "a \<in> - dom ?m" using dom a(2) by blast+
  ultimately have ft: "foot (nodes h') (Suc k) a \<subseteq> foot ?m (Suc k) NULL \<union> - dom ?m" by blast
  have keep: "?m3 b \<noteq> None \<Longrightarrow> b \<noteq> a \<Longrightarrow> nodes h' b = ?m3 b" "height h' = height h3" "height_to_maxindex h' = height_to_maxindex h3" "rnode h' = rnode h3" for b
    using p by (auto simp: put_def)
  have keep': "nodes h' b = ?m3 b" if "?m b \<noteq> None" for b using keep(1) [OF dom [OF that]] that a(2) by metis
  have put: "put (Suc k) s NULL a h h'"
    using assms(1) keep(2,3,4) keep' q(1) ft unfolding put_def grown_def by (cases s) (auto simp del: foot.simps trie.simps)
  have items: "item_at (nodes h') (Suc k) a j = (if slot_no j (k * 3) = i then item_at (nodes h') k c' j else NULL)" for j
    using q(3) q(4) [of "slot_no j (k * 3)"] a by simp
  have "if err = 0 then item_at ?m (Suc k) NULL index = NULL \<and>
        (\<forall>j. item_at (nodes h') (Suc k) a j = (if low (Suc k) j = low (Suc k) index then item else item_at ?m (Suc k) NULL j))
      else err = 1 \<and> item_at (nodes h') (Suc k) a = item_at ?m (Suc k) NULL \<and>
        (item_at ?m (Suc k) NULL index \<noteq> NULL \<or> NULL \<in> set (avail h) \<or> avail h' = [])"
    using res assms(2,4) unfolding items low_Suc fun_eq_iff by (auto split: if_splits)
  then show ?thesis unfolding r inserted_def prod.case using put av assms(4) by blast
qed

lemma insert_loop_ok:
  assumes "slot_of s node k v h" "avail_ok h" "item \<noteq> NULL"
  shows "wp (do { r \<leftarrow> insert_loop k index s node h; insert_item item r }) (inserted k index item s v h)"
  using assms
proof (induction k arbitrary: s node v h)
  case 0
  then show ?case using insert_loop_0 by simp
next
  case (Suc k)
  let ?m = "nodes h" and ?i = "slot_no index (k * 3)"
  have rd: "read_slot s h = Some v" and tr: "trie ?m (Suc k) v" using Suc.prems(1) by (simp_all add: slot_of_def)
  show ?case
  proof (cases "v = NULL")
    case False
    then obtain n where n: "?m v = Some n" "length (slots n) = 8" using tr by auto
    have so: "slot_of (Slot v ?i) v k (child ?m v ?i) h"
      using tr n False by (simp add: slot_of_def)
    have "wp (do { r \<leftarrow> insert_loop k index (Slot v ?i) v h; insert_item item r }) (inserted k index item (Slot v ?i) (child ?m v ?i) h)"
      by (rule Suc.IH [OF so Suc.prems(2,3)])
    moreover have "insert_loop (Suc k) index s node h = insert_loop k index (Slot v ?i) v h" using rd False by simp
    ultimately show ?thesis using insert_down [OF Suc.prems(1) False refl refl] by (auto elim!: wp_mono)
  next
    case True
    show ?thesis
    proof (cases "fst (radix_tree_node_alloc h) = NULL")
      case al: True
      define h1 where "h1 = snd (radix_tree_node_alloc h)"
      have "insert_loop (Suc k) index s node h = Some (None, h1)" using rd True al by (cases "radix_tree_node_alloc h") (simp add: h1_def)
      moreover have h1: "nodes h1 = ?m" "rnode h1 = rnode h" "height h1 = height h" "height_to_maxindex h1 = height_to_maxindex h" "read_slot s h1 = read_slot s h"
        "set (avail h1) \<subseteq> set (avail h)" "avail_ok h1" "NULL \<in> set (avail h) \<or> avail h1 = []"
        using al Suc.prems(2) by (auto simp: h1_def radix_tree_node_alloc_def avail_ok_def split: list.splits) (cases s; auto)
      have "put (Suc k) s v v h h1"
        using Suc.prems(1) True h1(1-4) by (auto simp: put_def slot_of_def Option.bind_eq_Some_conv load_def update_same split: slot_addr.splits if_splits)
      ultimately show ?thesis using h1 by (auto simp: insert_item_def inserted_def)
    next
      case al: False
      then obtain a as where as: "avail h = a # as" "a \<noteq> NULL" by (auto simp: radix_tree_node_alloc_def split: list.splits)
      let ?z = "\<lparr>count = 0, slots = replicate 8 NULL\<rparr>"
      have fr: "?m a = None" "a \<notin> set as" using Suc.prems(2) as by (auto simp: avail_ok_def)
      obtain h3 where h3: "insert_loop (Suc k) index s node h = insert_loop k index (Slot a ?i) a h3" "grown s a h h3" "avail h3 = as"
        "\<And>b. nodes h3 b = None \<longleftrightarrow> ?m b = None \<and> b \<noteq> a"
      proof (cases s)
        case Root
        show ?thesis
        proof (rule that [of "h\<lparr>avail := as, nodes := ?m(a \<mapsto> ?z), rnode := a\<rparr>"])
        qed (use Root as fr Suc.prems(1) True in \<open>auto simp: radix_tree_node_alloc_def count_up_def slot_of_def grown_def\<close>)
      next
        case (Slot p j)
        then obtain n where n: "?m p = Some n" "j < length (slots n)" "slots n ! j = v" "node = p" "p \<noteq> NULL"
          using Suc.prems(1) by (auto simp: slot_of_def Option.bind_eq_Some_conv load_def split: if_splits)
        have pa: "p \<noteq> a" using n(1) fr(1) by auto
        show ?thesis
        proof (rule that [of "h\<lparr>avail := as, nodes := ?m(a \<mapsto> ?z, p \<mapsto> count_update (\<lambda>c. c + 1) (slots_update (\<lambda>xs. xs[j := a]) n))\<rparr>"])
        qed (use Slot as fr n pa True in \<open>auto simp: radix_tree_node_alloc_def count_up_def grown_def\<close>)
      qed
      have "slot_of (Slot a ?i) a k NULL h3" using h3(2) by (simp add: slot_of_def grown_def)
      moreover have "avail_ok h3" using Suc.prems(2) as fr h3(3,4) by (auto simp: avail_ok_def)
      ultimately have "wp (do { r \<leftarrow> insert_loop k index (Slot a ?i) a h3; insert_item item r }) (inserted k index item (Slot a ?i) NULL h3)"
        by (rule Suc.IH) (rule Suc.prems(3))
      moreover have "set (avail h3) \<subseteq> set (avail h)" using h3(3) as(1) by auto
      ultimately show ?thesis unfolding h3(1) True using insert_new [OF h3(2) refl] by (blast intro: wp_mono)
    qed
  qed
qed


subsection \<open>The tree as a map\<close>

definition radix_ok :: "radix_tree_head \<Rightarrow> bool" where
  "radix_ok h \<longleftrightarrow> height h \<le> 3 \<and> height_to_maxindex h = [0, 7, 63, 511] \<and> trie (nodes h) (height h) (rnode h) \<and>
     (height h = 0 \<longrightarrow> rnode h = NULL) \<and> avail_ok h"

definition content :: "radix_tree_head \<Rightarrow> u32 \<Rightarrow> ptr" where
  "content h index = (if unat index < 8 ^ height h then item_at (nodes h) (height h) (rnode h) index else NULL)"

lemma maxindex:
  assumes "radix_ok h"
  shows "radix_tree_maxindex h = Some (height_to_maxindex h ! height h)" "unat (height_to_maxindex h ! height h) = 8 ^ height h - 1"
    "index > height_to_maxindex h ! height h \<longleftrightarrow> 8 ^ height h \<le> unat index"
proof -
  have "height h = 0 \<or> height h = 1 \<or> height h = 2 \<or> height h = 3" using assms by (auto simp: radix_ok_def)
  then have "height h < 4" "unat (height_to_maxindex h ! height h) = 8 ^ height h - 1" using assms by (auto simp: radix_ok_def)
  moreover have "(0::nat) < 8 ^ height h" by simp
  then have "(8::nat) ^ height h - 1 < n \<longleftrightarrow> 8 ^ height h \<le> n" for n by linarith
  ultimately show "radix_tree_maxindex h = Some (height_to_maxindex h ! height h)" "unat (height_to_maxindex h ! height h) = 8 ^ height h - 1"
    "index > height_to_maxindex h ! height h \<longleftrightarrow> 8 ^ height h \<le> unat index"
    using assms by (simp_all add: radix_ok_def radix_tree_maxindex_def word_less_nat_alt del: One_nat_def)
qed

lemma lookup_loop_ok:
  assumes "read_slot s h = Some v" "trie (nodes h) k v"
  shows "lookup_loop k index s h = Some (item_at (nodes h) k v index)"
  using assms
proof (induction k arbitrary: s v)
  case (Suc k)
  show ?case
  proof (cases "v = NULL")
    case False
    then obtain n where "nodes h v = Some n" "length (slots n) = 8" using Suc.prems(2) by auto
    then show ?thesis using Suc.IH [of "Slot v (slot_no index (k * 3))"] Suc.prems False by simp
  qed (use Suc.prems in simp)
qed simp

lemma lookup_ok: "radix_ok h \<Longrightarrow> radix_tree_lookup index h = Some (content h index)"
  using lookup_loop_ok [of Root h "rnode h" "height h" index] maxindex [of h]
  by (auto simp: radix_tree_lookup_def content_def radix_ok_def)

lemma unat_inj: "unat (i::u32) = unat j \<Longrightarrow> i = j"
  by (rule unsigned_word_eqI)

lemma low_id: "unat i < 8 ^ k \<Longrightarrow> low k i = unat i"
  by (simp add: low_def)

lemma insert_down_ok:
  assumes "radix_ok h" "item \<noteq> NULL" "unat index < 8 ^ height h" "0 < height h"
  shows "wp (do { r \<leftarrow> insert_loop (height h) index Root NULL h; insert_item item r }) (\<lambda>(err, h'). radix_ok h' \<and> set (avail h') \<subseteq> set (avail h) \<and>
      (if err = 0 then content h index = NULL \<and> content h' = (content h)(index := item)
       else err = 1 \<and> content h' = content h \<and> (content h index \<noteq> NULL \<or> NULL \<in> set (avail h) \<or> avail h' = [])))"
proof -
  have "slot_of Root NULL (height h) (rnode h) h" "avail_ok h" using assms(1) by (simp_all add: slot_of_def radix_ok_def)
  from insert_loop_ok [OF this assms(2), of index]
  show ?thesis
  proof (rule wp_mono)
    fix r assume i: "inserted (height h) index item Root (rnode h) h r"
    obtain err h' where r: "r = (err, h')" by fastforce
    from i have p: "height h' = height h" "height_to_maxindex h' = height_to_maxindex h" "trie (nodes h') (height h) (rnode h')" "avail_ok h'" "set (avail h') \<subseteq> set (avail h)"
      and res: "if err = 0 then item_at (nodes h) (height h) (rnode h) index = NULL \<and>
        (\<forall>j. item_at (nodes h') (height h) (rnode h') j = (if low (height h) j = low (height h) index then item else item_at (nodes h) (height h) (rnode h) j))
      else err = 1 \<and> item_at (nodes h') (height h) (rnode h') = item_at (nodes h) (height h) (rnode h) \<and>
        (item_at (nodes h) (height h) (rnode h) index \<noteq> NULL \<or> NULL \<in> set (avail h) \<or> avail h' = [])"
      unfolding r inserted_def put_def by auto
    have "radix_ok h'" using assms(1,4) p by (simp add: radix_ok_def)
    moreover have "if err = 0 then content h index = NULL \<and> content h' = (content h)(index := item)
       else err = 1 \<and> content h' = content h \<and> (content h index \<noteq> NULL \<or> NULL \<in> set (avail h) \<or> avail h' = [])"
    proof (cases "err = 0")
      case True
      have "content h' j = ((content h)(index := item)) j" for j
        using True res p(1) assms(3) low_id [of j "height h"] low_id [OF assms(3)] unat_inj [of j index] by (auto simp: content_def)
      then show ?thesis using True res assms(3) by (auto simp: content_def)
    next
      case False
      then have "content h' = content h" using res p(1) by (auto simp: content_def fun_eq_iff)
      then show ?thesis using False res assms(3) by (simp add: content_def)
    qed
    ultimately show "case r of (err, h') \<Rightarrow> radix_ok h' \<and> set (avail h') \<subseteq> set (avail h) \<and>
      (if err = 0 then content h index = NULL \<and> content h' = (content h)(index := item)
       else err = 1 \<and> content h' = content h \<and> (content h index \<noteq> NULL \<or> NULL \<in> set (avail h) \<or> avail h' = []))"
      using r p(5) by simp
  qed
qed


lemma extend_height_ok:
  assumes "1 \<le> ht" "ht \<le> 3" "unat index < 512"
  shows "\<exists>n. extend_height [0, 7, 63, 511] index ht = Some n \<and> ht \<le> n \<and> n \<le> 3 \<and> unat index < 8 ^ n"
proof -
  let ?ms = "[0, 7, 63, 511] :: u32 list"
  have g: "(7 < index) = (8 \<le> unat index)" "(63 < index) = (64 \<le> unat index)" "(511 < index) = (512 \<le> unat index)"
    by (auto simp: word_less_nat_alt)
  have s: "extend_height ?ms index n = (if index > ?ms ! n then extend_height ?ms index (n + 1) else Some n)" if "n < 4" for n
    using that by (subst extend_height.simps) simp
  have 3: "extend_height ?ms index 3 = Some 3" using assms(3) g s [of 3] by simp
  have 2: "extend_height ?ms index 2 = (if 64 \<le> unat index then Some 3 else Some 2)" using 3 g s [of 2] by simp
  have 1: "extend_height ?ms index 1 = (if 8 \<le> unat index then extend_height ?ms index 2 else Some 1)" using g s [of 1] by (simp add: numeral_2_eq_2)
  consider "ht = 1" | "ht = 2" | "ht = 3" using assms by linarith
  then show ?thesis using 1 2 3 assms(3) by cases auto
qed

text \<open>One more level above the root.\<close>

lemma grow_step:
  assumes "radix_ok h" "rnode h \<noteq> NULL" "height h < 3" "radix_tree_node_alloc h = (a, h1)" "a \<noteq> NULL"
  defines "h2 \<equiv> h\<lparr>avail := tl (avail h), nodes := (nodes h)(a \<mapsto> \<lparr>count = 1, slots = (replicate 8 NULL)[0 := rnode h]\<rparr>), rnode := a, height := height h + 1\<rparr>"
  shows "do { h \<leftarrow> write_slot (Slot a 0) (rnode h1) h1; m \<leftarrow> store (nodes h) a (count_update (\<lambda>_. 1));
     Some (h\<lparr>nodes := m, rnode := a, height := height h + 1\<rparr>) } = Some h2" and "radix_ok h2" and "content h2 = content h"
proof -
  let ?m = "nodes h" and ?m2 = "nodes h2" and ?k = "height h" and ?r = "rnode h"
  obtain as where as: "avail h = a # as" using assms(4,5) by (auto simp: radix_tree_node_alloc_def split: list.splits)
  show "do { h \<leftarrow> write_slot (Slot a 0) (rnode h1) h1; m \<leftarrow> store (nodes h) a (count_update (\<lambda>_. 1));
     Some (h\<lparr>nodes := m, rnode := a, height := height h + 1\<rparr>) } = Some h2"
    using assms(4,5) as by (auto simp: radix_tree_node_alloc_def h2_def)
  have fr: "?m a = None" "a \<notin> set as" "avail_ok h2" using assms(1,5) as by (auto simp: radix_ok_def avail_ok_def h2_def)
  have m2: "?m2 a = Some \<lparr>count = 1, slots = (replicate 8 NULL)[0 := ?r]\<rparr>" "\<And>b. b \<noteq> a \<Longrightarrow> ?m2 b = ?m b" by (simp_all add: h2_def)
  have ch: "child ?m2 a i = (if i = 0 then ?r else NULL)" if "i < 8" for i using m2(1) that by (simp add: nth_list_update)
  have tr: "trie ?m ?k ?r" using assms(1) by (simp add: radix_ok_def)
  have "a \<notin> foot ?m ?k ?r" using foot_dom [OF tr] fr(1) by blast
  then have f: "foot ?m2 ?k ?r = foot ?m ?k ?r" "trie ?m2 ?k ?r" "item_at ?m2 ?k ?r = item_at ?m ?k ?r" "a \<notin> foot ?m2 ?k ?r"
    using trie_frame [of ?m ?k ?r ?m2] m2(2) tr by metis+
  have "trie ?m2 (Suc ?k) a" using m2(1) f ch by simp
  then show "radix_ok h2" using assms(1,3) fr(3) by (simp add: radix_ok_def h2_def)
  have k0: "?k \<noteq> 0" using assms(1,2) by (auto simp: radix_ok_def)
  have "content h2 i = content h i" for i
  proof (cases "unat i < 8 ^ Suc ?k")
    case True
    have d: "slot_no i (?k * 3) = unat i div 8 ^ ?k" using True by (simp add: slot_no_eq less_mult_imp_div_less)
    have "content h2 i = item_at ?m2 (Suc ?k) a i" using True by (simp add: content_def h2_def)
    also have "\<dots> = (if slot_no i (?k * 3) = 0 then item_at ?m ?k ?r i else NULL)" using assms(5) ch [of "slot_no i (?k * 3)"] f(3) by simp
    also have "\<dots> = content h i" unfolding d content_def by (simp add: div_eq_0_iff)
    finally show ?thesis .
  next
    case False
    then have "\<not> unat i < 8 ^ ?k" by (auto intro: less_le_trans)
    then show ?thesis using False by (simp add: content_def h2_def)
  qed
  then show "content h2 = content h" by blast
qed

lemma extend_grow_ok:
  assumes "radix_ok h" "rnode h \<noteq> NULL" "height h < ht" "ht \<le> 3"
  shows "wp (extend_grow ht h) (\<lambda>(err, h'). radix_ok h' \<and> content h' = content h \<and> set (avail h') \<subseteq> set (avail h) \<and>
     (if err = 0 then height h' = ht else err = 1 \<and> (NULL \<in> set (avail h) \<or> avail h' = [])))"
  using assms
proof (induction "ht - height h" arbitrary: h rule: less_induct)
  case less
  obtain a h1 where al: "radix_tree_node_alloc h = (a, h1)" by fastforce
  show ?case
  proof (cases "a = NULL")
    case True
    then have h1: "radix_ok h1" "content h1 = content h" "set (avail h1) \<subseteq> set (avail h)" "NULL \<in> set (avail h) \<or> avail h1 = []"
      using al less.prems(1) by (auto simp: radix_tree_node_alloc_def radix_ok_def avail_ok_def content_def fun_eq_iff split: list.splits if_splits)
    have "extend_grow ht h = Some (1, h1)" using al True by (subst extend_grow.simps) simp
    then show ?thesis using h1 by simp
  next
    case False
    have k: "height h < 3" using less.prems(3,4) by simp
    define h2 where "h2 = h\<lparr>avail := tl (avail h), nodes := (nodes h)(a \<mapsto> \<lparr>count = 1, slots = (replicate 8 NULL)[0 := rnode h]\<rparr>), rnode := a, height := height h + 1\<rparr>"
    note g = grow_step [OF less.prems(1,2) k al False, folded h2_def]
    have "extend_grow ht h = (do { h \<leftarrow> do { h \<leftarrow> write_slot (Slot a 0) (rnode h1) h1; m \<leftarrow> store (nodes h) a (count_update (\<lambda>_. 1));
     Some (h\<lparr>nodes := m, rnode := a, height := height h + 1\<rparr>) }; if ht > height h then extend_grow ht h else Some (0, h) })"
      using al False by (subst extend_grow.simps) (simp del: write_slot.simps)
    then have eq: "extend_grow ht h = (if ht > height h2 then extend_grow ht h2 else Some (0, h2))" unfolding g(1) by simp
    have h2: "height h2 = height h + 1" "rnode h2 \<noteq> NULL" "set (avail h2) \<subseteq> set (avail h)" using False
      by (auto simp: h2_def dest: list.set_sel(2)) (metis empty_iff list.set(1) list.set_sel(2) tl_Nil)
    show ?thesis
    proof (cases "ht > height h2")
      case True
      have "wp (extend_grow ht h2) (\<lambda>(err, h'). radix_ok h' \<and> content h' = content h2 \<and> set (avail h') \<subseteq> set (avail h2) \<and>
        (if err = 0 then height h' = ht else err = 1 \<and> (NULL \<in> set (avail h2) \<or> avail h' = [])))"
        using True h2 g(2) less.prems(4) less.prems(3) by (intro less.hyps) auto
      then show ?thesis unfolding eq using True g(3) h2(3) by (auto elim!: wp_mono split: if_splits)
    next
      case F: False
      then show ?thesis unfolding eq using g(2,3) h2 less.prems(3) by auto
    qed
  qed
qed

lemma radix_insert_ok:
  assumes "radix_ok h" "item \<noteq> NULL" "unat index < 512"
  shows "wp (radix_tree_insert index item h) (\<lambda>(err, h'). radix_ok h' \<and> set (avail h') \<subseteq> set (avail h) \<and>
      (if err = 0 then content h index = NULL \<and> content h' = (content h)(index := item)
       else err = 1 \<and> content h' = content h \<and> (content h index \<noteq> NULL \<or> NULL \<in> set (avail h) \<or> avail h' = [])))"
proof -
  let ?mx = "height_to_maxindex h ! height h"
  note mx = maxindex [OF assms(1)]
  have z: "?mx = 0 \<longleftrightarrow> height h = 0"
  proof -
    have "height h = 0 \<or> height h = 1 \<or> height h = 2 \<or> height h = 3" using assms(1) by (auto simp: radix_ok_def)
    then show ?thesis using assms(1) by (auto simp: radix_ok_def)
  qed
  show ?thesis
  proof (cases "index > ?mx \<or> ?mx = 0")
    case False
    then have "unat index < 8 ^ height h" "0 < height h" using mx(3) [of index] z by auto
    then show ?thesis using insert_down_ok [OF assms(1,2)] mx(1) False by (simp add: radix_tree_insert_def)
  next
    case True
    then have h2: "height h \<le> 2" using mx(3) [of index] z assms by (cases "height h = 3") (auto simp: radix_ok_def)
    then obtain n where n: "extend_height [0, 7, 63, 511] index (height h + 1) = Some n" "height h + 1 \<le> n" "n \<le> 3" "unat index < 8 ^ n"
      using extend_height_ok [of "height h + 1" index] assms(3) by auto
    have "wp (radix_tree_extend index h) (\<lambda>(err, h'). radix_ok h' \<and> content h' = content h \<and> set (avail h') \<subseteq> set (avail h) \<and>
      (if err = 0 then height h' = n else err = 1 \<and> (NULL \<in> set (avail h) \<or> avail h' = [])))"
    proof (cases "rnode h = NULL")
      case True
      then show ?thesis using n assms(1) by (auto simp: radix_tree_extend_def radix_ok_def avail_ok_def content_def fun_eq_iff)
    next
      case False
      then show ?thesis using extend_grow_ok [OF assms(1) False _ n(3)] n assms(1) by (simp add: radix_tree_extend_def radix_ok_def)
    qed
    then obtain err h' where e: "radix_tree_extend index h = Some (err, h')" "radix_ok h'" "content h' = content h" "set (avail h') \<subseteq> set (avail h)"
      "if err = 0 then height h' = n else err = 1 \<and> (NULL \<in> set (avail h) \<or> avail h' = [])" by (auto elim!: wpE)
    show ?thesis
    proof (cases "err = 0")
      case False
      then show ?thesis using e mx(1) True by (simp add: radix_tree_insert_def)
    next
      case ok: True
      have "unat index < 8 ^ height h'" "0 < height h'" using e(5) ok n by simp_all
      from insert_down_ok [OF e(2) assms(2) this]
      have "wp (radix_tree_insert index item h) (\<lambda>(err, h''). radix_ok h'' \<and> set (avail h'') \<subseteq> set (avail h') \<and>
      (if err = 0 then content h' index = NULL \<and> content h'' = (content h')(index := item)
       else err = 1 \<and> content h'' = content h' \<and> (content h' index \<noteq> NULL \<or> NULL \<in> set (avail h') \<or> avail h'' = [])))"
        using e(1) ok mx(1) True by (simp add: radix_tree_insert_def)
      then show ?thesis unfolding e(3) by (rule wp_mono) (use e(4) in \<open>auto split: if_splits\<close>)
    qed
  qed
qed


subsection \<open>Gang lookup\<close>









subsection \<open>The radix tree\<close>

fun insert_all :: "(u32 \<times> ptr) list \<Rightarrow> radix_tree_head \<Rightarrow> (int list \<times> radix_tree_head) option" where
  "insert_all [] h = Some ([], h)"
| "insert_all ((i, x) # ops) h = do { (e, h) \<leftarrow> radix_tree_insert i x h; (es, h) \<leftarrow> insert_all ops h; Some (e # es, h) }"

text \<open>The insertions \<open>ops\<close> returned \<open>es\<close> and took the map \<open>m\<close> to \<open>m'\<close>; \<open>oom\<close>: memory may have run out.\<close>

fun inserts :: "(u32 \<times> ptr) list \<Rightarrow> int list \<Rightarrow> bool \<Rightarrow> (u32 \<Rightarrow> ptr) \<Rightarrow> (u32 \<Rightarrow> ptr) \<Rightarrow> bool" where
  "inserts [] [] oom m m' = (m' = m)"
| "inserts ((i, x) # ops) (e # es) oom m m' =
     (if e = 0 then m i = NULL \<and> inserts ops es oom (m(i := x)) m' else e = 1 \<and> (m i \<noteq> NULL \<or> oom) \<and> inserts ops es oom m m')"
| "inserts _ _ oom m m' = False"

lemma insert_all_ok:
  assumes "radix_ok h" "\<forall>(i, x) \<in> set ops. unat i < 512 \<and> x \<noteq> NULL"
  shows "wp (insert_all ops h) (\<lambda>(es, h'). radix_ok h' \<and> set (avail h') \<subseteq> set (avail h) \<and>
    (\<forall>oom. (NULL \<in> set (avail h) \<or> avail h' = [] \<longrightarrow> oom) \<longrightarrow> inserts ops es oom (content h) (content h')))"
  using assms
proof (induction ops arbitrary: h)
  case (Cons c ops)
  obtain i x where c: "c = (i, x)" by fastforce
  have ix: "unat i < 512" "x \<noteq> NULL" using Cons.prems(2) c by auto
  from radix_insert_ok [OF Cons.prems(1) ix(2,1)] obtain e h1 where h1: "radix_tree_insert i x h = Some (e, h1)" "radix_ok h1" "set (avail h1) \<subseteq> set (avail h)"
    "if e = 0 then content h i = NULL \<and> content h1 = (content h)(i := x)
       else e = 1 \<and> content h1 = content h \<and> (content h i \<noteq> NULL \<or> NULL \<in> set (avail h) \<or> avail h1 = [])" by (auto elim!: wpE)
  have "\<forall>(i, x) \<in> set ops. unat i < 512 \<and> x \<noteq> NULL" using Cons.prems(2) by simp
  from Cons.IH [OF h1(2) this] obtain es h2 where h2: "insert_all ops h1 = Some (es, h2)" "radix_ok h2" "set (avail h2) \<subseteq> set (avail h1)"
    "\<And>oom. (NULL \<in> set (avail h1) \<or> avail h2 = [] \<longrightarrow> oom) \<Longrightarrow> inserts ops es oom (content h1) (content h2)" by (auto elim!: wpE)
  have F: "inserts (c # ops) (e # es) oom (content h) (content h2)" if "NULL \<in> set (avail h) \<or> avail h2 = [] \<longrightarrow> oom" for oom
  proof -
    have "avail h1 = [] \<longrightarrow> avail h2 = []" using h2(3) by auto
    moreover have "inserts ops es oom (content h1) (content h2)" using h2(4) that h1(3) by blast
    ultimately show ?thesis using h1(4) that c by (auto split: if_splits simp del: fun_upd_apply)
  qed
  have "insert_all (c # ops) h = Some (e # es, h2)" using h1(1) h2(1) c by simp
  moreover have "set (avail h2) \<subseteq> set (avail h)" using h1(3) h2(3) by blast
  ultimately show ?case using F h2(2) by (simp del: inserts.simps insert_all.simps)
qed simp

lemma radix_start:
  assumes "distinct (filter (\<lambda>a. a \<noteq> NULL) as)" "radix_tree_head_new True as = Some h"
  shows "radix_ok (radix_tree_initial h)" "content (radix_tree_initial h) = (\<lambda>_. NULL)" "avail (radix_tree_initial h) = as"
proof -
  have "map maxindex_of [0..<4] = [0, 7, 63, 511]" by code_simp
  then show "radix_ok (radix_tree_initial h)" "content (radix_tree_initial h) = (\<lambda>_. NULL)" "avail (radix_tree_initial h) = as"
    using assms by (auto simp: radix_tree_initial_def radix_tree_init_maxindex_def radix_tree_head_new_def radix_ok_def avail_ok_def content_def)
qed

text \<open>C25. A radix tree is a map from the indices 0 to 511 to pointers: after any list of insertions into a new
tree, with allocations that may fail at any point, every lookup returns what the insertions that
returned 0 put there, an insertion returns 0 only if its index was free, and returns 1, changing
nothing, only if the index was taken or memory ran out. No access is outside a node.\<close>

theorem radix_insert_correct:
  assumes "distinct (filter (\<lambda>a. a \<noteq> NULL) as)" "radix_tree_head_new True as = Some h" "\<forall>(i, x) \<in> set ops. unat i < 512 \<and> x \<noteq> NULL"
  shows "wp (insert_all ops (radix_tree_initial h)) (\<lambda>(es, h'). \<exists>m. (\<forall>i. radix_tree_lookup i h' = Some (m i)) \<and>
    inserts ops es (NULL \<in> set as \<or> avail h' = []) (\<lambda>_. NULL) m)"
proof -
  note st = radix_start [OF assms(1,2)]
  from insert_all_ok [OF st(1) assms(3)] show ?thesis
  proof (rule wpE)
    fix r assume eq: "insert_all ops (radix_tree_initial h) = Some r" and r: "case r of (es, h') \<Rightarrow> radix_ok h' \<and>
      set (avail h') \<subseteq> set (avail (radix_tree_initial h)) \<and> (\<forall>oom. (NULL \<in> set (avail (radix_tree_initial h)) \<or> avail h' = [] \<longrightarrow> oom) \<longrightarrow>
        inserts ops es oom (content (radix_tree_initial h)) (content h'))"
    obtain es h' where rr: "r = (es, h')" by fastforce
    from r have "radix_ok h'" "inserts ops es (NULL \<in> set as \<or> avail h' = []) (\<lambda>_. NULL) (content h')"
      unfolding rr st(2,3) by blast+
    then show ?thesis unfolding eq rr wp_Some using lookup_ok by blast
  qed
qed

definition demo_head :: "ptr list \<Rightarrow> radix_tree_head" where
  "demo_head as = the (radix_tree_head_new True as)"

lemma demo_head: "radix_tree_head_new True as = Some (demo_head as)"
  by (simp add: demo_head_def radix_tree_head_new_def)

lemma radix_insert_correct_witness:
  "wp (insert_all [(3, 7), (70, 8), (3, 9)] (radix_tree_initial (demo_head [10, 20, 30, 40, 50, 60]))) (\<lambda>(es, h'). \<exists>m. (\<forall>i. radix_tree_lookup i h' = Some (m i)) \<and>
    inserts [(3, 7), (70, 8), (3, 9)] es (NULL \<in> set [10, 20, 30, 40, 50, 60 :: nat] \<or> avail h' = []) (\<lambda>_. NULL) m)"
proof (rule radix_insert_correct [of "[10, 20, 30, 40, 50, 60]"])
  show "radix_tree_head_new True [10, 20, 30, 40, 50, 60] = Some (demo_head [10, 20, 30, 40, 50, 60])" by (rule demo_head)
  show "distinct (filter (\<lambda>a. a \<noteq> NULL) [10, 20, 30, 40, 50, 60])" by simp
  show "\<forall>(i, x) \<in> set [(3, 7), (70, 8), (3, 9)]. unat (i :: u32) < 512 \<and> x \<noteq> NULL" by simp
qed

text \<open>An insertion at an index above 511 reads past the end of the array of maximal indices, before it
prints its message; it never returns an error.\<close>

theorem radix_index_bound:
  assumes "radix_ok h" "512 \<le> unat index"
  shows "radix_tree_insert index item h = None"
proof -
  have g: "(0 < index) = True" "(7 < index) = True" "(63 < index) = True" "(511 < index) = True"
    using assms(2) by (simp_all add: word_less_nat_alt)
  let ?ms = "[0, 7, 63, 511] :: u32 list"
  have s: "extend_height ?ms index n = extend_height ?ms index (n + 1)" if "n < 4" for n
  proof -
    have "n = 0 \<or> n = 1 \<or> n = 2 \<or> n = 3" using that by linarith
    then show ?thesis by (subst extend_height.simps) (auto simp: g)
  qed
  have 4: "extend_height ?ms index 4 = None" by (subst extend_height.simps) simp
  have 3: "extend_height ?ms index 3 = None" using s [of 3] 4 by simp
  have 2: "extend_height ?ms index 2 = None" using s [of 2] 3 by simp
  have 1: "extend_height ?ms index 1 = None" using s [of 1] 2 by (simp add: numeral_2_eq_2)
  have all: "extend_height ?ms index n = None" if "1 \<le> n" "n \<le> 4" for n
  proof -
    have "n = 1 \<or> n = 2 \<or> n = 3 \<or> n = 4" using that by linarith
    then show ?thesis using 1 2 3 4 by metis
  qed
  have "index > height_to_maxindex h ! height h"
  proof -
    have "(8::nat) ^ height h \<le> 8 ^ 3" using assms(1) by (intro power_increasing) (auto simp: radix_ok_def)
    then show ?thesis using maxindex(3) [OF assms(1), of index] assms(2) by simp
  qed
  moreover have "radix_tree_extend index h = None" using assms(1) all [of "height h + 1"] by (simp add: radix_tree_extend_def radix_ok_def)
  ultimately show ?thesis using maxindex(1) [OF assms(1)] by (simp add: radix_tree_insert_def)
qed

lemma radix_index_bound_witness: "radix_tree_insert 512 7 (radix_tree_initial (demo_head [10, 20])) = None"
  by (rule radix_index_bound) (simp_all add: radix_start [OF _ demo_head])



definition demo_tree :: "(u32 \<times> ptr) list \<Rightarrow> radix_tree_head" where
  "demo_tree ops = snd (the (insert_all ops (radix_tree_initial (demo_head [10, 20, 30, 40, 50, 60]))))"




text \<open>When a node on the way is missing, its message is printed and \<open>NULL\<close> is dereferenced.\<close>

lemma gang_lookup_sparse: "radix_tree_gang_lookup 0 4 (demo_tree [(64, 7)]) = None"
  by code_simp

subsection \<open>Deletion\<close>

lemma dec_low_odd:
  assumes "r mod 2 = 0"
  shows "dec_low r mod 2 = 1" "dec_low r mod 2 ^ 32 \<noteq> 0"
proof -
  define l where "l = (r mod 2 ^ 32 + (2 ^ 32 - 1)) mod 2 ^ 32"
  have "l mod 2 = (r mod 2 ^ 32 + (2 ^ 32 - 1)) mod 2" unfolding l_def by (rule mod_mod_cancel) simp
  also have "(2::nat) ^ 32 - 1 = 1 + 2 * (2 ^ 31 - 1)" by simp
  also have "(a + (1 + 2 * k)) mod 2 = (a mod 2 + 1) mod 2" for a k :: nat by presburger
  also have "r mod 2 ^ 32 mod 2 = r mod 2" by (rule mod_mod_cancel) simp
  finally have l: "l mod 2 = 1" using assms by simp
  have d: "dec_low r = r div 2 ^ 32 * 2 ^ 32 + l" by (simp add: dec_low_def l_def)
  have "r div 2 ^ 32 * 2 ^ 32 + l = l + 2 * (r div 2 ^ 32 * 2 ^ 31)" by simp
  also have "\<dots> mod 2 = 1" by (rule trans [OF mod_mult_self2 l])
  finally show "dec_low r mod 2 = 1" unfolding d .
  have "l < 2 ^ 32" unfolding l_def by (rule mod_less_divisor) simp
  then have "dec_low r mod 2 ^ 32 = l" unfolding d by simp
  then show "dec_low r mod 2 ^ 32 \<noteq> 0" using l by auto
qed

text \<open>C27. Deleting an index from a tree of one level neither removes nor returns its item, present or not: it
returns an address that lies in or after the head, and takes one off the root pointer, so that every
later lookup in the range of the tree reads outside the nodes.\<close>

theorem radix_delete_corrupts:
  assumes "radix_ok h" "height h = 1" "rnode h \<noteq> NULL" "unat index < 8" "rnode h mod 2 = 0" "\<And>p. p mod 2 = 1 \<Longrightarrow> nodes h p = None"
  shows "wp (radix_tree_delete hp index h) (\<lambda>(ret, h'). ret = hp + 16 + 8 * unat index \<and> nodes h' = nodes h \<and>
    (\<forall>j. unat j < 8 \<longrightarrow> radix_tree_lookup j h' = None))"
proof -
  note d = dec_low_odd [OF assms(5)]
  have mx: "radix_tree_maxindex h = Some 7" using maxindex(1) [OF assms(1)] assms(1,2) by (simp add: radix_ok_def)
  have ix: "\<not> index > 7" "slot_no index 0 = unat index" using assms(4) by (simp_all add: word_less_nat_alt slot_no_0)
  have "dec_low (rnode h) \<noteq> NULL" using d(1) by (metis mod_0 zero_neq_one)
  then have "radix_tree_delete hp index h = Some (hp + 16 + 8 * unat index, h\<lparr>rnode := dec_low (rnode h)\<rparr>)"
    using mx ix assms(2) d(2) by (simp add: radix_tree_delete_def Let_def)
  moreover have "radix_tree_lookup j (h\<lparr>rnode := dec_low (rnode h)\<rparr>) = None" if "unat j < 8" for j
  proof -
    have "radix_tree_maxindex (h\<lparr>rnode := dec_low (rnode h)\<rparr>) = Some 7" using mx by (simp add: radix_tree_maxindex_def split: if_splits)
    moreover have "\<not> j > 7" using that by (simp add: word_less_nat_alt)
    ultimately show ?thesis using assms(2) assms(6) [OF d(1)] \<open>dec_low (rnode h) \<noteq> NULL\<close> by (simp add: radix_tree_lookup_def)
  qed
  ultimately show ?thesis by simp
qed

lemma demo_insert: "radix_tree_insert 3 8 (radix_tree_initial (demo_head [10])) =
    Some (0, \<lparr>height = 1, rnode = 10, height_to_maxindex = [0, 7, 63, 511], nodes = [10 \<mapsto> \<lparr>count = 1, slots = [0, 0, 0, 8, 0, 0, 0, 0]\<rparr>], avail = []\<rparr>)"
proof -
  have i: "radix_tree_initial (demo_head [10]) = \<lparr>height = 0, rnode = NULL, height_to_maxindex = [0, 7, 63, 511], nodes = Map.empty, avail = [10]\<rparr>"
  proof -
    have "map maxindex_of [0..<4] = [0, 7, 63, 511]" by code_simp
    then show ?thesis by (simp add: radix_tree_initial_def radix_tree_init_maxindex_def demo_head_def radix_tree_head_new_def)
  qed
  have "extend_height [0, 7, 63, 511] 3 1 = Some 1" by (subst extend_height.simps) simp
  moreover have "slot_no 3 0 = 3" by (simp add: slot_no_0)
  ultimately show ?thesis unfolding i
    by (simp add: radix_tree_insert_def radix_tree_maxindex_def radix_tree_extend_def radix_tree_node_alloc_def insert_item_def count_up_def numeral_nat)
qed

lemma radix_delete_corrupts_witness:
  "wp (radix_tree_delete 1000 3 (snd (the (radix_tree_insert 3 8 (radix_tree_initial (demo_head [10])))))) (\<lambda>(ret, h'). ret = 1000 + 16 + 8 * unat (3 :: u32) \<and>
    nodes h' = nodes (snd (the (radix_tree_insert 3 8 (radix_tree_initial (demo_head [10]))))) \<and> radix_tree_lookup 3 h' = None)"
proof -
  have "radix_ok (snd (the (radix_tree_insert 3 8 (radix_tree_initial (demo_head [10])))))"
    using radix_insert_ok [of "radix_tree_initial (demo_head [10])" 8 3] radix_start(1) [OF _ demo_head, of "[10]"] by (auto elim!: wpE)
  from radix_delete_corrupts [OF this, of 3 1000] show ?thesis by (rule wp_mono) (auto simp: demo_insert)
qed

end
