(* ===== verification/Http_Func.thy ===== *)
theory Http_Func
  imports Prelude "HOL-Library.Sublist"
begin

text \<open>
  \<open>src/http_codec/http/http_func.cpp\<close>: the scanning functions of the HTTP request parser. \<open>data\<close> is
  the memory from the pointer to the end of its buffer; a read past it is \<open>None\<close>. A result code is
  kept where it can be other than 0: \<open>Inl\<close> is an error return. \<open>ulong_max\<close> is the platform's
  \<open>ULONG_MAX\<close>, while \<open>unsigned\<close> has 32 bits.
\<close>

subsection \<open>Characters and memory\<close>

abbreviation (input) LF :: char where "LF \<equiv> CHR 0x0A"
abbreviation (input) CR :: char where "CR \<equiv> CHR 0x0D"
abbreviation (input) ZERO :: char where "ZERO \<equiv> CHR 0x00"
abbreviation (input) CRLF :: string where "CRLF \<equiv> [CR, LF]"

definition isspace :: "char \<Rightarrow> bool" where
  "isspace c \<longleftrightarrow> c \<in> set [CHR 0x20, CHR 0x09, CHR 0x0A, CHR 0x0B, CHR 0x0C, CHR 0x0D]"

definition byte :: "string \<Rightarrow> nat \<Rightarrow> char option" where
  "byte data i = (if i < length data then Some (data ! i) else None)"

text \<open>The constructor \<open>string(data + i, n)\<close>.\<close>

definition bytes :: "string \<Rightarrow> nat \<Rightarrow> nat \<Rightarrow> string option" where
  "bytes data i n = (if i + n \<le> length data then Some (take n (drop i data)) else None)"

fun find_char :: "char \<Rightarrow> string \<Rightarrow> nat option" where
  "find_char c [] = None"
| "find_char c (x # xs) = (if x = c then Some 0 else map_option Suc (find_char c xs))"

subsection \<open>Lines and words\<close>

fun get_line_loop :: "string \<Rightarrow> nat \<Rightarrow> nat \<Rightarrow> (nat \<times> nat) option" where
  "get_line_loop data i 0 = Some (0, 0)"
| "get_line_loop data i (Suc n) = do {
     c \<leftarrow> byte data i;
     if c = LF then
       if i = 0 then Some (1, 1)
       else do { p \<leftarrow> byte data (i - 1); if p = CR then Some (i + 1, 2) else Some (i + 1, 1) }
     else get_line_loop data (i + 1) n
   }"

definition get_line :: "string \<Rightarrow> nat \<Rightarrow> (nat \<times> nat) option" where
  "get_line data data_len = get_line_loop data 0 data_len"

definition path_up_limit :: "string \<Rightarrow> bool" where
  "path_up_limit path \<longleftrightarrow> \<not> list_ex (prefix ''..'') (suffixes path)"

text \<open>\<open>None\<close> is the exception of \<open>path.at\<close>.\<close>

definition get_cgi_from_path :: "string \<Rightarrow> string \<Rightarrow> (int + string) option" where
  "get_cgi_from_path path cgi_dir_path =
     (if \<not> prefix cgi_dir_path path then Some (Inl (-1))
      else if cgi_dir_path = [] then None
      else do {
        c \<leftarrow> byte path (length cgi_dir_path - 1);
        name \<leftarrow> (if c = CHR ''/'' then Some (Some (drop (length cgi_dir_path) path))
          else do { c \<leftarrow> byte path (length cgi_dir_path);
            if c = CHR ''/'' then Some (Some (drop (length cgi_dir_path + 1) path)) else Some None });
        case name of None \<Rightarrow> Some (Inl (-1))
        | Some name \<Rightarrow> if find_char (CHR ''/'') name \<noteq> None then Some (Inl (-1)) else Some (Inr name)
      })"

definition C_HTTP_HEADER_ERROR_INVALID_FORMAT :: int where
  "C_HTTP_HEADER_ERROR_INVALID_FORMAT = 120001"

text \<open>The loop over the value reads its character before it tests the bound, and stops at white space.\<close>

function value_loop :: "string \<Rightarrow> nat \<Rightarrow> nat \<Rightarrow> nat option" where
  "value_loop data data_len off = do {
     c \<leftarrow> byte data off;
     if \<not> isspace c \<and> off < data_len then value_loop data data_len (off + 1) else Some off
   }"
  by pat_completeness auto
termination
  by (relation "measure (\<lambda>(data, n, off). n - off)") auto

declare value_loop.simps [simp del]

definition get_name_value :: "string \<Rightarrow> nat \<Rightarrow> (int + nat \<times> nat \<times> nat) option" where
  "get_name_value data data_len = do {
     line \<leftarrow> bytes data 0 data_len;
     pos \<leftarrow> Some (case find_char (CHR '':'') line of Some i \<Rightarrow> i | None \<Rightarrow> 0);
     if pos = 0 then Some (Inl C_HTTP_HEADER_ERROR_INVALID_FORMAT)
     else do { off \<leftarrow> value_loop data data_len (pos + 1); Some (Inr (pos, off, data_len - off)) }
   }"

fun get_first_word_loop :: "string \<Rightarrow> nat \<Rightarrow> nat \<Rightarrow> nat option" where
  "get_first_word_loop data i 0 = Some 0"
| "get_first_word_loop data i (Suc n) = do { c \<leftarrow> byte data i; if isspace c then Some i else get_first_word_loop data (i + 1) n }"

definition get_first_word :: "string \<Rightarrow> nat \<Rightarrow> nat option" where
  "get_first_word data data_len = get_first_word_loop data 0 data_len"

subsection \<open>Decoding\<close>

definition hexval :: "char \<Rightarrow> nat option" where
  "hexval c = (let n = of_char c :: nat in
     if 48 \<le> n \<and> n \<le> 57 then Some (n - 48) else if 97 \<le> n \<and> n \<le> 102 then Some (n - 87) else if 65 \<le> n \<and> n \<le> 70 then Some (n - 55) else None)"

fun hex_digits :: "nat \<Rightarrow> string \<Rightarrow> nat" where
  "hex_digits acc [] = acc"
| "hex_digits acc (c # cs) = (case hexval c of Some d \<Rightarrow> hex_digits (16 * acc + d) cs | None \<Rightarrow> acc)"

text \<open>\<open>strtol\<close> in base 16 of at most two characters, where a prefix \<open>0x\<close> has no digit after it.\<close>

definition strtol16 :: "string \<Rightarrow> int" where
  "strtol16 s = (case dropWhile isspace s of [] \<Rightarrow> 0
     | c # cs \<Rightarrow> if c = CHR ''-'' then - int (hex_digits 0 cs) else if c = CHR ''+'' then int (hex_digits 0 cs) else int (hex_digits 0 (c # cs)))"

fun decode_loop :: "string \<Rightarrow> nat \<Rightarrow> string option" where
  "decode_loop [] room = Some []"
| "decode_loop (c # cs) 0 = Some []"
| "decode_loop (c # cs) (Suc room) =
     (if c = CHR ''%'' then
        case cs of a # b # rest \<Rightarrow> map_option (Cons (char_of (strtol16 [a, b]))) (decode_loop rest room) | _ \<Rightarrow> None
      else map_option (Cons c) (decode_loop cs room))"

text \<open>\<open>Inl (-1)\<close> is the return for an escape that is cut off.\<close>

definition decode_string :: "string \<Rightarrow> nat \<Rightarrow> nat \<Rightarrow> (int + string) option" where
  "decode_string data data_len buf_size = do {
     d \<leftarrow> bytes data 0 data_len;
     Some (case decode_loop d buf_size of None \<Rightarrow> Inl (-1) | Some out \<Rightarrow> Inr out)
   }"

subsection \<open>The URI\<close>

abbreviation (input) C_MAX_ARG_SIZE :: nat where "C_MAX_ARG_SIZE \<equiv> 1024"

fun slash_loop :: "string \<Rightarrow> nat \<Rightarrow> nat option option" where
  "slash_loop data 0 = Some None"
| "slash_loop data (Suc i) = do { c \<leftarrow> byte data i; if c = CHR ''/'' then Some (Some i) else slash_loop data i }"

text \<open>The result is path, file and argument. \<open>ulong_max\<close> is stored in an \<open>unsigned\<close> and compared after
  widening.\<close>

definition parse_uri :: "nat \<Rightarrow> string \<Rightarrow> nat \<Rightarrow> (int + string \<times> string \<times> string) option" where
  "parse_uri ulong_max data data_len = do {
     c0 \<leftarrow> byte data 0;
     root \<leftarrow> (if c0 = CHR ''/'' then do { c1 \<leftarrow> byte data 1; Some (c1 = CHR '' '') } else Some False);
     if root then Some (Inr ([], [], []))
     else do {
       uri \<leftarrow> bytes data 0 data_len;
       uri_end \<leftarrow> Some (case find_char (CHR ''?'') uri of Some i \<Rightarrow> i | None \<Rightarrow> ulong_max mod 2 ^ 32);
       uri_end \<leftarrow> Some (if uri_end = ulong_max then data_len else uri_end);
       s \<leftarrow> slash_loop data uri_end;
       file_start \<leftarrow> Some (case s of Some i \<Rightarrow> i | None \<Rightarrow> ulong_max mod 2 ^ 32);
       if file_start = ulong_max then Some (Inl (-1))
       else do {
         path \<leftarrow> bytes data 0 file_start;
         file \<leftarrow> bytes data (file_start + 1) (uri_end - file_start - 1);
         if uri_end = data_len then Some (Inr (path, file, []))
         else do {
           r \<leftarrow> decode_string (drop (uri_end + 1) data) (data_len - uri_end - 1) C_MAX_ARG_SIZE;
           case r of Inl e \<Rightarrow> Some (Inl e)
           | Inr out \<Rightarrow> if length out < C_MAX_ARG_SIZE then Some (Inr (path, file, takeWhile (\<lambda>c. c \<noteq> ZERO) out)) else None
         }
       }
     }
   }"

end
