(* ===== verification/Http_Req.thy ===== *)
theory Http_Req
  imports Http_Func "HOL-Library.Char_ord" "HOL-Library.List_Lexorder"
begin

text \<open>
  \<open>src/http_codec/http/http_req.cpp\<close> and \<open>http_head.cpp\<close>: the incremental parser of an HTTP request.
  \<open>mem\<close> is the memory that holds the receive buffers; the parser frees a buffer when it grows, and an
  access to a freed one is \<open>None\<close>. A \<open>std::map\<close> is a list of pairs in the order of the keys.
\<close>

subsection \<open>Strings and maps\<close>

type_synonym smap = "(string \<times> string) list"

fun map_set :: "string \<Rightarrow> string \<Rightarrow> smap \<Rightarrow> smap" where
  "map_set k v [] = [(k, v)]"
| "map_set k v ((k', v') # m) = (if k = k' then (k, v) # m else if k < k' then (k, v) # (k', v') # m else (k', v') # map_set k v m)"

definition map_insert :: "string \<Rightarrow> string \<Rightarrow> smap \<Rightarrow> smap" where
  "map_insert k v m = (if map_of m k \<noteq> None then m else map_set k v m)"

definition map_get :: "smap \<Rightarrow> string \<Rightarrow> string" where
  "map_get m k = (case map_of m k of Some v \<Rightarrow> v | None \<Rightarrow> [])"

definition cstr :: "string \<Rightarrow> string" where
  "cstr s = takeWhile (\<lambda>c. c \<noteq> ZERO) s"

text \<open>\<open>strstr\<close>: no match before the terminating zero is \<open>Some None\<close>; without either the search leaves the buffer.\<close>

fun c_strstr :: "string \<Rightarrow> string \<Rightarrow> nat option option" where
  "c_strstr pat s = (if prefix pat s then Some (Some 0)
     else case s of [] \<Rightarrow> None
     | c # s' \<Rightarrow> if c = ZERO then Some None else map_option (map_option Suc) (c_strstr pat s'))"

declare c_strstr.simps [simp del]

definition toupper :: "char \<Rightarrow> char" where
  "toupper c = (let n = of_char c :: nat in if 97 \<le> n \<and> n \<le> 122 then char_of (n - 32) else c)"

definition is_digit :: "char \<Rightarrow> bool" where
  "is_digit c \<longleftrightarrow> 48 \<le> (of_char c :: nat) \<and> (of_char c :: nat) \<le> 57"

definition dec_value :: "string \<Rightarrow> nat" where
  "dec_value ds = foldl (\<lambda>n c. 10 * n + (of_char c - 48)) 0 ds"

text \<open>\<open>from_str<unsigned>\<close>: without a number the variable it returns is not set.\<close>

definition from_str_unsigned :: "string \<Rightarrow> nat option" where
  "from_str_unsigned s =
     (let s = dropWhile isspace s; neg = (s \<noteq> [] \<and> hd s = CHR ''-'');
          s = (if s \<noteq> [] \<and> hd s \<in> {CHR ''-'', CHR ''+''} then tl s else s); ds = takeWhile is_digit s; n = dec_value ds in
      if ds = [] then None
      else if n \<ge> 2 ^ 32 then Some (2 ^ 32 - 1)
      else Some (if neg then (2 ^ 32 - n) mod 2 ^ 32 else n))"

subsection \<open>The request line\<close>

record request_line =
  rl_full :: bool
  rl_line :: string
  rl_req_type :: int
  rl_path :: string
  rl_file :: string
  rl_arg :: string
  rl_ver :: int
  rl_url_args :: smap

definition C_HTTP_REQ_TYPE_GET :: int where "C_HTTP_REQ_TYPE_GET = 10001"
definition C_HTTP_REQ_TYPE_POST :: int where "C_HTTP_REQ_TYPE_POST = 10002"
definition C_HTTP_ERR_INVALID_REQUEST_LINE :: int where "C_HTTP_ERR_INVALID_REQUEST_LINE = 1000002"
definition C_HTTP_PROTOCOL_VER_0_9 :: int where "C_HTTP_PROTOCOL_VER_0_9 = 40009"
definition C_HTTP_PROTOCOL_VER_1_0 :: int where "C_HTTP_PROTOCOL_VER_1_0 = 40010"
definition C_HTTP_PROTOCOL_VER_1_1 :: int where "C_HTTP_PROTOCOL_VER_1_1 = 40011"

definition request_line_new :: request_line where
  "request_line_new = \<lparr>rl_full = False, rl_line = [], rl_req_type = 0, rl_path = [], rl_file = [], rl_arg = [], rl_ver = 0, rl_url_args = []\<rparr>"

text \<open>The loop over the query arguments; \<open>s\<close> is the argument from \<open>start_pos\<close> on.\<close>

function args_loop :: "string \<Rightarrow> smap \<Rightarrow> smap" where
  "args_loop s m =
     (case find_char (CHR ''='') s of None \<Rightarrow> m
      | Some eq \<Rightarrow>
        let colon = (case find_char (CHR ''&'') s of Some i \<Rightarrow> i | None \<Rightarrow> length s);
            val = (if eq + 1 \<le> colon then take (colon - (eq + 1)) (drop (eq + 1) s) else drop (eq + 1) s);
            m = map_insert (take eq s) val m in
        if colon + 1 \<ge> length s then m else args_loop (drop (colon + 1) s) m)"
  by pat_completeness auto
termination
  by (relation "measure (\<lambda>(s, m). length s)") auto

declare args_loop.simps [simp del]

definition get_url_args :: "smap \<Rightarrow> string \<Rightarrow> int \<times> smap" where
  "get_url_args url_args url = (0, args_loop url url_args)"

definition method_type :: "string \<Rightarrow> int option" where
  "method_type method = (if method = ''GET'' then Some C_HTTP_REQ_TYPE_GET
     else if method = ''POST'' \<or> method = ''QQPOST'' then Some C_HTTP_REQ_TYPE_POST else None)"

definition version_of :: "nat \<Rightarrow> nat \<Rightarrow> int option" where
  "version_of primary secondary =
     (if primary = 0 \<and> secondary = 9 then Some C_HTTP_PROTOCOL_VER_0_9
      else if primary = 1 \<and> secondary = 0 then Some C_HTTP_PROTOCOL_VER_1_0
      else if primary = 1 \<and> secondary = 1 then Some C_HTTP_PROTOCOL_VER_1_1 else None)"

text \<open>The part from the version on; \<open>p\<close> is after the URI.\<close>

definition version_word :: "string \<Rightarrow> nat \<Rightarrow> (int + int) option" where
  "version_word p left_size = do {
     word_len \<leftarrow> get_first_word p left_size;
     if word_len < 8 then Some (Inl C_HTTP_ERR_INVALID_REQUEST_LINE)
     else if \<not> prefix ''HTTP/'' p then Some (Inl C_HTTP_ERR_INVALID_REQUEST_LINE)
     else do {
       dot \<leftarrow> byte p 6;
       if dot \<noteq> CHR ''.'' then Some (Inl C_HTTP_ERR_INVALID_REQUEST_LINE)
       else do {
         s1 \<leftarrow> bytes p 5 1; primary \<leftarrow> from_str_unsigned s1;
         s2 \<leftarrow> bytes p 7 (word_len - 7); secondary \<leftarrow> from_str_unsigned s2;
         Some (case version_of primary secondary of Some v \<Rightarrow> Inr v | None \<Rightarrow> Inl C_HTTP_ERR_INVALID_REQUEST_LINE)
       }
     }
   }"

text \<open>The result is the return code, \<open>skip_len\<close> and the line.\<close>

definition line_infuse :: "nat \<Rightarrow> string \<Rightarrow> nat \<Rightarrow> request_line \<Rightarrow> (int \<times> nat \<times> request_line) option" where
  "line_infuse ulong_max data data_len r =
     (if rl_full r then Some (0, 0, r)
      else do {
        (line_len, tail_len) \<leftarrow> get_line data data_len;
        if line_len = 0 then Some (0, 0, r)
        else do {
          word_len \<leftarrow> get_first_word data line_len;
          if word_len = 0 then Some (C_HTTP_ERR_INVALID_REQUEST_LINE, 0, r)
          else do {
            method \<leftarrow> bytes data 0 word_len;
            case method_type method of None \<Rightarrow> Some (C_HTTP_ERR_INVALID_REQUEST_LINE, 0, r)
            | Some type \<Rightarrow> do {
              p \<leftarrow> Some (drop (word_len + 1) data);
              left_size \<leftarrow> Some (line_len - word_len);
              http_p \<leftarrow> c_strstr '' HTTP/'' p;
              case (case http_p of Some k \<Rightarrow> if k > left_size then None else Some k | None \<Rightarrow> None) of
                None \<Rightarrow> do { nl \<leftarrow> c_strstr [LF] p; if nl \<noteq> None then Some (C_HTTP_ERR_INVALID_REQUEST_LINE, 0, r) else Some (0, 0, r) }
              | Some k \<Rightarrow> do {
                uri \<leftarrow> parse_uri ulong_max p k;
                case uri of Inl e \<Rightarrow> Some (e, 0, r)
                | Inr (path, file, arg) \<Rightarrow> do {
                  ver \<leftarrow> version_word (drop (k + 1) p) (left_size - k);
                  case ver of Inl e \<Rightarrow> Some (e, 0, r)
                  | Inr v \<Rightarrow> do {
                    line \<leftarrow> bytes data 0 (line_len - tail_len);
                    Some (0, line_len, \<lparr>rl_full = True, rl_line = line, rl_req_type = type, rl_path = path, rl_file = file,
                      rl_arg = arg, rl_ver = v, rl_url_args = args_loop arg (rl_url_args r)\<rparr>)
                  }
                }
              }
            }
          }
        }
      })"

definition line_get :: "request_line \<Rightarrow> string \<Rightarrow> string" where
  "line_get r name = map_get (rl_url_args r) name"

subsection \<open>The header\<close>

record http_header =
  h_full :: bool
  head_attribute :: smap

definition header_new :: http_header where
  "header_new = \<lparr>h_full = False, head_attribute = []\<rparr>"

abbreviation (input) C_MAX_HEAD_LINE :: nat where "C_MAX_HEAD_LINE \<equiv> 8192"

text \<open>The loop of \<open>CHttpHeader::infuse\<close> with the number of rounds left and \<open>skip_len\<close>.\<close>

fun header_loop :: "nat \<Rightarrow> string \<Rightarrow> nat \<Rightarrow> nat \<Rightarrow> http_header \<Rightarrow> (nat \<times> http_header) option" where
  "header_loop 0 p len skip h = Some (skip, h)"
| "header_loop (Suc n) p len skip h = do {
     (line_len, tail_len) \<leftarrow> get_line p len;
     if line_len = 0 then Some (skip, h)
     else if line_len = tail_len then Some (skip + line_len, h\<lparr>h_full := True\<rparr>)
     else do {
       nv \<leftarrow> get_name_value p (line_len - tail_len);
       case nv of Inl e \<Rightarrow> Some (skip + line_len, h)
       | Inr (name_len, value_offset, value_len) \<Rightarrow> do {
         name \<leftarrow> bytes p 0 name_len;
         val \<leftarrow> bytes p value_offset value_len;
         header_loop n (drop line_len p) (len - line_len) (skip + line_len)
           (h\<lparr>head_attribute := map_set (cstr (map toupper name)) val (head_attribute h)\<rparr>)
       }
     }
   }"

definition header_infuse :: "string \<Rightarrow> nat \<Rightarrow> http_header \<Rightarrow> (nat \<times> http_header) option" where
  "header_infuse data len h = header_loop C_MAX_HEAD_LINE data len 0 h"

definition header_get :: "http_header \<Rightarrow> string \<Rightarrow> string" where
  "header_get h name = map_get (head_attribute h) name"

definition C_HTTP_HEADER_ERROR_ASSENBLY_INCOMPLETE :: int where "C_HTTP_HEADER_ERROR_ASSENBLY_INCOMPLETE = 120002"
definition C_HTTP_HEADER_ERROR_BUFF_NOT_ENOUGH :: int where "C_HTTP_HEADER_ERROR_BUFF_NOT_ENOUGH = 120003"

text \<open>\<open>sprintf\<close> writes one byte more than it returns, which has no room when the buffer is just filled.\<close>

fun output_loop :: "smap \<Rightarrow> nat \<Rightarrow> string \<Rightarrow> (int + string) option" where
  "output_loop [] buff_size out = Some (Inr out)"
| "output_loop ((k, v) # m) buff_size out =
     (if length out + length k + length v + 4 > buff_size then Some (Inl (- C_HTTP_HEADER_ERROR_BUFF_NOT_ENOUGH))
      else let out' = out @ cstr k @ '': '' @ cstr v @ CRLF in
        if length out' + 1 > buff_size then None else output_loop m buff_size out')"

definition header_output :: "http_header \<Rightarrow> nat \<Rightarrow> (int + string) option" where
  "header_output h buff_size =
     (if \<not> h_full h then Some (Inl (- C_HTTP_HEADER_ERROR_ASSENBLY_INCOMPLETE)) else output_loop (head_attribute h) buff_size [])"

subsection \<open>The body\<close>

record req_body =
  content_length :: nat
  infused_length :: nat
  body_buf :: "(ptr \<times> nat) option"

definition body_new :: req_body where
  "body_new = \<lparr>content_length = 0xffffffff, infused_length = 0, body_buf = None\<rparr>"

definition body_full :: "req_body \<Rightarrow> bool" where
  "body_full b \<longleftrightarrow> content_length b \<le> infused_length b"

definition body_infuse :: "nat \<Rightarrow> req_body \<Rightarrow> nat \<times> req_body" where
  "body_infuse len b =
     (if len + infused_length b \<le> content_length b then (len, b\<lparr>infused_length := infused_length b + len\<rparr>)
      else (content_length b - infused_length b, b\<lparr>infused_length := content_length b\<rparr>))"

subsection \<open>The request\<close>

record http_req =
  buf_size :: nat
  buf :: ptr
  data_len :: nat
  inited :: bool
  parsed_len :: nat
  req_line :: request_line
  header :: http_header
  content_offset :: nat
  body :: req_body
  mem :: "ptr \<rightharpoonup> string"

definition http_req_new :: http_req where
  "http_req_new = \<lparr>buf_size = 0, buf = NULL, data_len = 0, inited = False, parsed_len = 0, req_line = request_line_new,
     header = header_new, content_offset = 0, body = body_new, mem = Map.empty\<rparr>"

text \<open>\<open>a\<close> is the address \<open>new\<close> returns, if it is called.\<close>

definition append_data :: "ptr \<Rightarrow> string \<Rightarrow> http_req \<Rightarrow> http_req option" where
  "append_data a d q =
     (if buf_size q = 0 then Some (q\<lparr>buf := a, mem := (mem q)(a \<mapsto> d), buf_size := length d, data_len := length d\<rparr>)
      else if buf_size q < data_len q + length d then do {
        old \<leftarrow> mem q (buf q);
        keep \<leftarrow> bytes old 0 (data_len q);
        Some (q\<lparr>buf := a, mem := (mem q)(buf q := None, a \<mapsto> keep @ d), buf_size := data_len q + length d, data_len := data_len q + length d\<rparr>)
      } else do {
        old \<leftarrow> mem q (buf q);
        Some (q\<lparr>mem := (mem q)(buf q \<mapsto> take (data_len q) old @ d @ drop (data_len q + length d) old), data_len := data_len q + length d\<rparr>)
      })"

text \<open>The three stages of \<open>input\<close>; \<open>Inl\<close> is a return, \<open>Inr\<close> goes on.\<close>

definition unparsed :: "http_req \<Rightarrow> string option" where
  "unparsed q = do { b \<leftarrow> mem q (buf q); if parsed_len q \<le> length b then Some (drop (parsed_len q) b) else None }"

definition line_stage :: "nat \<Rightarrow> http_req \<Rightarrow> ((int \<times> http_req) + http_req) option" where
  "line_stage ulong_max q =
     (if rl_full (req_line q) then Some (Inr q)
      else do {
        p \<leftarrow> unparsed q;
        (ret, skip, r) \<leftarrow> line_infuse ulong_max p (data_len q - parsed_len q) (req_line q);
        q \<leftarrow> Some (q\<lparr>req_line := r\<rparr>);
        if ret \<noteq> 0 then Some (Inl (ret, q))
        else do {
          q \<leftarrow> Some (q\<lparr>parsed_len := parsed_len q + skip\<rparr>);
          if rl_full r then Some (Inr q) else Some (Inl (0, q))
        }
      })"

definition header_stage :: "http_req \<Rightarrow> ((int \<times> http_req) + http_req) option" where
  "header_stage q =
     (if h_full (header q) then Some (Inr q)
      else do {
        p \<leftarrow> unparsed q;
        (skip, h) \<leftarrow> header_infuse p (data_len q - parsed_len q) (header q);
        q \<leftarrow> Some (q\<lparr>header := h, parsed_len := parsed_len q + skip\<rparr>);
        if \<not> h_full h then Some (Inl (0, q))
        else do {
          s_c_l \<leftarrow> Some (header_get h ''CONTENT-LENGTH'');
          cont_len \<leftarrow> (if s_c_l = [] then Some 0 else from_str_unsigned s_c_l);
          Some (Inr (q\<lparr>content_offset := parsed_len q, body := (body q)\<lparr>content_length := cont_len, body_buf := Some (buf q, parsed_len q)\<rparr>\<rparr>))
        }
      })"

definition body_stage :: "http_req \<Rightarrow> (int \<times> http_req) + http_req" where
  "body_stage q =
     (if body_full (body q) then Inr q
      else case body_infuse (data_len q - parsed_len q) (body q) of (skip, b) \<Rightarrow>
        let q = q\<lparr>body := b, parsed_len := parsed_len q + skip\<rparr> in if body_full b then Inr q else Inl (0, q))"

definition http_input :: "nat \<Rightarrow> ptr \<Rightarrow> string \<Rightarrow> http_req \<Rightarrow> (int \<times> http_req) option" where
  "http_input ulong_max a d q = do {
     q \<leftarrow> append_data a d q;
     s \<leftarrow> line_stage ulong_max q;
     case s of Inl r \<Rightarrow> Some r
     | Inr q \<Rightarrow> do {
       s \<leftarrow> header_stage q;
       case s of Inl r \<Rightarrow> Some r
       | Inr q \<Rightarrow> (case body_stage q of Inl r \<Rightarrow> Some r | Inr q \<Rightarrow> Some (0, q\<lparr>inited := True\<rparr>))
     }
   }"

text \<open>\<open>string(_body._buf, _content_length)\<close>, as the users of the parser read the body.\<close>

definition body_data :: "http_req \<Rightarrow> string option" where
  "body_data q = do { (a, off) \<leftarrow> body_buf (body q); b \<leftarrow> mem q a; bytes b off (content_length (body q)) }"

end
