(* ===== verification/Http_Correct.thy ===== *)
theory Http_Correct
  imports Http_Req
begin

text \<open>
  The request parser on well-formed requests: whatever the chunks in which a request arrives, the
  parser ends with its method, path, file, arguments, header and body length.
\<close>

subsection \<open>Scanning\<close>

lemma byte_append [simp]: "byte (xs @ ys) i = (if i < length xs then byte xs i else byte ys (i - length xs))"
  by (auto simp: byte_def nth_append)

lemma byte_Cons [simp]: "byte (x # xs) 0 = Some x" "byte (x # xs) (Suc i) = byte xs i"
  by (simp_all add: byte_def)

lemma bytes_prefix [simp]: "bytes (xs @ ys) 0 (length xs) = Some xs"
  by (simp add: bytes_def)

lemma bytes_whole [simp]: "bytes xs 0 (length xs) = Some xs"
  by (simp add: bytes_def)

lemma bytes_mid: "i = length xs \<Longrightarrow> n = length ys \<Longrightarrow> bytes (xs @ ys @ zs) i n = Some ys"
  by (simp add: bytes_def)

lemma get_line_loop_skip:
  "LF \<notin> set xs \<Longrightarrow> get_line_loop (ys @ xs @ zs) (length ys) (length xs + n) = get_line_loop (ys @ xs @ zs) (length ys + length xs) n"
proof (induction xs arbitrary: ys)
  case (Cons x xs)
  have "get_line_loop ((ys @ [x]) @ xs @ zs) (length (ys @ [x])) (length xs + n) = get_line_loop ((ys @ [x]) @ xs @ zs) (length (ys @ [x]) + length xs) n"
    by (rule Cons.IH) (use Cons.prems in auto)
  moreover have "x \<noteq> LF" using Cons.prems by auto
  ultimately show ?case by simp
qed simp

lemma get_line_found:
  assumes "LF \<notin> set x" "length x + 2 \<le> n"
  shows "get_line (x @ CRLF @ rest) n = Some (length x + 2, 2)"
proof -
  obtain j where n: "n = length (x @ [CR]) + Suc j" using assms(2) by (metis Suc_eq_plus1 add_2_eq_Suc' add_Suc_right length_append_singleton le_Suc_ex add_Suc)
  have "LF \<notin> set (x @ [CR])" using assms(1) by auto
  from get_line_loop_skip [OF this, of "[]" "LF # rest" "Suc j"]
  have "get_line_loop (x @ CRLF @ rest) 0 n = get_line_loop (x @ CRLF @ rest) (length x + 1) (Suc j)" by (simp add: n)
  then show ?thesis by (simp add: get_line_def)
qed

lemma get_line_none: "LF \<notin> set d \<Longrightarrow> get_line d (length d) = Some (0, 0)"
  using get_line_loop_skip [of d "[]" "[]" 0] by (simp add: get_line_def)

lemma first_word:
  assumes "\<forall>c \<in> set w. \<not> isspace c" "isspace s" "length w < n"
  shows "get_first_word (w @ s # rest) n = Some (length w)"
proof -
  have "get_first_word_loop (ys @ w @ s # rest) (length ys) (length w + Suc j) = Some (length ys + length w)" for ys j
    using assms(1)
  proof (induction w arbitrary: ys)
    case (Cons x w)
    have "get_first_word_loop ((ys @ [x]) @ w @ s # rest) (length (ys @ [x])) (length w + Suc j) = Some (length (ys @ [x]) + length w)"
      by (rule Cons.IH) (use Cons.prems in auto)
    then show ?case using Cons.prems by simp
  qed (use assms(2) in simp)
  from this [of "[]"] show ?thesis using assms(3) by (metis append_Nil add_0 get_first_word_def less_imp_Suc_add list.size(3) add_Suc_right)
qed

lemma find_char_skip: "c \<notin> set xs \<Longrightarrow> find_char c (xs @ ys) = map_option ((+) (length xs)) (find_char c ys)"
proof (induction xs)
  case Nil
  show ?case by (cases "find_char c ys") simp_all
next
  case (Cons x xs)
  then show ?case by (cases "find_char c ys") auto
qed

lemma find_char_None: "find_char c xs = None \<longleftrightarrow> c \<notin> set xs"
  by (induction xs) auto

lemma c_strstr_skip:
  "\<forall>c \<in> set xs. c \<noteq> a \<and> c \<noteq> ZERO \<Longrightarrow> c_strstr (a # pat) (xs @ ys) = map_option (map_option ((+) (length xs))) (c_strstr (a # pat) ys)"
proof (induction xs)
  case Nil
  have "map_option ((+) (0::nat)) x = x" for x by (cases x) auto
  then have "map_option (map_option ((+) (0::nat))) x = x" for x by (cases x) auto
  then show ?case by (simp only: append_Nil list.size)
next
  case (Cons x xs)
  then have "c_strstr (a # pat) ((x # xs) @ ys) = map_option (map_option Suc) (c_strstr (a # pat) (xs @ ys))"
    by (subst c_strstr.simps) auto
  then show ?case using Cons by (simp add: option.map_comp comp_def)
qed

lemma slash_loop_found:
  "CHR ''/'' \<notin> set f \<Longrightarrow> slash_loop (p @ CHR ''/'' # f @ rest) (Suc (length p + length f)) = Some (Some (length p))"
proof (induction f arbitrary: rest rule: rev_induct)
  case (snoc x xs)
  have "slash_loop (p @ CHR ''/'' # (xs @ [x]) @ rest) (Suc (length p + length (xs @ [x]))) =
      slash_loop (p @ CHR ''/'' # xs @ (x # rest)) (Suc (length p + length xs))"
    using snoc.prems by (auto simp: byte_def nth_append)
  then show ?case using snoc by simp
qed simp

subsection \<open>The request line\<close>

record request =
  r_method :: string
  r_path :: string
  r_file :: string
  r_query :: string
  r_arg :: string
  r_headers :: "(string \<times> string) list"
  r_body :: string

definition uri_text :: "request \<Rightarrow> string" where
  "uri_text r = r_path r @ ''/'' @ r_file r @ ''?'' @ r_query r"

definition line_text :: "request \<Rightarrow> string" where
  "line_text r = r_method r @ '' '' @ uri_text r @ '' HTTP/1.1''"

definition plain :: "string \<Rightarrow> bool" where
  "plain s \<longleftrightarrow> (\<forall>c \<in> set s. \<not> isspace c \<and> c \<noteq> ZERO)"

definition line_good :: "request \<Rightarrow> bool" where
  "line_good r \<longleftrightarrow> method_type (r_method r) \<noteq> None \<and> plain (uri_text r) \<and> CHR ''?'' \<notin> set (r_path r) \<and> CHR ''?'' \<notin> set (r_file r) \<and>
     CHR ''/'' \<notin> set (r_file r) \<and> decode_loop (r_query r) C_MAX_ARG_SIZE = Some (r_arg r) \<and> length (r_arg r) < C_MAX_ARG_SIZE \<and>
     ZERO \<notin> set (r_arg r)"

definition parsed_line :: "request \<Rightarrow> request_line" where
  "parsed_line r = \<lparr>rl_full = True, rl_line = line_text r, rl_req_type = the (method_type (r_method r)), rl_path = r_path r, rl_file = r_file r,
     rl_arg = r_arg r, rl_ver = C_HTTP_PROTOCOL_VER_1_1, rl_url_args = args_loop (r_arg r) []\<rparr>"

lemma parse_uri_ok:
  assumes "line_good r" "length (uri_text r) < um mod 2 ^ 32"
  shows "parse_uri um (uri_text r @ rest) (length (uri_text r)) = Some (Inr (r_path r, r_file r, r_arg r))"
proof -
  let ?u = "uri_text r"
  define e where "e = length (r_path r) + 1 + length (r_file r)"
  note g = assms(1) [unfolded line_good_def]
  have um: "um mod 2 ^ 32 \<le> um" by simp
  have len: "length ?u = e + 1 + length (r_query r)" by (simp add: uri_text_def e_def)
  have e: "e < um" "length (r_path r) < um" using len assms(2) um by (auto simp: e_def)
  have two: "\<exists>a b us. ?u = a # b # us"
    by (cases "r_path r"; cases "r_file r"; cases "tl (r_path r)") (auto simp: uri_text_def)
  then obtain a b us where ab: "?u = a # b # us" by blast
  then have nb: "b \<noteq> CHR '' ''" using g by (auto simp: plain_def isspace_def)
  have byt: "byte (?u @ rest) 0 = Some a" "byte (?u @ rest) 1 = Some b" by (simp_all add: ab del: byte_append)
  have fc: "find_char (CHR ''?'') ?u = Some e"
    using g find_char_skip [of "CHR ''?''" "r_path r @ ''/'' @ r_file r" "''?'' @ r_query r"] by (simp add: uri_text_def e_def)
  have sl: "slash_loop (?u @ rest) e = Some (Some (length (r_path r)))"
    using slash_loop_found [of "r_file r" "r_path r" "''?'' @ r_query r @ rest"] g by (simp add: uri_text_def e_def)
  have b0: "bytes (?u @ rest) 0 (length ?u) = Some ?u" by (rule bytes_prefix)
  have b1: "bytes (?u @ rest) 0 (length (r_path r)) = Some (r_path r)"
    using bytes_prefix [of "r_path r"] by (simp add: uri_text_def)
  have b2: "bytes (?u @ rest) (length (r_path r) + 1) (e - length (r_path r) - 1) = Some (r_file r)"
    using bytes_mid [of _ "r_path r @ ''/''" _ "r_file r" "''?'' @ r_query r @ rest"] by (simp add: uri_text_def e_def)
  have "drop (e + 1) (?u @ rest) = r_query r @ rest" "length ?u - e - 1 = length (r_query r)" by (simp_all add: uri_text_def e_def)
  then have dec: "decode_string (drop (e + 1) (?u @ rest)) (length ?u - e - 1) C_MAX_ARG_SIZE = Some (Inr (r_arg r))"
    unfolding decode_string_def using g by simp
  have tw: "takeWhile (\<lambda>c. c \<noteq> ZERO) (r_arg r) = r_arg r" using g by (intro takeWhile_eq_all_conv [THEN iffD2]) auto
  have ne: "e \<noteq> um" "length (r_path r) \<noteq> um" "e \<noteq> length ?u" "length (r_arg r) < C_MAX_ARG_SIZE" using e len g by linarith+
  show ?thesis
    unfolding parse_uri_def byt b0 by (simp only: nb fc sl b1 b2 dec tw ne Option.bind.simps option.simps sum.simps
      if_False if_True simp_thms if_cancel)
qed

lemma from_str_1: "from_str_unsigned ''1'' = Some 1"
  by (simp add: from_str_unsigned_def isspace_def is_digit_def dec_value_def Let_def)

lemma version_word_ok: "version_word (''HTTP/1.1'' @ CRLF @ rest) 12 = Some (Inr C_HTTP_PROTOCOL_VER_1_1)"
proof -
  have "get_first_word (''HTTP/1.1'' @ CR # LF # rest) 12 = Some (length ''HTTP/1.1'')"
    by (rule first_word) (auto simp: isspace_def)
  then have w: "get_first_word (''HTTP/1.1'' @ CRLF @ rest) 12 = Some 8" by simp
  have b: "bytes (''HTTP/1.1'' @ CRLF @ rest) 5 1 = Some ''1''" "bytes (''HTTP/1.1'' @ CRLF @ rest) 7 (8 - 7) = Some ''1''"
    by (simp_all add: bytes_def)
  have d: "byte (''HTTP/1.1'' @ CRLF @ rest) 6 = Some (CHR ''.'')" by (simp add: byte_def)
  have v: "version_of 1 1 = Some C_HTTP_PROTOCOL_VER_1_1" by (simp add: version_of_def)
  show ?thesis unfolding version_word_def w by (simp add: b [simplified] d [simplified] v [simplified] from_str_1 [simplified])
qed

lemma line_text_nolf: "line_good r \<Longrightarrow> LF \<notin> set (line_text r)"
proof -
  assume g: "line_good r"
  then have "r_method r = ''GET'' \<or> r_method r = ''POST'' \<or> r_method r = ''QQPOST''" by (auto simp: line_good_def method_type_def split: if_splits)
  then have "LF \<notin> set (r_method r)" by auto
  moreover have "LF \<notin> set (uri_text r)" using g by (auto simp: line_good_def plain_def isspace_def)
  ultimately show ?thesis by (simp add: line_text_def)
qed

text \<open>A request line up to the reading of its URI.\<close>

lemma line_infuse_uri:
  assumes "method_type m = Some t" "plain u" "d = m @ '' '' @ u @ '' HTTP/1.1'' @ CRLF @ rest" "rl = request_line_new"
  shows "line_infuse um d (length d) rl = do {
     uri \<leftarrow> parse_uri um (u @ '' HTTP/1.1'' @ CRLF @ rest) (length u);
     case uri of Inl e \<Rightarrow> Some (e, 0, rl)
     | Inr (path, file, arg) \<Rightarrow> Some (0, length m + length u + 12, \<lparr>rl_full = True, rl_line = m @ '' '' @ u @ '' HTTP/1.1'', rl_req_type = t,
         rl_path = path, rl_file = file, rl_arg = arg, rl_ver = C_HTTP_PROTOCOL_VER_1_1, rl_url_args = args_loop arg []\<rparr>)
   }"
proof -
  let ?l = "m @ '' '' @ u @ '' HTTP/1.1''" and ?p = "u @ '' HTTP/1.1'' @ CRLF @ rest"
  have "m = ''GET'' \<or> m = ''POST'' \<or> m = ''QQPOST''" using assms(1) by (auto simp: method_type_def split: if_splits)
  then have mp: "\<forall>c \<in> set m. \<not> isspace c" "LF \<notin> set m" "m \<noteq> []" by (auto simp: isspace_def)
  have up: "LF \<notin> set u" "\<forall>c \<in> set u. c \<noteq> CHR '' '' \<and> c \<noteq> ZERO" using assms(2) by (auto simp: plain_def isspace_def)
  have lf: "LF \<notin> set ?l" using mp up by simp
  have gl: "get_line d (length d) = Some (length ?l + 2, 2)"
    using get_line_found [OF lf, of "length d" rest] assms(3) by simp
  have d: "d = m @ CHR '' '' # ?p" by (simp add: assms(3))
  have fw: "get_first_word d (length ?l + 2) = Some (length m)"
    unfolding d by (rule first_word [OF mp(1)]) (auto simp: isspace_def)
  have b1: "bytes d 0 (length m) = Some m" unfolding d by simp
  have dp: "drop (length m + 1) d = ?p" unfolding d by simp
  have "c_strstr '' HTTP/'' ('' HTTP/1.1'' @ CRLF @ rest) = Some (Some 0)" by (subst c_strstr.simps) simp
  then have st: "c_strstr '' HTTP/'' ?p = Some (Some (length u))"
    using c_strstr_skip [of u "CHR '' ''" "''HTTP/''"] up by simp
  have left: "length ?l + 2 - length m = length u + 12" "length ?l + 2 = length m + length u + 12" by simp_all
  have dk: "drop (length u + 1) ?p = ''HTTP/1.1'' @ CRLF @ rest" by simp
  have vw: "version_word (drop (length u + 1) ?p) (length u + 12 - length u) = Some (Inr C_HTTP_PROTOCOL_VER_1_1)"
    unfolding dk using version_word_ok by simp
  have "d = ?l @ CRLF @ rest" by (simp add: assms(3))
  then have b2: "bytes d 0 (length ?l + 2 - 2) = Some ?l" using bytes_prefix [of ?l] by simp
  show ?thesis
    using assms(4) gl fw b1 dp st left assms(1) vw b2 mp(3)
    by (cases "parse_uri um ?p (length u)") (auto simp: line_infuse_def request_line_new_def split: sum.splits)
qed

lemma line_infuse_ok:
  assumes "line_good r" "length (uri_text r) < um mod 2 ^ 32" "d = line_text r @ CRLF @ rest" "rl = request_line_new"
  shows "line_infuse um d (length d) rl = Some (0, length (line_text r) + 2, parsed_line r)"
proof -
  obtain t where t: "method_type (r_method r) = Some t" "plain (uri_text r)" using assms(1) by (auto simp: line_good_def)
  have "d = r_method r @ '' '' @ uri_text r @ '' HTTP/1.1'' @ CRLF @ rest" by (simp add: assms(3) line_text_def)
  from line_infuse_uri [OF t this assms(4)] parse_uri_ok [OF assms(1,2)] show ?thesis
    by (simp add: parsed_line_def line_text_def t(1))
qed

lemma line_infuse_none: "get_line d n = Some (0, 0) \<Longrightarrow> \<not> rl_full rl \<Longrightarrow> line_infuse um d n rl = Some (0, 0, rl)"
  by (simp add: line_infuse_def)

subsection \<open>The header\<close>

definition field_text :: "string \<times> string \<Rightarrow> string" where
  "field_text = (\<lambda>(k, v). k @ '': '' @ v @ CRLF)"

definition fields_text :: "(string \<times> string) list \<Rightarrow> string" where
  "fields_text hs = concat (map field_text hs)"

lemma fields_text_simps [simp]: "fields_text [] = []" "fields_text (f # hs) = field_text f @ fields_text hs"
  by (simp_all add: fields_text_def)

definition field_good :: "string \<times> string \<Rightarrow> bool" where
  "field_good = (\<lambda>(k, v). k \<noteq> [] \<and> CHR '':'' \<notin> set k \<and> LF \<notin> set k \<and> ZERO \<notin> set k \<and> LF \<notin> set v)"

definition attrs :: "(string \<times> string) list \<Rightarrow> smap \<Rightarrow> smap" where
  "attrs hs m = fold (\<lambda>(k, v). map_set (map toupper k) ('' '' @ v)) hs m"

lemma attrs_Nil [simp]: "attrs [] m = m"
  by (simp add: attrs_def)

lemma toupper_zero: "toupper c = ZERO \<longleftrightarrow> c = ZERO"
proof -
  have "char_of (n - 32) \<noteq> ZERO" if "97 \<le> n" "n \<le> 122" for n :: nat
  proof
    assume "char_of (n - 32) = ZERO"
    then have "of_char (char_of (n - 32) :: char) = (of_char ZERO :: nat)" by simp
    then show False using that by simp
  qed
  then show ?thesis by (auto simp: toupper_def Let_def)
qed

lemma cstr_upper: "ZERO \<notin> set k \<Longrightarrow> cstr (map toupper k) = map toupper k"
  unfolding cstr_def by (auto simp: takeWhile_eq_all_conv toupper_zero)

lemma value_loop_space: "byte data off = Some c \<Longrightarrow> isspace c \<Longrightarrow> value_loop data n off = Some off"
  by (simp add: value_loop.simps)

lemma get_line_empty [simp]: "get_line (CRLF @ rest) (Suc (Suc n)) = Some (2, 2)"
  by (simp add: get_line_def)

lemma field_line:
  assumes "field_good (k, v)"
  shows "length (field_text (k, v)) \<le> n \<Longrightarrow> get_line (field_text (k, v) @ rest) n = Some (length (field_text (k, v)), 2)"
    and "get_name_value (field_text (k, v) @ rest) (length k + 2 + length v) = Some (Inr (length k, length k + 1, length v + 1))"
    and "bytes (field_text (k, v) @ rest) 0 (length k) = Some k"
    and "bytes (field_text (k, v) @ rest) (length k + 1) (length v + 1) = Some ('' '' @ v)"
proof -
  note g = assms [unfolded field_good_def, simplified]
  have l: "LF \<notin> set (k @ '': '' @ v)" using g by auto
  show "get_line (field_text (k, v) @ rest) n = Some (length (field_text (k, v)), 2)" if "length (field_text (k, v)) \<le> n"
    using get_line_found [OF l, of n rest] that by (simp add: field_text_def)
  have b: "bytes (field_text (k, v) @ rest) 0 (length k + 2 + length v) = Some (k @ '': '' @ v)"
    using bytes_prefix [of "k @ '': '' @ v" "CRLF @ rest"] by (simp add: field_text_def)
  have c: "find_char (CHR '':'') (k @ '': '' @ v) = Some (length k)"
    using find_char_skip [of "CHR '':''" k "'': '' @ v"] g by simp
  have "byte (field_text (k, v) @ rest) (length k + 1) = Some (CHR '' '')" by (simp add: field_text_def byte_def nth_append)
  then have v: "value_loop (field_text (k, v) @ rest) (length k + 2 + length v) (length k + 1) = Some (length k + 1)"
    by (rule value_loop_space) (simp add: isspace_def)
  show "get_name_value (field_text (k, v) @ rest) (length k + 2 + length v) = Some (Inr (length k, length k + 1, length v + 1))"
    unfolding get_name_value_def b using g by (simp add: c [simplified] v [simplified])
  show "bytes (field_text (k, v) @ rest) 0 (length k) = Some k" using bytes_prefix [of k] by (simp add: field_text_def)
  show "bytes (field_text (k, v) @ rest) (length k + 1) (length v + 1) = Some ('' '' @ v)"
    using bytes_mid [of _ "k @ '':''" _ "'' '' @ v" "CRLF @ rest"] by (simp add: field_text_def)
qed

lemma get_line_part:
  assumes "LF \<notin> set x" "p @ rest = x @ CRLF @ ys" "length p < length x + 2"
  shows "get_line p (length p) = Some (0, 0)"
proof -
  have "p = take (length p) ((x @ [CR]) @ LF # ys)" using assms(2) by (metis append.assoc append_Cons append_Nil append_eq_conv_conj)
  moreover have "length p - length (x @ [CR]) = 0" using assms(3) by simp
  ultimately have "p = take (length p) (x @ [CR])" by (metis append_Nil2 take_0 take_append)
  then have "LF \<notin> set p" using assms(1) set_take_subset [of "length p" "x @ [CR]"] by auto
  then show ?thesis by (rule get_line_none)
qed

lemma header_loop_run:
  assumes "\<forall>f \<in> set hs. field_good f" "length hs < n" "p @ rest = fields_text hs @ CRLF @ bd"
  shows "(length (fields_text hs) + 2 \<le> length p \<longrightarrow> header_loop n p (length p) s h =
            Some (s + length (fields_text hs) + 2, h\<lparr>head_attribute := attrs hs (head_attribute h), h_full := True\<rparr>)) \<and>
         (length p < length (fields_text hs) + 2 \<longrightarrow> (\<exists>t1 t2. hs = t1 @ t2 \<and> length (fields_text t1) \<le> length p \<and> header_loop n p (length p) s h =
            Some (s + length (fields_text t1), h\<lparr>head_attribute := attrs t1 (head_attribute h)\<rparr>)))"
  using assms
proof (induction hs arbitrary: n p s h)
  case Nil
  obtain m where n: "n = Suc m" using Nil.prems by (cases n) auto
  show ?case
  proof (cases "2 \<le> length p")
    case True
    then obtain q where p: "p = CRLF @ q" using Nil.prems by (cases p; cases "tl p") (auto simp: fields_text_def)
    show ?thesis unfolding p n by (simp add: fields_text_def attrs_def get_line_def)
  next
    case False
    have "get_line p (length p) = Some (0, 0)"
      by (rule get_line_part [of "[]" p rest bd]) (use Nil.prems False in \<open>auto simp: fields_text_def\<close>)
    then show ?thesis using False n by (simp add: fields_text_def attrs_def)
  qed
next
  case (Cons f hs)
  obtain k v where f: "f = (k, v)" by (cases f)
  obtain m where n: "n = Suc m" using Cons.prems by (cases n) auto
  let ?x = "field_text f"
  have g: "field_good (k, v)" using Cons.prems f by simp
  have ftx: "fields_text (f # hs) = ?x @ fields_text hs" by (simp add: fields_text_def)
  show ?case
  proof (cases "length ?x \<le> length p")
    case True
    have pr: "p @ rest = ?x @ fields_text hs @ CRLF @ bd" using Cons.prems(3) ftx by simp
    from True pr obtain q where p: "p = ?x @ q" by (metis append_eq_append_conv_if append_take_drop_id)
    have qr: "q @ rest = fields_text hs @ CRLF @ bd" using pr p by simp
    have lx: "length (field_text (k, v)) \<noteq> 2" "field_text (k, v) \<noteq> []" "length (field_text (k, v)) - 2 = length k + 2 + length v"
      by (simp_all add: field_text_def)
    have st: "header_loop n p (length p) s h = header_loop m q (length q) (s + length ?x) (h\<lparr>head_attribute := map_set (map toupper k) ('' '' @ v) (head_attribute h)\<rparr>)"
      using field_line(1) [OF g, of "length p" q] field_line(2-4) [OF g, of q] True cstr_upper [of k] g
      by (simp add: n p lx f field_good_def)
    have att: "attrs (f # hs) m = attrs hs (map_set (map toupper k) ('' '' @ v) m)" for hs m by (simp add: attrs_def f)
    have IH: "(length (fields_text hs) + 2 \<le> length q \<longrightarrow> header_loop m q (length q) (s + length ?x) h' =
            Some (s + length ?x + length (fields_text hs) + 2, h'\<lparr>head_attribute := attrs hs (head_attribute h'), h_full := True\<rparr>)) \<and>
         (length q < length (fields_text hs) + 2 \<longrightarrow> (\<exists>t1 t2. hs = t1 @ t2 \<and> length (fields_text t1) \<le> length q \<and> header_loop m q (length q) (s + length ?x) h' =
            Some (s + length ?x + length (fields_text t1), h'\<lparr>head_attribute := attrs t1 (head_attribute h')\<rparr>)))" for h'
      by (rule Cons.IH) (use Cons.prems n qr in auto)
    let ?h = "h\<lparr>head_attribute := map_set (map toupper k) ('' '' @ v) (head_attribute h)\<rparr>"
    show ?thesis
    proof (intro conjI impI)
      assume "length (fields_text (f # hs)) + 2 \<le> length p"
      then show "header_loop n p (length p) s h = Some (s + length (fields_text (f # hs)) + 2, h\<lparr>head_attribute := attrs (f # hs) (head_attribute h), h_full := True\<rparr>)"
        using IH [of ?h] unfolding st by (simp add: ftx p att)
    next
      assume "length p < length (fields_text (f # hs)) + 2"
      then obtain t1 t2 where t: "hs = t1 @ t2" "length (fields_text t1) \<le> length q" "header_loop m q (length q) (s + length ?x) ?h =
            Some (s + length ?x + length (fields_text t1), ?h\<lparr>head_attribute := attrs t1 (head_attribute ?h)\<rparr>)"
        using IH [of ?h] by (auto simp: ftx p)
      have "fields_text (f # t1) = ?x @ fields_text t1" by (simp add: fields_text_def)
      then show "\<exists>t1 t2. f # hs = t1 @ t2 \<and> length (fields_text t1) \<le> length p \<and> header_loop n p (length p) s h =
            Some (s + length (fields_text t1), h\<lparr>head_attribute := attrs t1 (head_attribute h)\<rparr>)"
        using t unfolding st by (intro exI [of _ "f # t1"] exI [of _ t2]) (simp add: p att)
    qed
  next
    case False
    have l: "LF \<notin> set (k @ '': '' @ v)" using g by (auto simp: field_good_def)
    have "get_line p (length p) = Some (0, 0)"
      by (rule get_line_part [OF l, of p rest "fields_text hs @ CRLF @ bd"]) (use Cons.prems False ftx [unfolded f] in \<open>auto simp: f field_text_def\<close>)
    then have "header_loop n p (length p) s h = Some (s, h)" "\<not> length (fields_text (f # hs)) + 2 \<le> length p"
      using False n by (simp_all add: ftx)
    then show ?thesis by (intro conjI impI, simp) (rule exI [of _ "[]"], rule exI [of _ "f # hs"], simp)
  qed
qed

end
