(* ===== verification/Http_Parse.thy ===== *)
theory Http_Parse
  imports Http_Correct
begin

text \<open>
  The request parser over a sequence of chunks: the state it has after a part of a well-formed
  request, and the request it holds at the end.
\<close>

subsection \<open>Requests and states\<close>

definition request_text :: "request \<Rightarrow> string" where
  "request_text r = line_text r @ CRLF @ fields_text (r_headers r) @ CRLF @ r_body r"

definition line_end :: "request \<Rightarrow> nat" where
  "line_end r = length (line_text r) + 2"

definition head_end :: "request \<Rightarrow> nat" where
  "head_end r = line_end r + length (fields_text (r_headers r)) + 2"

definition length_good :: "request \<Rightarrow> bool" where
  "length_good r \<longleftrightarrow> (let s = map_get (attrs (r_headers r) []) ''CONTENT-LENGTH'' in
     if s = [] then r_body r = [] else from_str_unsigned s = Some (length (r_body r)))"

definition request_good :: "nat \<Rightarrow> request \<Rightarrow> bool" where
  "request_good ulong_max r \<longleftrightarrow> line_good r \<and> length (uri_text r) < ulong_max mod 2 ^ 32 \<and> list_all field_good (r_headers r) \<and>
     length (r_headers r) < C_MAX_HEAD_LINE \<and> length_good r"

definition buffered :: "string \<Rightarrow> http_req \<Rightarrow> bool" where
  "buffered P q \<longleftrightarrow> buf_size q = length P \<and> data_len q = length P \<and> (P = [] \<or> mem q (buf q) = Some P)"

definition line_state :: "request \<Rightarrow> string \<Rightarrow> http_req \<Rightarrow> bool" where
  "line_state r P q \<longleftrightarrow> length P < line_end r \<and> parsed_len q = 0 \<and> req_line q = request_line_new \<and> header q = header_new \<and>
     body q = body_new \<and> \<not> inited q"

definition header_state :: "request \<Rightarrow> string \<Rightarrow> http_req \<Rightarrow> bool" where
  "header_state r P q \<longleftrightarrow> line_end r \<le> length P \<and> req_line q = parsed_line r \<and> body q = body_new \<and> \<not> inited q \<and>
     (\<exists>t1 t2. r_headers r = t1 @ t2 \<and> parsed_len q = line_end r + length (fields_text t1) \<and> parsed_len q \<le> length P \<and>
        header q = \<lparr>h_full = False, head_attribute = attrs t1 []\<rparr>)"

definition body_state :: "request \<Rightarrow> string \<Rightarrow> ptr \<Rightarrow> http_req \<Rightarrow> bool" where
  "body_state r P b q \<longleftrightarrow> head_end r \<le> parsed_len q \<and> parsed_len q \<le> length P \<and> req_line q = parsed_line r \<and>
     header q = \<lparr>h_full = True, head_attribute = attrs (r_headers r) []\<rparr> \<and> body_buf (body q) = Some (b, head_end r) \<and>
     content_length (body q) = length (r_body r) \<and> infused_length (body q) = parsed_len q - head_end r \<and>
     (inited q \<longrightarrow> parsed_len q = length (request_text r))"

definition read_state :: "request \<Rightarrow> string \<Rightarrow> ptr \<Rightarrow> http_req \<Rightarrow> bool" where
  "read_state r P b q \<longleftrightarrow> body_state r P b q \<and> parsed_len q = length P \<and> inited q = (P = request_text r)"

definition after :: "request \<Rightarrow> string \<Rightarrow> http_req \<Rightarrow> bool" where
  "after r P q \<longleftrightarrow> buffered P q \<and> (line_state r P q \<or> (length P < head_end r \<and> header_state r P q) \<or> (\<exists>b. read_state r P b q))"

definition rest_stages :: "http_req \<Rightarrow> (int \<times> http_req) option" where
  "rest_stages q = do {
       s \<leftarrow> header_stage q;
       case s of Inl r \<Rightarrow> Some r
       | Inr q \<Rightarrow> (case body_stage q of Inl r \<Rightarrow> Some r | Inr q \<Rightarrow> Some (0, q\<lparr>inited := True\<rparr>)) }"

lemma http_input_stages:
  "append_data a d q = Some q1 \<Longrightarrow> line_stage um q1 = Some s \<Longrightarrow>
   http_input um a d q = (case s of Inl r \<Rightarrow> Some r | Inr q \<Rightarrow> rest_stages q)"
  by (cases s) (simp_all add: http_input_def rest_stages_def)

lemma header_state_start:
  assumes "line_end r \<le> length P" "body q = body_new" "\<not> inited q" "header q = header_new"
  shows "header_state r P (q\<lparr>req_line := parsed_line r, parsed_len := line_end r\<rparr>)"
proof -
  have "r_headers r = [] @ r_headers r" by simp
  then show ?thesis unfolding header_state_def using assms
    by (intro conjI exI [of _ "r_headers r"] exI [of _ "[] :: (string \<times> string) list"]) (simp_all add: header_new_def)
qed

lemma prefix_split: "P @ R = X @ Y \<Longrightarrow> length X \<le> length P \<Longrightarrow> \<exists>Z. P = X @ Z"
  by (metis append_eq_append_conv_if append_take_drop_id)

lemma request_length: "length (request_text r) = head_end r + length (r_body r)"
  by (simp add: request_text_def head_end_def line_end_def)

subsection \<open>One chunk\<close>

lemma append_ok:
  assumes "buffered P q" "d \<noteq> []"
  obtains q' m' where "append_data a d q = Some q'" "buffered (P @ d) q'" "mem q' (buf q') = Some (P @ d)"
    "parsed_len q' = parsed_len q" "req_line q' = req_line q" "header q' = header q" "body q' = body q" "inited q' = inited q" "buf q' = a"
proof (cases "P = []")
  case True
  then show ?thesis using that assms by (auto simp: append_data_def buffered_def)
next
  case False
  then show ?thesis using that assms by (auto simp: append_data_def buffered_def bytes_def)
qed

lemma body_part:
  assumes "body_state r P b q" "buffered P q" "length P \<le> length (request_text r)" "length P = length (request_text r) \<longleftrightarrow> P = request_text r"
  obtains q' where "rest_stages q = Some (0, q')" "read_state r P b q'" "buffered P q'" "buf q' = buf q"
proof -
  note s = assms(1) [unfolded body_state_def] and l = request_length [of r]
  have h: "header_stage q = Some (Inr q)" using s by (simp add: header_stage_def)
  show ?thesis
  proof (cases "body_full (body q)")
    case True
    then have p: "parsed_len q = length (request_text r)" "length P = length (request_text r)"
      using s l assms(3) by (auto simp: body_full_def)
    have "rest_stages q = Some (0, q\<lparr>inited := True\<rparr>)" using True h by (simp add: rest_stages_def body_stage_def)
    then show ?thesis by (rule that) (use s p assms in \<open>auto simp: read_state_def body_state_def buffered_def\<close>)
  next
    case False
    let ?b = "(body q)\<lparr>infused_length := length P - head_end r\<rparr>"
    have d: "data_len q = length P" using assms(2) by (simp add: buffered_def)
    have inf: "body_infuse (data_len q - parsed_len q) (body q) = (length P - parsed_len q, ?b)"
      using s l assms(3) d by (auto simp: body_infuse_def)
    let ?q = "q\<lparr>body := ?b, parsed_len := length P\<rparr>"
    have f: "body_full ?b \<longleftrightarrow> P = request_text r" using s l assms(3,4) by (auto simp: body_full_def)
    have ni: "\<not> inited q" using False s l by (auto simp: body_full_def)
    have pl: "parsed_len q + (length P - parsed_len q) = length P"
      "P = request_text r \<Longrightarrow> parsed_len q + (length (request_text r) - parsed_len q) = length (request_text r)" using s by auto
    have "rest_stages q = Some (0, if P = request_text r then ?q\<lparr>inited := True\<rparr> else ?q)"
      using False h by (simp add: rest_stages_def body_stage_def inf f pl Let_def)
    then show ?thesis by (rule that) (use s l f ni assms in \<open>auto simp: read_state_def body_state_def buffered_def\<close>)
  qed
qed

lemma rest_step:
  assumes "request_good um r" "header_state r P q" "buffered P q" "P @ R = request_text r"
  obtains q' where "rest_stages q = Some (0, q')" "after r P q'" "head_end r \<le> length P \<longrightarrow> body_buf (body q') = Some (buf q, head_end r)"
    "buf q' = buf q"
proof -
  note g = assms(1) [unfolded request_good_def list_all_iff] and l = request_length [of r]
  from assms(2) obtain t1 t2 where s: "line_end r \<le> length P" "req_line q = parsed_line r" "body q = body_new" "\<not> inited q"
    "r_headers r = t1 @ t2" "parsed_len q = line_end r + length (fields_text t1)" "parsed_len q \<le> length P"
    "header q = \<lparr>h_full = False, head_attribute = attrs t1 []\<rparr>" by (auto simp: header_state_def)
  let ?pre = "line_text r @ CRLF @ fields_text t1"
  define p where "p = drop (parsed_len q) P"
  have ft: "fields_text (xs @ ys) = fields_text xs @ fields_text ys" for xs ys by (simp add: fields_text_def)
  have at2: "attrs (xs @ ys) m = attrs ys (attrs xs m)" for xs ys m by (simp add: attrs_def)
  have rt: "request_text r = ?pre @ fields_text t2 @ CRLF @ r_body r" by (simp add: request_text_def s(5) ft)
  have pre: "length ?pre = parsed_len q" by (simp add: s(6) line_end_def)
  have pR: "p @ R = fields_text t2 @ CRLF @ r_body r"
  proof -
    have "p @ R = drop (parsed_len q) (P @ R)" using s(7) by (simp add: p_def)
    then show ?thesis using assms(4) rt pre by (metis append_eq_conv_conj)
  qed
  have Pl: "length P \<le> length (request_text r)" "length P = length (request_text r) \<longleftrightarrow> P = request_text r"
    using assms(4) by (metis le_add1 length_append, metis append_eq_append_conv append_Nil2)
  have un: "unparsed q = Some p"
    using assms(3) s by (cases "P = []") (auto simp: unparsed_def buffered_def line_end_def p_def)
  have dl: "data_len q - parsed_len q = length p" using assms(3) by (simp add: buffered_def p_def)
  have lp: "length p = length P - parsed_len q" by (simp add: p_def)
  have run: "(length (fields_text t2) + 2 \<le> length p \<longrightarrow> header_loop C_MAX_HEAD_LINE p (length p) 0 \<lparr>h_full = False, head_attribute = attrs t1 []\<rparr> =
            Some (0 + length (fields_text t2) + 2, \<lparr>h_full = False, head_attribute = attrs t1 []\<rparr>\<lparr>head_attribute := attrs t2 (attrs t1 []), h_full := True\<rparr>)) \<and>
         (length p < length (fields_text t2) + 2 \<longrightarrow> (\<exists>u1 u2. t2 = u1 @ u2 \<and> length (fields_text u1) \<le> length p \<and>
            header_loop C_MAX_HEAD_LINE p (length p) 0 \<lparr>h_full = False, head_attribute = attrs t1 []\<rparr> =
            Some (0 + length (fields_text u1), \<lparr>h_full = False, head_attribute = attrs t1 []\<rparr>\<lparr>head_attribute := attrs u1 (attrs t1 [])\<rparr>)))"
    using header_loop_run [OF _ _ pR, of C_MAX_HEAD_LINE 0 "\<lparr>h_full = False, head_attribute = attrs t1 []\<rparr>"] g s(5) by simp
  have he: "head_end r = parsed_len q + length (fields_text t2) + 2" by (simp add: head_end_def s(5,6) ft)
  show ?thesis
  proof (cases "head_end r \<le> length P")
    case True
    let ?q = "q\<lparr>header := \<lparr>h_full = True, head_attribute = attrs (r_headers r) []\<rparr>, parsed_len := head_end r, content_offset := head_end r,
       body := body_new\<lparr>content_length := length (r_body r), body_buf := Some (buf q, head_end r)\<rparr>\<rparr>"
    have hl: "header_infuse p (length p) \<lparr>h_full = False, head_attribute = attrs t1 []\<rparr> = Some (length (fields_text t2) + 2, \<lparr>h_full = True, head_attribute = attrs (r_headers r) []\<rparr>)"
      using run True he lp by (simp add: header_infuse_def s(5,8) at2)
    have cl: "(if header_get \<lparr>h_full = True, head_attribute = attrs (r_headers r) []\<rparr> ''CONTENT-LENGTH'' = [] then Some 0
        else from_str_unsigned (header_get \<lparr>h_full = True, head_attribute = attrs (r_headers r) []\<rparr> ''CONTENT-LENGTH'')) = Some (length (r_body r))"
      using g by (auto simp: length_good_def header_get_def Let_def split: if_splits)
    have "header_stage q = Some (Inr ?q)"
      unfolding header_stage_def un dl by (simp add: hl cl s(3,8) he)
    then have "rest_stages q = rest_stages ?q" by (simp add: rest_stages_def header_stage_def)
    moreover have "body_state r P (buf q) ?q" using s True by (simp add: body_state_def body_new_def)
    moreover have "buffered P ?q" using assms(3) by (simp add: buffered_def)
    ultimately obtain q' where "rest_stages q = Some (0, q')" "read_state r P (buf q) q'" "buffered P q'"
      "buf q' = buf ?q" using body_part [of r P "buf q" ?q] Pl by metis
    then show ?thesis by (intro that [of q']) (auto simp: after_def read_state_def body_state_def)
  next
    case False
    then obtain u1 u2 where u: "t2 = u1 @ u2" "length (fields_text u1) \<le> length p"
      "header_infuse p (length p) \<lparr>h_full = False, head_attribute = attrs t1 []\<rparr> = Some (length (fields_text u1), \<lparr>h_full = False, head_attribute = attrs (t1 @ u1) []\<rparr>)"
      using run he lp by (auto simp: header_infuse_def s(8) at2)
    let ?q = "q\<lparr>header := \<lparr>h_full = False, head_attribute = attrs (t1 @ u1) []\<rparr>, parsed_len := parsed_len q + length (fields_text u1)\<rparr>"
    have "rest_stages q = Some (0, ?q)"
      unfolding rest_stages_def header_stage_def un dl by (simp add: u(3) s(8))
    moreover have "header_state r P ?q" unfolding header_state_def
    proof (intro conjI exI)
      show "r_headers r = (t1 @ u1) @ u2" using s(5) u(1) by simp
      show "parsed_len ?q \<le> length P" using s(7) u(2) by (simp add: lp)
    qed (use s in \<open>simp_all add: ft\<close>)
    moreover have "buffered P ?q" using assms(3) by (simp add: buffered_def)
    ultimately show ?thesis using False l by (intro that [of ?q]) (auto simp: after_def)
  qed
qed

lemma chunk_step:
  assumes "request_good um r" "after r P q" "d \<noteq> []" "P @ d @ R = request_text r"
  obtains q' where "http_input um a d q = Some (0, q')" "after r (P @ d) q'"
    "P = [] \<and> head_end r \<le> length d \<longrightarrow> body_buf (body q') = Some (a, head_end r) \<and> buf q' = a"
proof -
  let ?P = "P @ d"
  have b: "buffered P q" using assms(2) by (simp add: after_def)
  from append_ok [OF b assms(3), of a] obtain q1 where q1: "append_data a d q = Some q1" "buffered ?P q1" "mem q1 (buf q1) = Some ?P"
    "parsed_len q1 = parsed_len q" "req_line q1 = req_line q" "header q1 = header q" "body q1 = body q" "inited q1 = inited q" "buf q1 = a" by metis
  note g = assms(1) [unfolded request_good_def] and l = request_length [of r]
  have PR: "?P @ R = request_text r" using assms(4) by simp
  have Pl: "length ?P \<le> length (request_text r)" "length ?P = length (request_text r) \<longleftrightarrow> ?P = request_text r"
    using PR by (metis le_add1 length_append, metis append_eq_append_conv append_Nil2)
  note out = that
  have fin: ?thesis if "http_input um a d q = rest_stages q2" "header_state r ?P q2" "buffered ?P q2" "buf q2 = a" for q2
  proof -
    from rest_step [OF assms(1) that(2,3) PR] obtain q' where "rest_stages q2 = Some (0, q')" "after r ?P q'"
      "head_end r \<le> length ?P \<longrightarrow> body_buf (body q') = Some (buf q2, head_end r)" "buf q' = buf q2" by metis
    then show ?thesis by (intro out [of q']) (use that PR in auto)
  qed
  have dp: "data_len q1 = length ?P" using q1(2) by (simp add: buffered_def)
  consider "line_state r P q" | "header_state r P q" | c where "read_state r P c q" using assms(2) by (auto simp: after_def)
  then show ?thesis
  proof cases
    case 1
    note s = 1 [unfolded line_state_def]
    have ls: "line_stage um q1 = Some (if ret \<noteq> 0 then Inl (ret, q1\<lparr>req_line := rl\<rparr>)
        else if rl_full rl then Inr (q1\<lparr>req_line := rl, parsed_len := skip\<rparr>) else Inl (0, q1\<lparr>req_line := rl, parsed_len := skip\<rparr>))"
      if "line_infuse um ?P (length ?P) (req_line q1) = Some (ret, skip, rl)" for ret skip rl
    proof -
      have "unparsed q1 = Some ?P" "\<not> rl_full (req_line q1)" "data_len q1 - parsed_len q1 = length ?P"
        using s q1 dp by (simp_all add: unparsed_def request_line_new_def)
      then show ?thesis using that s q1 by (simp add: line_stage_def)
    qed
    have new: "req_line q1 = request_line_new" using s q1 by simp
    show ?thesis
    proof (cases "line_end r \<le> length ?P")
      case False
      have "?P @ R = line_text r @ CRLF @ fields_text (r_headers r) @ CRLF @ r_body r" using PR by (simp add: request_text_def)
      then have "get_line ?P (length ?P) = Some (0, 0)"
        using get_line_part [of "line_text r" ?P R] line_text_nolf [of r] g False by (simp add: line_end_def)
      then have "line_infuse um ?P (length ?P) (req_line q1) = Some (0, 0, request_line_new)"
        unfolding new by (rule line_infuse_none) (simp add: request_line_new_def)
      from ls [OF this] have "line_stage um q1 = Some (Inl (0, q1\<lparr>req_line := req_line q1, parsed_len := parsed_len q1\<rparr>))"
        unfolding new [symmetric] using s q1 by (simp add: request_line_new_def)
      then have "line_stage um q1 = Some (Inl (0, q1))" by simp
      then have "http_input um a d q = Some (0, q1)" using http_input_stages [OF q1(1)] by simp
      moreover have "after r ?P q1" using q1 s False by (auto simp: after_def line_state_def)
      moreover have "\<not> head_end r \<le> length ?P" using False by (simp add: head_end_def)
      ultimately show ?thesis by (intro that [of q1]) auto
    next
      case True
      have "?P @ R = (line_text r @ CRLF) @ fields_text (r_headers r) @ CRLF @ r_body r" using PR by (simp add: request_text_def)
      then obtain rest where rest: "?P = line_text r @ CRLF @ rest"
        using True prefix_split [of ?P R "line_text r @ CRLF"] by (auto simp: line_end_def)
      have "line_infuse um ?P (length ?P) (req_line q1) = Some (0, line_end r, parsed_line r)"
        unfolding line_end_def using line_infuse_ok [OF _ _ rest new] g by simp
      from ls [OF this] have "line_stage um q1 = Some (Inr (q1\<lparr>req_line := parsed_line r, parsed_len := line_end r\<rparr>))"
        by (simp add: parsed_line_def)
      then have "http_input um a d q = rest_stages (q1\<lparr>req_line := parsed_line r, parsed_len := line_end r\<rparr>)"
        using http_input_stages [OF q1(1)] by simp
      then show ?thesis
        by (rule fin) (use q1 s True in \<open>simp_all add: header_state_start buffered_def\<close>)
    qed
  next
    case 2
    have "line_stage um q1 = Some (Inr q1)" using 2 q1 by (simp add: line_stage_def header_state_def parsed_line_def)
    then have "http_input um a d q = rest_stages q1" using http_input_stages [OF q1(1)] by simp
    then show ?thesis by (rule fin) (use 2 q1 in \<open>auto simp: header_state_def\<close>)
  next
    case 3
    note s = 3 [unfolded read_state_def body_state_def]
    have "line_stage um q1 = Some (Inr q1)" using s q1 by (simp add: line_stage_def parsed_line_def)
    then have h: "http_input um a d q = rest_stages q1" using http_input_stages [OF q1(1)] by simp
    have "body_state r ?P c q1" using s q1 by (auto simp: body_state_def)
    then obtain q' where "rest_stages q1 = Some (0, q')" "read_state r ?P c q'" "buffered ?P q'" using body_part [OF _ q1(2) Pl] by metis
    moreover have "P \<noteq> []" using s by (auto simp: head_end_def)
    ultimately show ?thesis using h by (intro that [of q']) (auto simp: after_def)
  qed
qed

subsection \<open>Chunks\<close>

text \<open>The calls of a reader that hands every chunk to \<open>input\<close> and stops at an error; the address of a new buffer comes with the chunk.\<close>

fun http_feed :: "nat \<Rightarrow> (ptr \<times> string) list \<Rightarrow> http_req \<Rightarrow> (int \<times> http_req) option" where
  "http_feed um [] q = Some (0, q)"
| "http_feed um ((a, d) # ds) q = do { (ret, q) \<leftarrow> http_input um a d q; if ret \<noteq> 0 then Some (ret, q) else http_feed um ds q }"

lemma feed_run:
  assumes "request_good um r" "after r P q" "P @ concat (map snd ds) = request_text r" "[] \<notin> snd ` set ds"
  obtains q' where "http_feed um ds q = Some (0, q')" "after r (request_text r) q'"
  using assms(2-)
proof (induction ds arbitrary: P q thesis)
  case Nil
  then show ?case by simp
next
  case (Cons x ds)
  obtain a d where x: "x = (a, d)" by (cases x)
  have "d \<noteq> []" "P @ d @ concat (map snd ds) = request_text r" using Cons.prems x by auto
  from chunk_step [OF assms(1) Cons.prems(2) this, of a] obtain q1 where q1: "http_input um a d q = Some (0, q1)" "after r (P @ d) q1" by metis
  have "(P @ d) @ concat (map snd ds) = request_text r" "[] \<notin> snd ` set ds" using Cons.prems x by auto
  from Cons.IH [OF _ q1(2) this] obtain q' where "http_feed um ds q1 = Some (0, q')" "after r (request_text r) q'" by metis
  then show ?case by (intro Cons.prems(1) [of q']) (simp_all add: x q1(1))
qed

lemma after_new: "after r [] http_req_new"
  by (simp add: after_def buffered_def line_state_def http_req_new_def line_end_def)

lemma after_end:
  assumes "after r (request_text r) q"
  shows "inited q" "req_line q = parsed_line r" "header q = \<lparr>h_full = True, head_attribute = attrs (r_headers r) []\<rparr>"
    "content_length (body q) = length (r_body r)" "body_full (body q)" "mem q (buf q) = Some (request_text r)"
proof -
  have l: "length (request_text r) = head_end r + length (r_body r)" by (rule request_length)
  have "head_end r \<ge> 2" "line_end r \<le> head_end r" by (simp_all add: head_end_def)
  then have "request_text r \<noteq> []" using l by auto
  then show "inited q" "req_line q = parsed_line r" "header q = \<lparr>h_full = True, head_attribute = attrs (r_headers r) []\<rparr>"
    "content_length (body q) = length (r_body r)" "body_full (body q)" "mem q (buf q) = Some (request_text r)"
    using assms l \<open>line_end r \<le> head_end r\<close>
    by (auto simp: after_def line_state_def read_state_def body_state_def buffered_def body_full_def)
qed

text \<open>C28. A well-formed request, in whatever non-empty chunks it arrives and wherever its buffers are allocated, is parsed without an
  error: at the end \<open>CHttpReq\<close> is initialised and holds the request line's fields, every header field (the
  value with the space after the colon) and the length of the body.\<close>
theorem http_req_parse:
  assumes "request_good um r" "concat (map snd ds) = request_text r" "[] \<notin> snd ` set ds"
  shows "\<exists>q. http_feed um ds http_req_new = Some (0, q) \<and> inited q \<and> req_line q = parsed_line r \<and>
    header q = \<lparr>h_full = True, head_attribute = attrs (r_headers r) []\<rparr> \<and> content_length (body q) = length (r_body r) \<and> body_full (body q)"
proof -
  have "[] @ concat (map snd ds) = request_text r" using assms(2) by simp
  from feed_run [OF assms(1) after_new this assms(3)] obtain q
    where "http_feed um ds http_req_new = Some (0, q)" "after r (request_text r) q" by metis
  then show ?thesis using after_end by metis
qed

definition sample_request :: request where
  "sample_request = \<lparr>r_method = ''POST'', r_path = ''/a'', r_file = ''b'', r_query = ''x=1&y=%41'', r_arg = ''x=1&y=A'',
     r_headers = [(''Host'', ''h''), (''Content-Length'', ''2'')], r_body = ''ok''\<rparr>"

lemma decode_loop_pos:
  "0 < room \<Longrightarrow> decode_loop (c # cs) room =
     (if c = CHR ''%'' then
        case cs of a # b # rest \<Rightarrow> map_option (Cons (char_of (strtol16 [a, b]))) (decode_loop rest (room - 1)) | _ \<Rightarrow> None
      else map_option (Cons c) (decode_loop cs (room - 1)))"
  by (cases room) (auto split: list.splits)

lemma sample_chars:
  "char_of (65 :: nat) = CHR ''A''" "char_of (65 :: int) = CHR ''A''" "char_of (84 :: nat) = CHR ''T''" "char_of (71 :: nat) = CHR ''G''" "char_of (78 :: nat) = CHR ''N''"
  "char_of (69 :: nat) = CHR ''E''" "char_of (79 :: nat) = CHR ''O''" "char_of (72 :: nat) = CHR ''H''" "char_of (67 :: nat) = CHR ''C''"
  "char_of (76 :: nat) = CHR ''L''" "char_of (83 :: nat) = CHR ''S''"
  by code_simp+

lemma sample_line: "line_good sample_request"
  by (simp add: line_good_def sample_request_def method_type_def plain_def uri_text_def isspace_def decode_loop_pos
    strtol16_def hexval_def Let_def sample_chars)

lemma sample_length: "length_good sample_request"
  by (simp add: length_good_def sample_request_def attrs_def toupper_def map_get_def from_str_unsigned_def isspace_def
    is_digit_def dec_value_def Let_def sample_chars)

lemma sample_good: "request_good (2 ^ 64 - 1) sample_request"
  using sample_line sample_length
  by (simp add: request_good_def) (simp add: sample_request_def uri_text_def field_good_def)

theorem http_req_parse_witness:
  "\<exists>q. http_feed (2 ^ 64 - 1) [(1, take 9 (request_text sample_request)), (2, drop 9 (request_text sample_request))] http_req_new = Some (0, q) \<and>
    inited q \<and> req_line q = parsed_line sample_request \<and> header q = \<lparr>h_full = True, head_attribute = attrs (r_headers sample_request) []\<rparr> \<and>
    content_length (body q) = length (r_body sample_request) \<and> body_full (body q)"
  by (rule http_req_parse [OF sample_good]) (simp, code_simp)

lemma request_whole:
  assumes "request_good um r"
  obtains q where "http_input um a (request_text r) http_req_new = Some (0, q)" "inited q" "req_line q = parsed_line r"
    "body_data q = Some (r_body r)"
proof -
  have l: "length (request_text r) = head_end r + length (r_body r)" by (rule request_length)
  then have "request_text r \<noteq> []" by (auto simp: head_end_def)
  from chunk_step [OF assms after_new this, of "[]" a] obtain q where q: "http_input um a (request_text r) http_req_new = Some (0, q)"
    "after r (request_text r) q" "body_buf (body q) = Some (a, head_end r)" "buf q = a" using l by auto
  let ?pre = "line_text r @ CRLF @ fields_text (r_headers r) @ CRLF"
  have "request_text r = ?pre @ r_body r" "head_end r = length ?pre" by (simp_all add: request_text_def head_end_def line_end_def)
  then have "drop (head_end r) (request_text r) = r_body r" by (metis append_eq_conv_conj)
  then have "body_data q = Some (r_body r)"
    using q(3) after_end [OF q(2)] l q(4) by (simp add: body_data_def bytes_def)
  then show ?thesis using q(1) after_end [OF q(2)] by (intro that [of q]) simp_all
qed

text \<open>A request that arrives in one chunk has its body: the pointer of the body reads the bytes after the blank line.\<close>
theorem http_req_body_kept:
  assumes "request_good um r"
  shows "\<exists>q. http_input um a (request_text r) http_req_new = Some (0, q) \<and> body_data q = Some (r_body r)"
  using request_whole [OF assms, of a] by metis

theorem http_req_body_kept_witness:
  "\<exists>q. http_input (2 ^ 64 - 1) 1 (request_text sample_request) http_req_new = Some (0, q) \<and> body_data q = Some (r_body sample_request)"
  by (rule http_req_body_kept [OF sample_good])

text \<open>A later chunk moves the buffer and leaves the pointer of the body behind.\<close>

lemma http_input_moves:
  assumes "http_input um a d q = Some (ret, q')" "h_full (header q)" "rl_full (req_line q)" "buf_size q = data_len q" "0 < data_len q"
    "d \<noteq> []" "a \<noteq> buf q"
  shows "mem q' (buf q) = None" "body_buf (body q') = body_buf (body q)"
  using assms
  by (auto simp: http_input_def append_data_def line_stage_def header_stage_def body_stage_def body_infuse_def Let_def bind_eq_Some_conv
    split: sum.splits if_splits)

text \<open>C29. When the end of a request's body comes in a chunk after the one with its header, the parser accepts the request and its body
  pointer is dangling: \<open>append_data\<close> has freed the buffer it points into.\<close>
theorem http_req_body_dangles:
  assumes "request_good um r" "d1 @ d2 = request_text r" "head_end r \<le> length d1" "d2 \<noteq> []" "a1 \<noteq> a2"
  shows "\<exists>q. http_feed um [(a1, d1), (a2, d2)] http_req_new = Some (0, q) \<and> inited q \<and> body_data q = None"
proof -
  have ne: "d1 \<noteq> []" using assms(3) by (auto simp: head_end_def)
  from chunk_step [OF assms(1) after_new ne, of d2 a1] obtain q1 where q1: "http_input um a1 d1 http_req_new = Some (0, q1)" "after r d1 q1"
    "body_buf (body q1) = Some (a1, head_end r)" "buf q1 = a1" using assms(2,3) by auto
  from chunk_step [OF assms(1) q1(2) assms(4), of "[]" a2] obtain q2 where q2: "http_input um a2 d2 q1 = Some (0, q2)" "after r (request_text r) q2"
    using assms(2) by auto
  have "line_end r \<le> head_end r" by (simp add: head_end_def)
  then have "h_full (header q1)" "rl_full (req_line q1)" "buf_size q1 = data_len q1" "0 < data_len q1"
    using q1(2) assms(3) ne by (auto simp: after_def line_state_def read_state_def body_state_def buffered_def parsed_line_def)
  from http_input_moves [OF q2(1) this assms(4)] have "mem q2 a1 = None" "body_buf (body q2) = Some (a1, head_end r)"
    using q1(3,4) assms(5) by auto
  then have "body_data q2 = None" by (simp add: body_data_def)
  then show ?thesis using q1(1) q2(1) after_end [OF q2(2)] by simp
qed

theorem http_req_body_dangles_witness:
  "\<exists>q. http_feed (2 ^ 64 - 1) [(1, butlast (request_text sample_request)), (2, ''k'')] http_req_new = Some (0, q) \<and> inited q \<and> body_data q = None"
  by (rule http_req_body_dangles [OF sample_good])
    (simp_all add: sample_request_def request_text_def head_end_def line_end_def line_text_def uri_text_def fields_text_def field_text_def)

subsection \<open>A URI without arguments\<close>

lemma slash_loop_none: "n < i \<Longrightarrow> n \<ge> length data \<Longrightarrow> slash_loop data i = None"
  by (cases i) (auto simp: byte_def)

lemma parse_uri_faults:
  assumes "CHR ''?'' \<notin> set uri" "uri = a # b # us" "b \<noteq> CHR '' ''" "um mod 2 ^ 32 = w" "w \<noteq> um" "length (uri @ rest) < w"
  shows "parse_uri um (uri @ rest) (length uri) = None"
proof -
  have fc: "find_char (CHR ''?'') uri = None" using assms(1) by (simp add: find_char_None)
  have byt: "byte (uri @ rest) 0 = Some a" "byte (uri @ rest) 1 = Some b" using assms(2) by (simp_all del: byte_append)
  have b0: "bytes (uri @ rest) 0 (length uri) = Some uri" by simp
  have "slash_loop (uri @ rest) w = None" by (rule slash_loop_none [of "length (uri @ rest)"]) (use assms(6) in auto)
  then show ?thesis
    unfolding parse_uri_def byt b0 assms(4) by (simp only: assms(3,5) fc Option.bind.simps option.simps if_False simp_thms if_cancel)
qed

lemma parse_uri_whole:
  assumes "CHR ''?'' \<notin> set uri" "uri = a # b # us" "b \<noteq> CHR '' ''" "um mod 2 ^ 32 = um" "length uri < um"
    "uri = p @ ''/'' @ f" "CHR ''/'' \<notin> set f"
  shows "parse_uri um (uri @ rest) (length uri) = Some (Inr (p, f, []))"
proof -
  have fc: "find_char (CHR ''?'') uri = None" using assms(1) by (simp add: find_char_None)
  have byt: "byte (uri @ rest) 0 = Some a" "byte (uri @ rest) 1 = Some b" using assms(2) by (simp_all del: byte_append)
  have b0: "bytes (uri @ rest) 0 (length uri) = Some uri" by simp
  have sl: "slash_loop (uri @ rest) (length uri) = Some (Some (length p))"
    using slash_loop_found [OF assms(7), of p rest] assms(6) by simp
  have b1: "bytes (uri @ rest) 0 (length p) = Some p" "bytes (uri @ rest) (length p + 1) (length uri - length p - 1) = Some f"
    using bytes_prefix [of p] bytes_mid [of _ "p @ ''/''" _ f rest] assms(6) by simp_all
  have ne: "length p \<noteq> um" using assms(5,6) by simp
  show ?thesis
    unfolding parse_uri_def byt b0 assms(4) by (simp only: assms(3) fc sl b1 ne Option.bind.simps option.simps if_True if_False simp_thms if_cancel)
qed

text \<open>A request URI without a query such as \<open>/a/b\<close>: with a 32-bit \<open>unsigned long\<close> it is split at its last slash; with a 64-bit one
  the marker \<open>ULONG_MAX\<close> does not survive its storage in an \<open>unsigned\<close>, and the search for the slash starts about 4 GB past the
  data and reads outside of it.\<close>
theorem parse_uri_no_query:
  assumes "CHR ''?'' \<notin> set uri" "uri = p @ ''/'' @ f" "CHR ''/'' \<notin> set f" "CHR '' '' \<notin> set uri" "2 \<le> length uri"
    "length (uri @ rest) < 2 ^ 32 - 1"
  shows "parse_uri (2 ^ 32 - 1) (uri @ rest) (length uri) = Some (Inr (p, f, [])) \<and> parse_uri (2 ^ 64 - 1) (uri @ rest) (length uri) = None"
proof -
  obtain a b us where ab: "uri = a # b # us" using assms(5) by (metis One_nat_def Suc_1 Suc_le_length_iff)
  then have nb: "b \<noteq> CHR '' ''" using assms(4) by auto
  have w: "(2 ^ 32 - 1) mod 2 ^ 32 = (2 ^ 32 - 1 :: nat)" "(2 ^ 64 - 1) mod 2 ^ 32 = (2 ^ 32 - 1 :: nat)" "2 ^ 32 - 1 \<noteq> (2 ^ 64 - 1 :: nat)" by simp_all
  have l: "length uri < 2 ^ 32 - 1" using assms(6) by simp
  show ?thesis
    using parse_uri_whole [OF assms(1) ab nb w(1) l assms(2,3), of rest] parse_uri_faults [OF assms(1) ab nb w(2,3) assms(6)] by (rule conjI)
qed

theorem parse_uri_no_query_witness:
  "parse_uri (2 ^ 32 - 1) (''/a/b'' @ '' HTTP/1.1'') (length ''/a/b'') = Some (Inr (''/a'', ''b'', [])) \<and>
   parse_uri (2 ^ 64 - 1) (''/a/b'' @ '' HTTP/1.1'') (length ''/a/b'') = None"
  by (rule parse_uri_no_query) simp_all

end
