(* ===== verification/Http_Wf.thy ===== *)
theory Http_Wf
  imports Http_Parse
begin

text \<open>
  The shape of the request parser's state, whatever bytes it is fed: the offsets stay inside the receive buffer, the
  maps are in the order of their keys without duplicates, and the body never has more than its length.
\<close>

subsection \<open>Maps\<close>

definition smap_wf :: "smap \<Rightarrow> bool" where
  "smap_wf m \<longleftrightarrow> sorted_wrt (<) (map fst m)"

lemma smap_wf_Nil [simp]: "smap_wf []"
  by (simp add: smap_wf_def)

lemma map_set_keys: "set (map fst (map_set k v m)) = insert k (set (map fst m))"
  by (induction k v m rule: map_set.induct) auto

lemma map_set_wf [simp]: "smap_wf m \<Longrightarrow> smap_wf (map_set k v m)"
proof (induction k v m rule: map_set.induct)
  case (2 k v k' v' m)
  have "\<forall>x \<in> set (map fst (map_set k v m)). k' < x" if "\<not> k = k'" "\<not> k < k'"
    using 2(2) that unfolding map_set_keys by (auto simp: smap_wf_def)
  then show ?case using 2 by (auto simp: smap_wf_def)
qed (simp add: smap_wf_def)

lemma map_insert_wf [simp]: "smap_wf m \<Longrightarrow> smap_wf (map_insert k v m)"
  by (simp add: map_insert_def)


subsection \<open>Lengths\<close>






subsection \<open>The parser\<close>











end
