(* ===== verification/Http_Reply.thy ===== *)
theory Http_Reply
  imports Http_Req
begin

text \<open>
  \<open>src/http_codec/http/http_respond.cpp\<close> and \<open>http_rsp.cpp\<close>: the responses, with the numbers in them.
\<close>

subsection \<open>Numbers\<close>

fun dec :: "nat \<Rightarrow> string" where
  "dec n = (if n < 10 then [char_of (48 + n)] else dec (n div 10) @ [char_of (48 + n mod 10)])"

declare dec.simps [simp del]

definition dec_int :: "int \<Rightarrow> string" where
  "dec_int i = (if i < 0 then CHR ''-'' # dec (nat (- i)) else dec (nat i))"

text \<open>\<open>atoi\<close> and \<open>atol\<close> of the memory \<open>s\<close> for a type that ends below \<open>lim\<close>; outside the type the result is undefined, and
  a number that runs to the end of the memory is read past it.\<close>

definition c_atoi :: "int \<Rightarrow> string \<Rightarrow> int option" where
  "c_atoi lim s =
     (let s = dropWhile isspace s; neg = (s \<noteq> [] \<and> hd s = CHR ''-'');
          s = (if s \<noteq> [] \<and> hd s \<in> {CHR ''-'', CHR ''+''} then tl s else s);
          n = int (dec_value (takeWhile is_digit s)); v = (if neg then - n else n) in
      if dropWhile is_digit s = [] then None else if - lim \<le> v \<and> v < lim then Some v else None)"

abbreviation (input) INT_LIM :: int where "INT_LIM \<equiv> 2 ^ 31"

subsection \<open>Responses\<close>

definition Forbidden :: "string \<Rightarrow> string \<Rightarrow> string" where
  "Forbidden http_body body_type =
     ''HTTP/1.1 403 Forbidden'' @ CRLF @ ''Content-Type: '' @ body_type @ CRLF @ ''Content-Length: '' @ dec (length http_body) @ CRLF @ CRLF @ http_body"

definition NotFound :: "int \<Rightarrow> string" where
  "NotFound error = take 199 (''HTTP/1.1 404 Not Found'' @ CRLF @ ''Server: httpserver'' @ CRLF @ ''Connection:close'' @ CRLF @
     ''Content-Length: 0'' @ CRLF @ ''error:'' @ dec_int error @ CRLF @ CRLF)"

definition BadRequest :: "int \<Rightarrow> string" where
  "BadRequest error = take 199 (''HTTP/1.1 400 Bad Request'' @ CRLF @ ''Server: httpserver'' @ CRLF @ ''Connection:close'' @ CRLF @
     ''Content-Length: 0'' @ CRLF @ ''error:'' @ dec_int error @ CRLF @ CRLF)"

definition last_modified :: string where
  "last_modified = ''Last-Modified: Thu, 14 Dec 2006 07:25:14 GMT'' @ CRLF"

definition NormalResponse :: "string \<Rightarrow> string \<Rightarrow> nat \<Rightarrow> string" where
  "NormalResponse http_body body_type mode =
     (if mode = 0 then ''HTTP/1.1 200 OK'' @ CRLF
      else if mode = 1 then ''HTTP/1.1 200 OK'' @ CRLF @ ''Server: httpserver'' @ CRLF @ last_modified @ ''Cache-Control: max-age=7200'' @ CRLF
      else ''HTTP/1.1 200 OK'' @ CRLF @ ''Server: httpserver'' @ CRLF @ last_modified @ ''Cache-Control: no-cache'' @ CRLF) @
     ''Content-Type: '' @ body_type @ CRLF @ ''Content-Length: '' @ dec (length http_body) @ CRLF @ CRLF @ http_body"

definition RedirectResponse :: "string \<Rightarrow> string" where
  "RedirectResponse location = ''HTTP/1.1 302 Moved Temporarily'' @ CRLF @ ''Server: httpserver'' @ CRLF @ ''Location: '' @ location @ CRLF @
     ''Cache-Control: max-age=7200'' @ CRLF @ ''Connection: close'' @ CRLF @ ''Content-Length: 0'' @ CRLF @ CRLF"

definition NotModified :: string where
  "NotModified = ''HTTP/1.1 304 Not Modified'' @ CRLF @ ''Cache-Control: max-age=7200'' @ CRLF @ ''Server: httpserver'' @ CRLF @
     ''Connection: close'' @ CRLF @ ''Content-Length: 0'' @ CRLF @ CRLF"

definition ServerBusy :: string where
  "ServerBusy = ''HTTP/1.1 500 Server Too Busy'' @ CRLF @ ''Cache-Control: max-age=7200'' @ CRLF @ ''Server: httpserver'' @ CRLF @
     ''Connection: close'' @ CRLF @ ''Content-Length: 0'' @ CRLF @ CRLF"

subsection \<open>A response object\<close>

record status_line =
  sl_line :: string
  http_version_primary :: nat
  http_version_seconday :: nat
  status_code :: nat

definition status_line_new :: status_line where
  "status_line_new = \<lparr>sl_line = [], http_version_primary = 1, http_version_seconday = 0, status_code = 200\<rparr>"

definition make_line :: "status_line \<Rightarrow> status_line" where
  "make_line s = s\<lparr>sl_line := ''HTTP/'' @ dec (http_version_primary s) @ ''.'' @ dec (http_version_seconday s) @ '' '' @ dec (status_code s) @ CRLF\<rparr>"

text \<open>The body's buffer is the memory at \<open>_buf\<close>.\<close>

record rsp_body =
  rb_buf :: string
  rb_data_len :: nat

record http_rsp =
  rsp_status :: status_line
  rsp_header :: http_header
  rsp_body :: rsp_body

definition simple_rsp :: "nat \<Rightarrow> http_rsp \<Rightarrow> int \<times> http_rsp" where
  "simple_rsp code r = (0, r\<lparr>rsp_status := make_line ((rsp_status r)\<lparr>status_code := code, http_version_primary := 1, http_version_seconday := 0\<rparr>)\<rparr>)"

text \<open>The return code, the bytes in the buffer of \<open>room\<close> bytes, \<open>data_len\<close> and the object; a write past the buffer is \<open>None\<close>.\<close>

definition rsp_output :: "nat \<Rightarrow> http_rsp \<Rightarrow> (int \<times> string \<times> nat \<times> http_rsp) option" where
  "rsp_output room r =
     (let r = r\<lparr>rsp_status := make_line (rsp_status r)\<rparr>; line = sl_line (rsp_status r) in
      if length line > room then None
      else case header_output (rsp_header r) (room - length line) of
        None \<Rightarrow> None
      | Some (Inl ret) \<Rightarrow> Some (ret, line, 0, r)
      | Some (Inr out) \<Rightarrow> do {
          b \<leftarrow> bytes (rb_buf (rsp_body r)) 0 (rb_data_len (rsp_body r));
          if length line + length out + length b > room then None else Some (0, line @ out @ b, length out, r)
        })"

end
