(* ===== verification/Http_Util.thy ===== *)
theory Http_Util
  imports Http_Reply
begin

text \<open>
  \<open>src/http_codec/http/http_util.cpp\<close>: the makers of requests and responses, the length of a message, and the parser of a
  whole message. A C string in a buffer is given by its characters up to the zero; an access outside a
  buffer is \<open>None\<close>. A buffer of the caller has the room that is passed with it.
\<close>

subsection \<open>Responses\<close>

text \<open>\<open>make\<close> gives the result and the text in the buffer.\<close>

definition response_make :: "string \<Rightarrow> int \<Rightarrow> nat \<Rightarrow> string \<Rightarrow> (nat \<times> string) option" where
  "response_make content n room content_type =
     (let real = (if n > 0 then n else 0);
          head = ''HTTP/1.1 200 OK'' @ CRLF @ ''Content-Length: '' @ dec_int real @ CRLF @ ''Content-Type: '' @ content_type @
            '';charset=utf-8'' @ CRLF @ ''Connection: Keep-Alive'' @ CRLF @ CRLF in
      if length head + 1 > room then None
      else if n > 0 then do {
        c \<leftarrow> bytes content 0 (nat n);
        if length head + nat n + 1 > room then None else Some (length (cstr (head @ c)), head @ c)
      } else Some (length head, head))"

definition make_string :: "string \<Rightarrow> string \<Rightarrow> string \<Rightarrow> string" where
  "make_string content content_type add_head = ''HTTP/1.1 200 OK'' @ CRLF @ ''Content-Length: '' @ dec (length content) @ CRLF @
     ''Content-Type: '' @ content_type @ '';charset=utf-8'' @ CRLF @ add_head @ CRLF @ content"

definition msie_padding :: string where
  "msie_padding = ''<!-- The padding to disable MSIE'' @ [CHR 0x27] @ ''s friendly error page -->''"

definition page_404 :: string where
  "page_404 = ''<html>'' @ CRLF @ ''<head><title>404 Not Found</title></head>'' @ CRLF @ ''<body bgcolor='' @ [CHR 0x22] @ ''white'' @ [CHR 0x22] @ ''>'' @ CRLF @
     ''<center><h1>404 Not Found</h1></center>'' @ CRLF @ ''<hr><center>http_util</center>'' @ CRLF @ ''</body>'' @ CRLF @ ''</html>'' @ CRLF @
     msie_padding @ msie_padding @ msie_padding @ msie_padding @ msie_padding @ msie_padding"

definition make_404_error :: string where
  "make_404_error = ''HTTP/1.1 404 Not Found'' @ CRLF @ ''Server: http_util'' @ CRLF @ ''Content-Type: text/html; charset=UTF-8'' @ CRLF @
     ''Content-Length: '' @ dec (length page_404) @ CRLF @ ''Connection: keep-alive'' @ CRLF @ CRLF @ page_404"

definition page_302 :: "string \<Rightarrow> string" where
  "page_302 move_to = ''<html><head><title>Object moved</title></head><body>'' @ CRLF @ ''<h2>Object moved to <a href='' @ [CHR 0x22] @ move_to @
     [CHR 0x22] @ ''>here</a>.</h2>'' @ CRLF @ ''</body></html>'' @ CRLF"

definition make_302_error :: "string \<Rightarrow> string \<Rightarrow> string" where
  "make_302_error location move_to = ''HTTP/1.1 302 Found'' @ CRLF @ ''Server: http_util'' @ CRLF @ ''Content-Type: text/html; charset=UTF-8'' @ CRLF @
     ''Content-Length: '' @ dec (length (page_302 move_to)) @ CRLF @ ''Connection: keep-alive'' @ CRLF @ ''Location: '' @ location @ CRLF @ CRLF @
     page_302 move_to"

subsection \<open>Requests\<close>

record param_maker =
  m_params :: "(string \<times> string) list"
  m_strParamLines :: string

definition param_maker_new :: param_maker where
  "param_maker_new = \<lparr>m_params = [], m_strParamLines = []\<rparr>"

definition add_param :: "string \<Rightarrow> string \<Rightarrow> param_maker \<Rightarrow> param_maker" where
  "add_param k v pm = pm\<lparr>m_params := m_params pm @ [(k, v)]\<rparr>"

definition add_param_int :: "string \<Rightarrow> int \<Rightarrow> param_maker \<Rightarrow> param_maker" where
  "add_param_int k n pm = add_param k (dec (nat (n mod 2 ^ 32))) pm"

definition set_paramlines :: "string \<Rightarrow> param_maker \<Rightarrow> param_maker" where
  "set_paramlines s pm = pm\<lparr>m_strParamLines := s\<rparr>"

fun params_loop :: "(string \<times> string) list \<Rightarrow> string \<Rightarrow> string option" where
  "params_loop [] out = Some out"
| "params_loop ((k, v) # ps) out =
     (let tmp = cstr k @ ''='' @ cstr v @ ''&'' in
      if length tmp + 1 > 1024 \<or> length out + length tmp + 1 > 4096 then None else params_loop ps (out @ tmp))"

text \<open>Without a parameter the character before \<open>szParams\<close> is read.\<close>

definition get_params :: "param_maker \<Rightarrow> string option" where
  "get_params pm =
     (if m_strParamLines pm \<noteq> [] then Some (m_strParamLines pm)
      else do { s \<leftarrow> params_loop (m_params pm) []; if s = [] then None else Some (if last s = CHR ''&'' then butlast s else s) })"

definition port_text :: "nat \<Rightarrow> string" where
  "port_text port = (if port \<noteq> 80 then '':'' @ dec port else [])"

definition GET_make :: "string \<Rightarrow> nat \<Rightarrow> string \<Rightarrow> nat \<Rightarrow> param_maker \<Rightarrow> (nat \<times> string) option" where
  "GET_make host port uri room pm = do {
     ps \<leftarrow> get_params pm;
     s \<leftarrow> Some (''GET '' @ cstr uri @ ''?'' @ cstr ps @ '' HTTP/1.1'' @ CRLF @ ''Host: '' @ cstr host @ port_text port @ CRLF @
       ''Connection: Keep-Alive'' @ CRLF @ ''Accept: */*'' @ CRLF @ ''User-Agent: http_util'' @ CRLF @ CRLF);
     if length s + 1 > room then None else Some (length s, s)
   }"

definition GET_make_string :: "string \<Rightarrow> nat \<Rightarrow> string \<Rightarrow> param_maker \<Rightarrow> string option" where
  "GET_make_string host port uri pm = map_option snd (GET_make host port uri 4096 pm)"

definition POST_make :: "string \<Rightarrow> nat \<Rightarrow> string \<Rightarrow> nat \<Rightarrow> param_maker \<Rightarrow> (nat \<times> string) option" where
  "POST_make host port uri room pm = do {
     ps \<leftarrow> get_params pm;
     s \<leftarrow> Some (''POST '' @ cstr uri @ '' HTTP/1.1'' @ CRLF @ ''Host: '' @ cstr host @ port_text port @ CRLF @
       ''Content-type: application/x-www-form-urlencoded; charset=UTF-8'' @ CRLF @ ''Content-Length: '' @ dec_int (signed_take_bit 31 (int (length ps))) @ CRLF @
       ''Connection: Keep-Alive'' @ CRLF @ CRLF @ cstr ps);
     if length s + 1 > room then None else Some (length s, s)
   }"

definition POST_make_string :: "string \<Rightarrow> nat \<Rightarrow> string \<Rightarrow> param_maker \<Rightarrow> string option" where
  "POST_make_string host port uri pm = map_option snd (POST_make host port uri 4096 pm)"

definition maker_make :: "string \<Rightarrow> nat \<Rightarrow> string \<Rightarrow> nat \<Rightarrow> param_maker \<Rightarrow> (nat \<times> string) option" where
  "maker_make = GET_make"

definition maker_make_string :: "string \<Rightarrow> nat \<Rightarrow> string \<Rightarrow> param_maker \<Rightarrow> string option" where
  "maker_make_string = GET_make_string"

subsection \<open>The length of a message\<close>

definition memcmp_eq :: "string \<Rightarrow> string \<Rightarrow> bool option" where
  "memcmp_eq data pat = (if length pat \<le> length data then Some (prefix pat data) else None)"

text \<open>The number is copied to an array of 30 zeros; it has to leave one of them.\<close>

definition content_number :: "string \<Rightarrow> nat \<Rightarrow> int option" where
  "content_number p e = do { s \<leftarrow> bytes p 0 e; if e \<ge> 30 then None else c_atoi INT_LIM (s @ replicate (30 - e) ZERO) }"

text \<open>\<open>get_length_ex\<close> on the memory at \<open>szData\<close>: the result and the two reference arguments, which keep their values when it returns early.\<close>

definition get_length_ex :: "string \<Rightarrow> int \<Rightarrow> int \<Rightarrow> int \<Rightarrow> (int \<times> int \<times> int) option" where
  "get_length_ex szData nDataLen pos len = do {
     g \<leftarrow> memcmp_eq szData ''GET '';
     p \<leftarrow> (if g then Some False else memcmp_eq szData ''POST '');
     r \<leftarrow> (if g \<or> p then Some False else memcmp_eq szData ''HTTP/'');
     if \<not> g \<and> \<not> p \<and> \<not> r then Some (-1, pos, len)
     else do {
       e \<leftarrow> c_strstr (CRLF @ CRLF) szData;
       case e of None \<Rightarrow> Some (0, pos, len)
       | Some e \<Rightarrow> do {
         (pos, len) \<leftarrow> (if g then Some (0, 0)
           else do {
             c \<leftarrow> c_strstr ''Content-Length: '' szData;
             case c of None \<Rightarrow> Some (0, 0)
             | Some c \<Rightarrow> do {
               d \<leftarrow> Some (drop (c + 16) szData);
               l \<leftarrow> c_strstr CRLF d;
               case l of None \<Rightarrow> Some (0, 0)
               | Some l \<Rightarrow> do { n \<leftarrow> content_number d l; Some (int e + 4, n) } } });
         nTotal \<leftarrow> Some (int e + 4 + len);
         if nTotal \<ge> INT_LIM then None
         else if nDataLen < nTotal then Some (0, pos, len) else Some (nTotal, pos, len)
       }
     }
   }"

definition get_length :: "string \<Rightarrow> int \<Rightarrow> int option" where
  "get_length szData nDataLen = map_option fst (get_length_ex szData nDataLen 0 0)"

subsection \<open>Parameters\<close>

definition letter :: "char \<Rightarrow> bool" where
  "letter c \<longleftrightarrow> (let n = of_char c :: nat in 97 \<le> n \<and> n \<le> 122 \<or> 65 \<le> n \<and> n \<le> 90)"

text \<open>The loop of \<open>parse\<close> over the C string \<open>s\<close>; \<open>al\<close> says which calls of \<open>new\<close> fail (\<open>False\<close>), the calls after its end succeed.\<close>

function params_scan :: "bool list \<Rightarrow> string \<Rightarrow> smap \<Rightarrow> bool \<times> smap" where
  "params_scan al s m =
     (case s of [] \<Rightarrow> (True, m)
      | c # s' \<Rightarrow>
        if \<not> letter c then params_scan al s' m
        else case find_char (CHR ''='') s of None \<Rightarrow> (True, m)
        | Some v \<Rightarrow> (case find_char (CHR ''&'') s of None \<Rightarrow> (True, m)
          | Some p \<Rightarrow>
            if al \<noteq> [] \<and> \<not> hd al then (False, m)
            else let key = take v s; val = (if p > v + 1 then take (p - v - 1) (drop (v + 1) s) else []) in
              params_scan (tl al) (drop (p + 1) s) (if key \<noteq> [] then map_insert key val m else m)))"
  by pat_completeness auto
termination
  by (relation "measure (\<lambda>(al, s, m). length s)") auto

declare params_scan.simps [simp del]

definition param_parse :: "bool list \<Rightarrow> string \<Rightarrow> int \<Rightarrow> smap \<Rightarrow> (bool \<times> smap) option" where
  "param_parse al param n m =
     (if n < 0 then None
      else if al \<noteq> [] \<and> \<not> hd al then Some (False, m)
      else do {
        d \<leftarrow> bytes param 0 (nat n);
        s \<leftarrow> Some (cstr d);
        if s = [] then None
        else Some (params_scan (tl al) (if last s \<noteq> CHR ''&'' then s @ ''&'' else s) m)
      })"

text \<open>The constructor; no text is \<open>None\<close>.\<close>

definition param_parser_new :: "bool list \<Rightarrow> string option \<Rightarrow> int \<Rightarrow> smap option" where
  "param_parser_new al param n = (case param of Some s \<Rightarrow> if n > 0 then map_option snd (param_parse al s n []) else Some [] | None \<Rightarrow> Some [])"

definition parser_get_param :: "smap \<Rightarrow> string \<Rightarrow> string" where
  "parser_get_param m key = (case map_of m key of Some v \<Rightarrow> v | None \<Rightarrow> [])"

definition parser_get_param_int :: "smap \<Rightarrow> string \<Rightarrow> int option" where
  "parser_get_param_int m key = c_atoi INT_LIM (parser_get_param m key @ [ZERO])"

subsection \<open>Decoding of a URL\<close>

text \<open>The codes that are left as they are.\<close>

definition url_kept :: "int \<Rightarrow> bool" where
  "url_kept hex \<longleftrightarrow> 48 \<le> hex \<and> hex \<le> 57 \<or> 97 \<le> hex \<and> hex \<le> 122 \<or> 65 \<le> hex \<and> hex \<le> 90 \<or>
     hex \<in> {0x21, 0x24, 0x26, 0x27, 0x28, 0x29, 0x2a, 0x2b, 0x2c, 0x2d, 0x2e, 0x2f, 0x3a, 0x3b, 0x3d, 0x3f, 0x40, 0x5f}"

fun UrlDecode :: "string \<Rightarrow> string" where
  "UrlDecode [] = []"
| "UrlDecode (c # cs) =
     (if c = CHR ''+'' then CHR '' '' # UrlDecode cs
      else if c = CHR ''%'' then
        (case cs of a # b # rest \<Rightarrow>
           if hexval a \<noteq> None \<and> hexval b \<noteq> None \<and> \<not> url_kept (strtol16 [a, b]) then char_of (strtol16 [a, b]) # UrlDecode rest
           else CHR ''%'' # UrlDecode cs
         | _ \<Rightarrow> CHR ''%'' # UrlDecode cs)
      else c # UrlDecode cs)"

subsection \<open>The parser of a message\<close>

datatype HttpMethodType = HTTP_UTIL_METHOD_NONE | HTTP_UTIL_METHOD_GET | HTTP_UTIL_METHOD_POST | HTTP_UTIL_METHOD_RESP

datatype HttpParamType = HTTP_UTIL_PARAM_ALL | HTTP_UTIL_PARAM_HEADPARAM | HTTP_UTIL_PARAM_CONTENT

text \<open>\<open>m_szFirstLine\<close> is the array up to the first zero behind the line; URI and parameters are offsets in it. The content is the
  memory from its pointer on.\<close>

record http_parser =
  m_mapFields :: smap
  m_szFirstLine :: string
  m_pszContent :: "string option"
  m_nContentLen :: int
  m_nHttpMethod :: HttpMethodType
  m_pszUri :: "nat option"
  m_pszActParam :: "nat option"
  m_paramParser :: smap
  m_nExtraParamType :: HttpParamType

definition parser_blank :: http_parser where
  "parser_blank = \<lparr>m_mapFields = [], m_szFirstLine = [ZERO], m_pszContent = None, m_nContentLen = 0, m_nHttpMethod = HTTP_UTIL_METHOD_NONE,
     m_pszUri = None, m_pszActParam = None, m_paramParser = [], m_nExtraParamType = HTTP_UTIL_PARAM_ALL\<rparr>"

function fields_loop :: "string \<Rightarrow> int \<Rightarrow> nat \<Rightarrow> smap \<Rightarrow> (nat \<times> smap) option" where
  "fields_loop req nTotal p m =
     (if int p > nTotal - 4 then Some (p, m)
      else do {
        nl \<leftarrow> memcmp_eq (drop p req) CRLF;
        if nl then Some (p, m)
        else do {
          e \<leftarrow> c_strstr CRLF (drop p req);
          case e of None \<Rightarrow> Some (p, m)
          | Some l \<Rightarrow> do {
            line \<leftarrow> Some (take l (drop p req));
            c \<leftarrow> c_strstr '': '' (line @ [ZERO]);
            case c of None \<Rightarrow> Some (p, m)
            | Some i \<Rightarrow> fields_loop req nTotal (p + l + 2) (map_insert (take i line) (drop (i + 2) line) m) } } })"
  by pat_completeness auto
termination
  by (relation "measure (\<lambda>(req, nTotal, p, m). nat (nTotal - int p))") auto

declare fields_loop.simps [simp del]

text \<open>A first line of 4095 characters leaves no zero in its array.\<close>

definition parseField :: "string \<Rightarrow> int \<Rightarrow> http_parser \<Rightarrow> (bool \<times> http_parser) option" where
  "parseField req nTotal p = do {
     e \<leftarrow> c_strstr CRLF req;
     case e of None \<Rightarrow> Some (False, p)
     | Some e \<Rightarrow>
       if e \<ge> 4095 then None
       else do {
         p \<leftarrow> Some (p\<lparr>m_szFirstLine := take e req @ [ZERO]\<rparr>);
         (q, m) \<leftarrow> fields_loop req nTotal (e + 2) (m_mapFields p);
         p \<leftarrow> Some (p\<lparr>m_mapFields := m\<rparr>);
         Some (True, if int (q + 2) < nTotal then p\<lparr>m_pszContent := Some (drop (q + 2) req)\<rparr> else p)
       }
   }"

definition parseMethod :: "string \<Rightarrow> HttpMethodType \<Rightarrow> http_parser \<Rightarrow> bool \<times> http_parser" where
  "parseMethod method type p =
     (if prefix method (m_szFirstLine p) then
        (case c_strstr '' HTTP'' (m_szFirstLine p) of
           Some (Some i) \<Rightarrow> (True, p\<lparr>m_szFirstLine := (m_szFirstLine p)[i := ZERO], m_nHttpMethod := type\<rparr>)
         | _ \<Rightarrow> (False, p))
      else (False, p))"

text \<open>The loop that looks for the method; it ends only when it finds one. The result is the offset behind it.\<close>

partial_function (option) method_loop :: "http_parser \<Rightarrow> (nat \<times> http_parser) option" where
  [code]: "method_loop p =
     (if fst (parseMethod ''GET '' HTTP_UTIL_METHOD_GET p) then Some (4, snd (parseMethod ''GET '' HTTP_UTIL_METHOD_GET p))
      else if fst (parseMethod ''POST '' HTTP_UTIL_METHOD_POST p) then Some (5, snd (parseMethod ''POST '' HTTP_UTIL_METHOD_POST p))
      else if fst (parseMethod ''HTTP/'' HTTP_UTIL_METHOD_RESP p) then Some (5, snd (parseMethod ''HTTP/'' HTTP_UTIL_METHOD_RESP p))
      else method_loop p)"

definition parseFirstLine :: "http_parser \<Rightarrow> (bool \<times> http_parser) option" where
  "parseFirstLine p =
     (if length (cstr (m_szFirstLine p)) < 10 then Some (False, p)
      else do {
        (b, p) \<leftarrow> method_loop p;
        if m_nHttpMethod p = HTTP_UTIL_METHOD_NONE then Some (False, p)
        else do {
          p \<leftarrow> Some (case find_char (CHR ''?'') (cstr (drop b (m_szFirstLine p))) of
            Some i \<Rightarrow> p\<lparr>m_szFirstLine := (m_szFirstLine p)[b + i := ZERO], m_pszActParam := Some (b + i + 1)\<rparr>
          | None \<Rightarrow> p);
          Some (True, p\<lparr>m_pszUri := Some b\<rparr>)
        }
      })"

definition parse_head :: "bool list \<Rightarrow> string \<Rightarrow> int \<Rightarrow> HttpParamType \<Rightarrow> http_parser \<Rightarrow> (int \<times> http_parser) option" where
  "parse_head al req n type p = do {
     p \<leftarrow> Some (p\<lparr>m_nExtraParamType := type\<rparr>);
     (nTotal, pos, len) \<leftarrow> get_length_ex req n 0 (m_nContentLen p);
     p \<leftarrow> Some (p\<lparr>m_nContentLen := len\<rparr>);
     if nTotal \<le> 0 then Some (nTotal, p)
     else do {
       (ok, p) \<leftarrow> parseField req nTotal p;
       if \<not> ok then Some (-1, p)
       else do {
         (ok, p) \<leftarrow> parseFirstLine p;
         if \<not> ok then Some (-1, p)
         else case m_pszActParam p of None \<Rightarrow> Some (nTotal, p)
         | Some a \<Rightarrow>
           if type = HTTP_UTIL_PARAM_ALL \<or> type = HTTP_UTIL_PARAM_HEADPARAM then do {
             s \<leftarrow> Some (cstr (drop a (m_szFirstLine p)));
             (ok, m) \<leftarrow> param_parse al s (int (length s)) (m_paramParser p);
             Some (nTotal, p\<lparr>m_paramParser := m\<rparr>)
           } else Some (nTotal, p)
       }
     }
   }"

text \<open>The constructor ends by cutting the first line; a length that is not positive fails its assertion.\<close>

definition http_parser_new :: "bool list \<Rightarrow> (string \<times> int \<times> HttpParamType) option \<Rightarrow> http_parser option" where
  "http_parser_new al req = do {
     p \<leftarrow> (case req of None \<Rightarrow> Some parser_blank
       | Some (s, n, type) \<Rightarrow> if n > 0 then map_option snd (parse_head al s n type parser_blank) else None);
     Some (p\<lparr>m_szFirstLine := (m_szFirstLine p)[0 := ZERO]\<rparr>)
   }"

definition parse_form_body :: "bool list \<Rightarrow> http_parser \<Rightarrow> http_parser option" where
  "parse_form_body al p =
     (case m_pszContent p of None \<Rightarrow> Some p
      | Some c \<Rightarrow> do { (ok, m) \<leftarrow> param_parse al c (m_nContentLen p) (m_paramParser p); Some (p\<lparr>m_paramParser := m\<rparr>) })"

definition get_head_field :: "http_parser \<Rightarrow> string \<Rightarrow> string" where
  "get_head_field p name = (case map_of (m_mapFields p) name of Some v \<Rightarrow> v | None \<Rightarrow> [])"

definition get_cookie :: "http_parser \<Rightarrow> string" where
  "get_cookie p = get_head_field p ''Cookie''"

definition http_get_param :: "http_parser \<Rightarrow> string \<Rightarrow> string" where
  "http_get_param p key = parser_get_param (m_paramParser p) key"

definition http_get_param_int :: "http_parser \<Rightarrow> string \<Rightarrow> int option" where
  "http_get_param_int p key = parser_get_param_int (m_paramParser p) key"

text \<open>A conversion of a C string to a \<open>string\<close>, which needs a zero in the memory.\<close>

definition c_string :: "string \<Rightarrow> string option" where
  "c_string m = (if ZERO \<in> set m then Some (cstr m) else None)"

definition get_param_string :: "http_parser \<Rightarrow> string option" where
  "get_param_string p =
     (let t = m_nExtraParamType p in
      if m_pszActParam p \<noteq> None \<and> (t = HTTP_UTIL_PARAM_ALL \<or> t = HTTP_UTIL_PARAM_HEADPARAM) then c_string (drop (the (m_pszActParam p)) (m_szFirstLine p))
      else if m_pszContent p \<noteq> None \<and> (t = HTTP_UTIL_PARAM_ALL \<or> t = HTTP_UTIL_PARAM_CONTENT) then c_string (the (m_pszContent p))
      else Some [])"

definition get_uri :: "http_parser \<Rightarrow> string option" where
  "get_uri p = (case m_pszUri p of None \<Rightarrow> Some [] | Some u \<Rightarrow> c_string (drop u (m_szFirstLine p)))"

definition get_object :: "http_parser \<Rightarrow> string option" where
  "get_object p = (case m_pszUri p of None \<Rightarrow> Some []
     | Some u \<Rightarrow> do { s \<leftarrow> c_string (drop u (m_szFirstLine p));
         Some (if CHR ''/'' \<in> set s then rev (takeWhile (\<lambda>c. c \<noteq> CHR ''/'') (rev s)) else []) })"

end
