(* ===== verification/Http_Codec.thy ===== *)
theory Http_Codec
  imports Http_Reply
begin

text \<open>
  \<open>src/http_codec/api/http_server_codec.cpp\<close>: the end of a message and the requests and responses of the example services.
  \<open>json\<close> stands for \<open>toStyledString\<close> of the JSON object with the one member that is given.
\<close>

subsection \<open>The end of a message\<close>

definition tolower :: "char \<Rightarrow> char" where
  "tolower c = (let n = of_char c :: nat in if 65 \<le> n \<and> n \<le> 90 then char_of (n + 32) else c)"

text \<open>The inner loop: \<open>k\<close> characters have matched so far.\<close>

fun match_here :: "string \<Rightarrow> string \<Rightarrow> bool" where
  "match_here src [] = True"
| "match_here [] (m # ms) = False"
| "match_here (c # cs) (m # ms) = (tolower c = tolower m \<and> match_here cs ms)"

fun match_from :: "string \<Rightarrow> string \<Rightarrow> nat option" where
  "match_from [] m = None"
| "match_from (c # cs) m = (if match_here (c # cs) m then Some 0 else map_option Suc (match_from cs m))"

definition match_str_begin :: "string \<Rightarrow> nat \<Rightarrow> string \<Rightarrow> nat option option" where
  "match_str_begin src srclen matchstr =
     (if srclen = 0 \<or> matchstr = [] then Some None else do { s \<leftarrow> bytes src 0 srclen; Some (match_from s matchstr) })"

text \<open>The data at \<open>p_data\<close>; the number after \<open>Content-Length:\<close> is read up to its end, also past \<open>n\<close>.\<close>

definition http_complete_func :: "string \<Rightarrow> nat \<Rightarrow> int option" where
  "http_complete_func p_data n =
     (if n < 4 then Some 0
      else do {
        e \<leftarrow> match_str_begin p_data n (CRLF @ CRLF);
        h \<leftarrow> (case e of Some e \<Rightarrow> Some (Some (e + 4))
          | None \<Rightarrow> do { e \<leftarrow> match_str_begin p_data n [LF, LF]; Some (map_option (\<lambda>e. e + 2) e) });
        case h of None \<Rightarrow> Some 0
        | Some head_len \<Rightarrow> do {
          c \<leftarrow> match_str_begin p_data n ''Content-Length:'';
          case c of None \<Rightarrow> Some (int head_len)
          | Some c \<Rightarrow> do {
            content_length \<leftarrow> c_atoi INT_LIM (drop (c + 15) p_data);
            if content_length + int head_len \<ge> INT_LIM then None
            else if int n < content_length + int head_len then Some 0 else Some (content_length + int head_len)
          }
        }
      })"

subsection \<open>Requests\<close>

abbreviation (input) MAX_BUFFER_SIZE :: nat where "MAX_BUFFER_SIZE \<equiv> 24 * 1024 * 1024"

definition ERR_MAX_BUFFER :: int where "ERR_MAX_BUFFER = -100"
definition ERR_HTTP_DECODE :: int where "ERR_HTTP_DECODE = -101"
definition ERR_HTTP_CMD_TYPE :: int where "ERR_HTTP_CMD_TYPE = -102"
definition ARG_RETCODE :: string where "ARG_RETCODE = ''retcode''"
definition HTTP_CONTENT_TYPE_BINARY :: string where "HTTP_CONTENT_TYPE_BINARY = ''application/octet-stream''"
definition HTTP_CONTENT_TYPE_HTML :: string where "HTTP_CONTENT_TYPE_HTML = ''text/html''"

definition get_cmd_string :: "http_req \<Rightarrow> string" where
  "get_cmd_string q = rl_file (req_line q)"

definition get_argu :: "http_req \<Rightarrow> string \<Rightarrow> string" where
  "get_argu q argu = line_get (req_line q) argu"

text \<open>\<open>proto\<close> says whether the program is compiled with \<open>_USE_HTTP_PROTO_\<close>; \<open>a\<close> is the address of a new receive buffer.\<close>

definition decode_head :: "nat \<Rightarrow> bool \<Rightarrow> ptr \<Rightarrow> string \<Rightarrow> http_req \<Rightarrow> (int \<times> http_req) option" where
  "decode_head ulong_max proto a buffer q =
     (if length buffer > MAX_BUFFER_SIZE then Some (ERR_MAX_BUFFER, q)
      else do {
        (ret, q) \<leftarrow> http_input ulong_max a buffer q;
        Some (if ret \<noteq> 0 \<or> \<not> inited q then ERR_HTTP_DECODE
          else if \<not> proto \<and> get_cmd_string q = [] then ERR_HTTP_CMD_TYPE else 0, q)
      })"

definition decode_download_file_req :: "http_req \<Rightarrow> int \<times> string" where
  "decode_download_file_req q = (if get_cmd_string q \<noteq> ''download'' then (-1, []) else (0, get_argu q ''fname''))"

text \<open>The previous \<open>fdata\<close> is kept when the command is another one.\<close>

definition decode_upload_file_req :: "http_req \<Rightarrow> string \<Rightarrow> (int \<times> string \<times> string) option" where
  "decode_upload_file_req q fdata =
     (if get_cmd_string q \<noteq> ''upload'' then Some (-1, [], fdata)
      else do { d \<leftarrow> body_data q; Some (0, get_argu q ''fname'', d) })"

definition decode_sendfile_download_file_req :: "nat \<Rightarrow> http_req \<Rightarrow> int \<times> nat \<Rightarrow> (int \<times> string \<times> int \<times> nat) option" where
  "decode_sendfile_download_file_req ulong_max q old =
     (if get_cmd_string q \<noteq> ''download'' then Some (-1, [], old)
      else do {
        offset \<leftarrow> c_atoi (int (ulong_max div 2) + 1) (get_argu q ''offset'' @ [ZERO]);
        len \<leftarrow> c_atoi (int (ulong_max div 2) + 1) (get_argu q ''size'' @ [ZERO]);
        Some (0, get_argu q ''fname'', offset, nat (len mod 2 ^ 32))
      })"

definition decode_async_proxy_req :: "http_req \<Rightarrow> int \<times> string" where
  "decode_async_proxy_req q = (if get_cmd_string q \<noteq> ''echo'' then (-1, []) else (0, get_argu q ''text''))"

definition decode_web_upload_req :: "http_req \<Rightarrow> (int \<times> string \<times> string) option" where
  "decode_web_upload_req q = do { d \<leftarrow> body_data q; Some (0, get_argu q ''fname'', d) }"

subsection \<open>Responses\<close>

definition encode_download_file_rsp :: "(string \<Rightarrow> string \<Rightarrow> string) \<Rightarrow> int \<Rightarrow> string \<Rightarrow> string" where
  "encode_download_file_rsp json retcode fdata =
     (if retcode \<noteq> 0 then Forbidden (json ARG_RETCODE (dec_int retcode)) HTTP_CONTENT_TYPE_HTML
      else NormalResponse fdata HTTP_CONTENT_TYPE_HTML 0)"

definition encode_upload_file_rsp :: "(string \<Rightarrow> string \<Rightarrow> string) \<Rightarrow> int \<Rightarrow> string" where
  "encode_upload_file_rsp json retcode = NormalResponse (json ARG_RETCODE (dec_int retcode)) HTTP_CONTENT_TYPE_HTML 0"

definition encode_sendfile_download_file_rsp :: "(string \<Rightarrow> string \<Rightarrow> string) \<Rightarrow> int \<Rightarrow> nat \<Rightarrow> string" where
  "encode_sendfile_download_file_rsp json retcode filelen =
     (if retcode \<noteq> 0 \<or> filelen = 0 then Forbidden (json ARG_RETCODE (dec_int retcode)) HTTP_CONTENT_TYPE_HTML
      else ''HTTP/1.1 200 OK'' @ CRLF @ ''Content-Type: text/html'' @ CRLF @ ''Content-Length: '' @ dec filelen @ CRLF @ CRLF)"

definition encode_async_proxy_rsp :: "string \<Rightarrow> string" where
  "encode_async_proxy_rsp wen = NormalResponse wen HTTP_CONTENT_TYPE_HTML 0"

definition encode_back_proto :: "int \<Rightarrow> nat \<Rightarrow> string \<Rightarrow> string" where
  "encode_back_proto ret flow rsp = ''GET / HTTP/1.0'' @ CRLF @ ''RetCode: '' @ dec_int ret @ CRLF @ ''FlowNo: '' @ dec flow @ CRLF @
     ''Content-Length: '' @ dec (length rsp) @ CRLF @ CRLF @ rsp"

definition encode_web_upload_rsp :: "string \<Rightarrow> string" where
  "encode_web_upload_rsp data = NormalResponse data HTTP_CONTENT_TYPE_BINARY 0"

end
