(* ===== verification/Http_Codec_Correct.thy ===== *)
theory Http_Codec_Correct
  imports Http_Parse Http_Util Http_Codec
begin

text \<open>
  The messages the library makes against the functions that read them: lengths, framing, parameters
  and the example services.
\<close>

subsection \<open>Numbers\<close>

lemma of_char_digit: "(d :: nat) < 10 \<Longrightarrow> (of_char (char_of (48 + d) :: char) :: nat) = 48 + d"
  by (simp add: of_char_of)

lemma is_digit_char: "(d :: nat) < 10 \<Longrightarrow> is_digit (char_of (48 + d))"
  by (simp add: is_digit_def of_char_digit)

lemma dec_digits: "\<forall>c \<in> set (dec n). is_digit c"
  by (induction n rule: dec.induct) (subst dec.simps, simp add: is_digit_char)

lemma dec_ne [simp]: "dec n \<noteq> []"
  by (subst dec.simps) simp

lemma dec_value_snoc: "dec_value (xs @ [c]) = 10 * dec_value xs + (of_char c - 48)"
  by (simp add: dec_value_def)

lemma dec_value_dec: "dec_value (dec n) = n"
proof (induction n rule: dec.induct)
  case (1 n)
  show ?case
  proof (cases "n < 10")
    case True
    then show ?thesis by (subst dec.simps) (simp add: dec_value_def of_char_digit)
  next
    case False
    then have "dec_value (dec n) = 10 * dec_value (dec (n div 10)) + n mod 10"
      by (subst dec.simps) (simp add: dec_value_snoc of_char_digit)
    then show ?thesis using 1 False by simp
  qed
qed

lemma digit_plain: "is_digit c \<Longrightarrow> \<not> isspace c \<and> c \<noteq> CHR ''-'' \<and> c \<noteq> CHR ''+'' \<and> c \<noteq> CR \<and> c \<noteq> ZERO \<and> c \<noteq> LF"
  by (auto simp: is_digit_def isspace_def)

lemma dec_hd: "\<exists>c cs. dec n = c # cs \<and> is_digit c"
  using dec_digits [of n] by (cases "dec n") auto

lemma c_atoi_dec:
  assumes "\<not> is_digit c" "int n < lim" "dropWhile isspace pre = []"
  shows "c_atoi lim (pre @ dec n @ c # rest) = Some (int n)"
proof -
  obtain d ds where d: "dec n = d # ds" "is_digit d" using dec_hd by blast
  have sp: "dropWhile isspace (pre @ dec n @ c # rest) = dec n @ c # rest"
    using assms(3) d digit_plain [OF d(2)] by (simp add: dropWhile_append) 
  have tw: "takeWhile is_digit (dec n @ c # rest) = dec n" "dropWhile is_digit (dec n @ c # rest) = c # rest"
    using dec_digits [of n] assms(1) by (simp_all add: takeWhile_append dropWhile_append)
  have nm: "hd (dec n @ c # rest) \<noteq> CHR ''-''" "hd (dec n @ c # rest) \<noteq> CHR ''+''" using d digit_plain [OF d(2)] by simp_all
  show ?thesis
    unfolding c_atoi_def sp Let_def using nm assms(2) by (simp add: tw dec_value_dec)
qed

subsection \<open>Blank lines\<close>

definition lines :: "string list \<Rightarrow> string" where
  "lines ls = concat (map (\<lambda>l. l @ CRLF) ls)"

lemma lines_simps [simp]: "lines [] = []" "lines (l # ls) = l @ CRLF @ lines ls"
  by (simp_all add: lines_def)

lemma lines_append: "lines (xs @ ys) = lines xs @ lines ys"
  by (simp add: lines_def)

definition clean_line :: "string \<Rightarrow> bool" where
  "clean_line l \<longleftrightarrow> l \<noteq> [] \<and> CR \<notin> set l \<and> LF \<notin> set l \<and> ZERO \<notin> set l"


subsection \<open>The length of a response\<close>

lemma dec_length: "n < 10 ^ Suc k \<Longrightarrow> length (dec n) \<le> Suc k"
proof (induction k arbitrary: n)
  case 0
  then show ?case by (subst dec.simps) simp
next
  case (Suc k)
  show ?case
  proof (cases "n < 10")
    case True
    then show ?thesis by (subst dec.simps) simp
  next
    case False
    then have "dec n = dec (n div 10) @ [char_of (48 + n mod 10)]" by (subst dec.simps) simp
    moreover have "n div 10 < 10 ^ Suc k" using Suc.prems by (simp add: less_mult_imp_div_less)
    ultimately show ?thesis using Suc.IH [of "n div 10"] by simp
  qed
qed



lemma clean_dec: "CR \<notin> set (dec n)" "LF \<notin> set (dec n)" "ZERO \<notin> set (dec n)"
  using dec_digits [of n] digit_plain by blast+





subsection \<open>The end of a message in a stream\<close>

lemma match_here_append: "match_here (xs @ ys) ms \<longleftrightarrow>
   (if length ms \<le> length xs then match_here xs ms else match_here xs (take (length xs) ms) \<and> match_here ys (drop (length xs) ms))"
  by (induction xs ms rule: match_here.induct) (auto split: list.splits)

lemma match_here_length: "match_here s m \<Longrightarrow> length m \<le> length s"
  by (induction s m rule: match_here.induct) auto

lemma match_here_take: "match_here (take k s) m \<longleftrightarrow> match_here s m \<and> length m \<le> k"
  by (induction s m arbitrary: k rule: match_here.induct) (case_tac [!] k, auto)

lemma match_from_take:
  assumes "m \<noteq> []"
  shows "match_from (take k s) m = (case match_from s m of None \<Rightarrow> None | Some i \<Rightarrow> if i + length m \<le> k then Some i else None)"
proof (induction s arbitrary: k)
  case (Cons c s)
  show ?case
  proof (cases k)
    case (Suc j)
    have h: "match_here (c # take j s) m \<longleftrightarrow> match_here (c # s) m \<and> length m \<le> Suc j" using match_here_take [of "Suc j" "c # s" m] by simp
    show ?thesis
    proof (cases "match_here (c # s) m")
      case True
      have "match_from (take j s) m = None" if "\<not> length m \<le> Suc j" using Cons.IH [of j] that by (auto split: option.splits)
      then show ?thesis unfolding Suc by (simp add: h True)
    next
      case False
      then show ?thesis unfolding Suc using Cons.IH [of j] by (cases "match_from s m") (simp_all add: h)
    qed
  next
    case 0
    show ?thesis using assms by (cases "match_from (c # s) m") (simp_all add: 0 del: match_from.simps(2))
  qed
qed simp

lemma match_from_skip:
  "\<forall>c \<in> set xs. tolower c \<noteq> tolower m \<Longrightarrow> match_from (xs @ ys) (m # ms) = map_option ((+) (length xs)) (match_from ys (m # ms))"
proof (induction xs)
  case Nil
  show ?case by (cases "match_from ys (m # ms)") simp_all
next
  case (Cons x xs)
  then show ?case by (cases "match_from ys (m # ms)") auto
qed

lemma tolower_low: "(of_char d :: nat) < 65 \<Longrightarrow> tolower c = d \<longleftrightarrow> c = d"
proof
  assume d: "(of_char d :: nat) < 65" "tolower c = d"
  show "c = d"
  proof (cases "65 \<le> (of_char c :: nat) \<and> (of_char c :: nat) \<le> 90")
    case True
    then have "(of_char (tolower c) :: nat) = of_char c + 32" by (simp add: tolower_def Let_def)
    then show ?thesis using d True by simp
  next
    case False
    then show ?thesis using d(2) by (auto simp: tolower_def Let_def split: if_splits)
  qed
qed (simp add: tolower_def Let_def)

lemma tolower_crlf: "tolower c = tolower CR \<longleftrightarrow> c = CR" "tolower c = tolower LF \<longleftrightarrow> c = LF"
proof -
  have "tolower CR = CR" "tolower LF = LF" by (simp_all add: tolower_def)
  then show "tolower c = tolower CR \<longleftrightarrow> c = CR" "tolower c = tolower LF \<longleftrightarrow> c = LF" using tolower_low [of CR c] tolower_low [of LF c] by simp_all
qed

lemma match_blank_line:
  assumes "list_all clean_line ls" "ls \<noteq> []"
  shows "match_from (lines ls @ CRLF @ rest) (CRLF @ CRLF) = Some (length (lines ls) - 2)"
  using assms
proof (induction ls)
  case (Cons l ls)
  have l: "\<forall>c \<in> set l. tolower c \<noteq> tolower CR" using Cons.prems by (auto simp: clean_line_def tolower_crlf)
  have sk: "match_from (lines (l # ls) @ CRLF @ rest) (CRLF @ CRLF) = map_option ((+) (length l)) (match_from (CRLF @ lines ls @ CRLF @ rest) (CRLF @ CRLF))"
    using match_from_skip [OF l, of "CRLF @ lines ls @ CRLF @ rest" "LF # CRLF"] by simp
  show ?case
  proof (cases ls)
    case Nil
    then show ?thesis unfolding sk by simp
  next
    case (Cons l' ls')
    then obtain x xs where x: "l' = x # xs" "x \<noteq> CR" using Cons.prems(1) by (cases l') (auto simp: clean_line_def)
    have "tolower LF \<noteq> tolower CR" by (simp add: tolower_crlf)
    then have "match_from (CRLF @ lines ls @ CRLF @ rest) (CRLF @ CRLF) = map_option Suc (map_option Suc (match_from (lines ls @ CRLF @ rest) (CRLF @ CRLF)))"
      using x Cons by (simp add: tolower_crlf)
    moreover have "match_from (lines ls @ CRLF @ rest) (CRLF @ CRLF) = Some (length (lines ls) - 2)"
      using Cons.IH Cons.prems Cons by simp
    moreover have "length (lines ls) \<ge> 2" using Cons by simp
    ultimately show ?thesis unfolding sk by simp
  qed
qed simp

lemma match_no_double_lf:
  assumes "list_all clean_line ls"
  shows "match_from (lines ls @ CRLF) [LF, LF] = None"
  using assms
proof (induction ls)
  case Nil
  show ?case by (simp add: tolower_crlf)
next
  case (Cons l ls)
  have l: "\<forall>c \<in> set (l @ [CR]). tolower c \<noteq> tolower LF" using Cons.prems by (auto simp: clean_line_def tolower_crlf)
  have sk: "match_from (lines (l # ls) @ CRLF) [LF, LF] = map_option ((+) (length (l @ [CR]))) (match_from (LF # lines ls @ CRLF) [LF, LF])"
    using match_from_skip [OF l, of "LF # lines ls @ CRLF" "[LF]"] by simp
  obtain x xs where x: "lines ls @ CRLF = x # xs" "x \<noteq> LF"
  proof (cases ls)
    case (Cons l' ls')
    then show ?thesis using that Cons.prems by (cases l') (auto simp: clean_line_def)
  qed (use that in simp)
  show ?case unfolding sk x(1) using Cons.IH Cons.prems x by (simp add: tolower_crlf)
qed

definition reply_head :: "string \<Rightarrow> nat \<Rightarrow> string list" where
  "reply_head t n = [''HTTP/1.1 200 OK'', ''Content-Type: '' @ t, ''Content-Length: '' @ dec n]"

lemma match_content_length:
  assumes "t = HTTP_CONTENT_TYPE_HTML \<or> t = HTTP_CONTENT_TYPE_BINARY"
  shows "match_from (lines (reply_head t n) @ rest) ''Content-Length:'' = Some (33 + length t)"
  using assms by (elim disjE)
    (simp_all add: reply_head_def HTTP_CONTENT_TYPE_HTML_def HTTP_CONTENT_TYPE_BINARY_def tolower_def char_of_def of_char_def Let_def)

lemma take_within: "k \<le> length xs \<Longrightarrow> take k (xs @ ys) = take k xs"
  by simp

lemma drop_after: "xs = ys @ zs \<Longrightarrow> n = length ys \<Longrightarrow> drop n xs = zs"
  by simp

lemma NormalResponse_head: "NormalResponse b t 0 = lines (reply_head t (length b)) @ CRLF @ b"
  by (simp add: NormalResponse_def reply_head_def)

lemma clean_reply_head:
  assumes "t = HTTP_CONTENT_TYPE_HTML \<or> t = HTTP_CONTENT_TYPE_BINARY"
  shows "list_all clean_line (reply_head t n)"
  using assms clean_dec [of n] by (auto simp: reply_head_def clean_line_def HTTP_CONTENT_TYPE_HTML_def HTTP_CONTENT_TYPE_BINARY_def)

lemma complete_found:
  assumes "4 \<le> k" "k \<le> length D" "match_from (take k D) (CRLF @ CRLF) = Some E" "match_from (take k D) ''Content-Length:'' = Some C"
    "c_atoi INT_LIM (drop (C + 15) D) = Some N" "N + int (E + 4) < INT_LIM"
  shows "http_complete_func D k = Some (if int k < N + int (E + 4) then 0 else N + int (E + 4))"
  using assms by (simp add: http_complete_func_def match_str_begin_def bytes_def)

lemma complete_more:
  assumes "4 \<le> k" "k \<le> length D" "match_from (take k D) (CRLF @ CRLF) = None" "match_from (take k D) [LF, LF] = None"
  shows "http_complete_func D k = Some 0"
  using assms by (simp add: http_complete_func_def match_str_begin_def bytes_def)

text \<open>C32. The responses of the example services are framed by \<open>http_complete_func\<close>: with \<open>k\<close> bytes of the stream received it asks for more
  until the response is there, and then gives the response's length, whatever comes after it in the stream.\<close>
theorem response_framed:
  assumes "r = NormalResponse b t 0" "t = HTTP_CONTENT_TYPE_HTML \<or> t = HTTP_CONTENT_TYPE_BINARY" "int (length r) < 2 ^ 31"
    "k \<le> length (r @ rest)"
  shows "http_complete_func (r @ rest) k = Some (if k < length r then 0 else int (length r))"
proof -
  let ?ls = "reply_head t (length b)" and ?d = "r @ rest" and ?cl = "''Content-Length:''"
  define H where "H = length (lines ?ls @ CRLF)"
  have r: "r = lines ?ls @ CRLF @ b" by (simp add: assms(1) NormalResponse_head)
  have cln: "list_all clean_line ?ls" by (rule clean_reply_head [OF assms(2)])
  have len: "length r = H + length b" by (simp add: r H_def)
  have ll: "length (lines ?ls) = 51 + length t + length (dec (length b))" by (simp add: reply_head_def)
  then have H: "H = 53 + length t + length (dec (length b))" by (simp add: H_def)
  have e: "match_from (take k ?d) (CRLF @ CRLF) = (if H \<le> k then Some (H - 4) else None)"
    using match_blank_line [OF cln, of "b @ rest"] match_from_take [of "CRLF @ CRLF" k ?d] ll by (simp add: r H reply_head_def)
  have lf: "match_from (take k ?d) [LF, LF] = None" if "\<not> H \<le> k"
  proof -
    have "?d = (lines ?ls @ CRLF) @ b @ rest" by (simp add: r)
    moreover have "k \<le> length (lines ?ls @ CRLF)" using that unfolding H_def by simp
    ultimately have "take k ?d = take k (lines ?ls @ CRLF)" by (simp only: take_within)
    then show ?thesis using match_from_take [of "[LF, LF]" k "lines ?ls @ CRLF"] match_no_double_lf [OF cln] by simp
  qed
  have c: "match_from (take k ?d) ?cl = Some (33 + length t)" if "H \<le> k"
    using match_content_length [OF assms(2), of "length b" "CRLF @ b @ rest"] match_from_take [of ?cl k ?d] that by (simp add: r H)
  have "c_atoi INT_LIM ('' '' @ dec (length b) @ CR # LF # CRLF @ b @ rest) = Some (int (length b))"
    by (rule c_atoi_dec) (use assms(3) len in \<open>simp_all add: is_digit_def isspace_def\<close>)
  moreover have "drop (33 + length t + 15) ?d = '' '' @ dec (length b) @ CR # LF # CRLF @ b @ rest"
    by (rule drop_after [of _ "''HTTP/1.1 200 OK'' @ CRLF @ ''Content-Type: '' @ t @ CRLF @ ?cl"]) (simp_all add: r reply_head_def)
  ultimately have n: "c_atoi INT_LIM (drop (33 + length t + 15) ?d) = Some (int (length b))" by simp
  show ?thesis
  proof (cases "k < 4")
    case True
    then show ?thesis using len H by (simp add: http_complete_func_def)
  next
    case False
    then have k: "k \<noteq> 0" "\<not> k < 4" by simp_all
    show ?thesis
    proof (cases "H \<le> k")
      case True
      have tot: "int (length b) + int (H - 4 + 4) = int (length r)" "int k < int (length r) \<longleftrightarrow> k < length r" using len H by linarith+
      have "http_complete_func ?d k = Some (if int k < int (length b) + int (H - 4 + 4) then 0 else int (length b) + int (H - 4 + 4))"
        by (rule complete_found [OF _ assms(4) _ c [OF True] n]) (use k True e assms(3) tot in simp_all)
      then show ?thesis unfolding tot .
    next
      case less: False
      have "http_complete_func ?d k = Some 0"
        by (rule complete_more [OF _ assms(4) _ lf [OF less]]) (use k less e in simp_all)
      then show ?thesis using less len by simp
    qed
  qed
qed

theorem response_framed_witness:
  "http_complete_func (NormalResponse ''ab'' HTTP_CONTENT_TYPE_HTML 0 @ ''HTTP/1'') 5 = Some 0"
proof -
  have "length (dec (length ''ab'')) \<le> 1" using dec_length [of "length ''ab''" 0] by simp
  then have l: "length (NormalResponse ''ab'' HTTP_CONTENT_TYPE_HTML 0) \<le> 100" "5 < length (NormalResponse ''ab'' HTTP_CONTENT_TYPE_HTML 0)"
    by (simp_all add: NormalResponse_def HTTP_CONTENT_TYPE_HTML_def)
  then show ?thesis using response_framed [OF refl, of HTTP_CONTENT_TYPE_HTML "''ab''" 5 "''HTTP/1''"] by simp
qed

subsection \<open>The loop over the methods\<close>









end
