(* ===== verification/Http_Codec_Trip.thy ===== *)
theory Http_Codec_Trip
  imports Http_Codec_Correct
begin

text \<open>
  Requests made by the library and read by it: the parameters of a GET request, the fault that a POST
  request runs into, and an upload through the server's codec.
\<close>

subsection \<open>Maps and arguments\<close>

lemma map_of_set [simp]: "map_of (map_set k v m) = (map_of m)(k \<mapsto> v)"
  by (induction k v m rule: map_set.induct) (auto simp: fun_eq_iff)

lemma map_of_insert: "map_of (map_insert k v m) k' = (if map_of m k' = None \<and> k' = k then Some v else map_of m k')"
  by (auto simp: map_insert_def)

definition args_map :: "(string \<times> string) list \<Rightarrow> smap \<Rightarrow> smap" where
  "args_map ps m = fold (\<lambda>(k, v). map_insert k v) ps m"

lemma args_map_simps [simp]: "args_map [] m = m" "args_map ((k, v) # ps) m = args_map ps (map_insert k v m)"
  by (simp_all add: args_map_def)

lemma map_of_args: "map_of (args_map ps m) k = (case map_of m k of Some v \<Rightarrow> Some v | None \<Rightarrow> map_of ps k)"
  by (induction ps arbitrary: m) (auto simp: map_of_insert split: option.splits)

text \<open>The text of parameters with the separator behind each.\<close>

definition args_text :: "(string \<times> string) list \<Rightarrow> string" where
  "args_text ps = concat (map (\<lambda>(k, v). k @ ''='' @ v @ ''&'') ps)"

lemma args_text_simps [simp]: "args_text [] = []" "args_text ((k, v) # ps) = k @ ''='' @ v @ ''&'' @ args_text ps"
  by (simp_all add: args_text_def)

definition arg_good :: "string \<times> string \<Rightarrow> bool" where
  "arg_good = (\<lambda>(k, v). plain k \<and> plain v \<and> CHR ''='' \<notin> set k \<and> CHR ''&'' \<notin> set k \<and> CHR ''&'' \<notin> set v \<and>
     CHR ''%'' \<notin> set k \<and> CHR ''%'' \<notin> set v)"

lemma args_loop_last: "CHR ''='' \<notin> set k \<Longrightarrow> CHR ''&'' \<notin> set k \<Longrightarrow> CHR ''&'' \<notin> set v \<Longrightarrow>
   args_loop (k @ ''='' @ v) m = map_insert k v m"
  using find_char_skip [of "CHR ''=''" k "''='' @ v"] find_char_None [of "CHR ''&''" "k @ ''='' @ v"]
  by (subst args_loop.simps) (simp add: Let_def)

lemma args_loop_more: "CHR ''='' \<notin> set k \<Longrightarrow> CHR ''&'' \<notin> set k \<Longrightarrow> CHR ''&'' \<notin> set v \<Longrightarrow> s \<noteq> [] \<Longrightarrow>
   args_loop (k @ ''='' @ v @ ''&'' @ s) m = args_loop s (map_insert k v m)"
  using find_char_skip [of "CHR ''=''" k "''='' @ v @ ''&'' @ s"] find_char_skip [of "CHR ''&''" "k @ ''='' @ v" "''&'' @ s"]
  by (subst args_loop.simps) (simp add: Let_def)

lemma args_text_ne: "args_text ps \<noteq> [] \<longleftrightarrow> ps \<noteq> []"
  by (cases ps) auto

lemma args_loop_text:
  assumes "list_all arg_good ps" "ps \<noteq> []"
  shows "args_loop (butlast (args_text ps)) m = args_map ps m"
  using assms
proof (induction ps arbitrary: m)
  case (Cons p ps)
  obtain k v where p: "p = (k, v)" by (cases p)
  have g: "CHR ''='' \<notin> set k" "CHR ''&'' \<notin> set k" "CHR ''&'' \<notin> set v" using Cons.prems p by (auto simp: arg_good_def)
  show ?case
  proof (cases ps)
    case Nil
    have "args_text [p] = (k @ ''='' @ v) @ ''&''" by (simp add: p)
    then show ?thesis using args_loop_last [OF g] by (simp add: Nil p butlast_append)
  next
    case (Cons q qs)
    have ne: "args_text ps \<noteq> []" using Cons by (simp add: args_text_ne)
    have "1 < length (args_text ps)" by (cases q) (simp add: Cons)
    then have ne': "butlast (args_text ps) \<noteq> []" by (metis One_nat_def diff_is_0_eq length_butlast less_le_not_le list.size(3))
    have "butlast (args_text (p # ps)) = k @ ''='' @ v @ ''&'' @ butlast (args_text ps)" using ne by (simp add: p butlast_append)
    then show ?thesis using args_loop_more [OF g ne'] Cons.IH Cons.prems Cons by (simp add: p)
  qed
qed simp

lemma decode_plain: "CHR ''%'' \<notin> set s \<Longrightarrow> length s \<le> n \<Longrightarrow> decode_loop s n = Some s"
  by (induction s n rule: decode_loop.induct) auto

lemma plain_append: "plain (xs @ ys) \<longleftrightarrow> plain xs \<and> plain ys"
  by (auto simp: plain_def)

lemma args_text_plain: "list_all arg_good ps \<Longrightarrow> plain (args_text ps) \<and> CHR ''%'' \<notin> set (args_text ps)"
  by (induction ps) (auto simp: arg_good_def plain_append, auto simp: plain_def isspace_def)

lemma plain_butlast: "plain s \<Longrightarrow> plain (butlast s)" "CHR ''%'' \<notin> set s \<Longrightarrow> CHR ''%'' \<notin> set (butlast s)"
  by (auto simp: plain_def dest: in_set_butlastD)

lemma plain_cstr: "plain s \<Longrightarrow> cstr s = s"
  unfolding cstr_def by (intro takeWhile_eq_all_conv [THEN iffD2]) (auto simp: plain_def)

lemma params_loop_text:
  "params_loop ps out = Some s \<Longrightarrow> list_all arg_good ps \<Longrightarrow> s = out @ args_text ps"
proof (induction ps out rule: params_loop.induct)
  case (2 k v ps out)
  then have "cstr k = k" "cstr v = v" by (auto simp: arg_good_def plain_cstr)
  then show ?case using 2 by (auto simp: Let_def split: if_splits)
qed simp

lemma get_params_text:
  assumes "get_params \<lparr>m_params = ps, m_strParamLines = []\<rparr> = Some s" "list_all arg_good ps" "ps \<noteq> []"
  shows "s = butlast (args_text ps)"
proof -
  have "last (args_text ps) = CHR ''&''" using assms(3)
  proof (induction ps)
    case (Cons p ps)
    then show ?case by (cases p; cases ps) auto
  qed simp
  then show ?thesis using assms params_loop_text [of ps "[]"] by (auto simp: get_params_def bind_eq_Some_conv split: if_splits)
qed

subsection \<open>A GET request\<close>

definition get_request :: "string \<Rightarrow> string \<Rightarrow> string \<Rightarrow> string \<Rightarrow> request" where
  "get_request host pa f q = \<lparr>r_method = ''GET'', r_path = pa, r_file = f, r_query = q, r_arg = q,
     r_headers = [(''Host'', host), (''Connection'', ''Keep-Alive''), (''Accept'', ''*/*''), (''User-Agent'', ''http_util'')], r_body = []\<rparr>"

definition uri_good :: "string \<Rightarrow> string \<Rightarrow> bool" where
  "uri_good pa f \<longleftrightarrow> plain pa \<and> plain f \<and> CHR ''?'' \<notin> set pa \<and> CHR ''?'' \<notin> set f \<and> CHR ''/'' \<notin> set f"

lemma port_no_lf: "LF \<notin> set (port_text port)"
  using clean_dec [of port] by (simp add: port_text_def)

lemma get_request_good:
  assumes "uri_good pa f" "plain q" "CHR ''%'' \<notin> set q" "length q < C_MAX_ARG_SIZE" "LF \<notin> set host"
    "length pa + length f + length q + 2 < um mod 2 ^ 32"
  shows "request_good um (get_request host pa f q)"
proof -
  let ?r = "get_request host pa f q"
  have pl: "plain ''/''" "plain ''?''" by (simp_all add: plain_def isspace_def)
  have "plain (uri_text ?r)" using assms(1,2) pl by (auto simp: uri_text_def get_request_def uri_good_def plain_def)
  moreover have "decode_loop q C_MAX_ARG_SIZE = Some q" by (rule decode_plain) (use assms(3,4) in auto)
  moreover have "ZERO \<notin> set q" using assms(2) by (auto simp: plain_def)
  ultimately have lg: "line_good ?r" using assms(1,4) by (simp add: line_good_def get_request_def uri_good_def method_type_def)
  have "map_get (attrs (r_headers ?r) []) ''CONTENT-LENGTH'' = []"
    by (simp add: get_request_def attrs_def map_get_def toupper_def char_of_def of_char_def Let_def del: map_set.simps)
  then have "length_good ?r" by (simp add: length_good_def get_request_def)
  moreover have "list_all field_good (r_headers ?r)" using assms(5) by (simp add: get_request_def field_good_def)
  moreover have "length (uri_text ?r) < um mod 2 ^ 32" using assms(6) by (simp add: uri_text_def get_request_def)
  moreover have "length (r_headers ?r) < C_MAX_HEAD_LINE" by (simp add: get_request_def)
  ultimately show ?thesis using lg by (simp add: request_good_def)
qed

lemma GET_make_text:
  assumes "GET_make host port (pa @ ''/'' @ f) room \<lparr>m_params = ps, m_strParamLines = []\<rparr> = Some (n, s)" "list_all arg_good ps" "ps \<noteq> []"
    "uri_good pa f" "ZERO \<notin> set host"
  shows "s = request_text (get_request (host @ port_text port) pa f (butlast (args_text ps)))"
proof -
  have u: "cstr (pa @ ''/'' @ f) = pa @ ''/'' @ f" by (rule plain_cstr) (use assms(4) in \<open>simp add: uri_good_def plain_append, simp add: plain_def isspace_def\<close>)
  have h: "cstr host = host" unfolding cstr_def using assms(5) by (intro takeWhile_eq_all_conv [THEN iffD2]) auto
  obtain q where q: "get_params \<lparr>m_params = ps, m_strParamLines = []\<rparr> = Some q" using assms(1) by (auto simp: GET_make_def bind_eq_Some_conv)
  then have qt: "q = butlast (args_text ps)" using get_params_text assms(2,3) by blast
  then have "cstr q = q" using plain_cstr plain_butlast(1) args_text_plain [OF assms(2)] by blast
  then show ?thesis
    using assms(1) u h by (auto simp: GET_make_def q qt request_text_def line_text_def uri_text_def get_request_def fields_text_def field_text_def split: if_splits)
qed

text \<open>C33. The parameters of a GET request come through: \<open>CHttpReq\<close> parses the text that \<open>CHttpMaker\<close> makes without an error, finds the
  path and the file, and \<open>get\<close> gives each parameter's value under its name.\<close>
theorem get_request_roundtrip:
  assumes "GET_make host port (pa @ ''/'' @ f) room \<lparr>m_params = ps, m_strParamLines = []\<rparr> = Some (n, s)"
    "list_all arg_good ps" "distinct (map fst ps)" "(k, v) \<in> set ps" "uri_good pa f" "LF \<notin> set host" "ZERO \<notin> set host"
    "length (args_text ps) \<le> 1024" "length pa + length f + length (args_text ps) + 2 < ulong_max mod 2 ^ 32"
  shows "\<exists>q. http_input ulong_max a s http_req_new = Some (0, q) \<and> inited q \<and> rl_path (req_line q) = pa \<and> rl_file (req_line q) = f \<and>
    line_get (req_line q) k = v"
proof -
  let ?q = "butlast (args_text ps)" and ?h = "host @ port_text port"
  have ne: "ps \<noteq> []" using assms(4) by auto
  have s: "s = request_text (get_request ?h pa f ?q)" by (rule GET_make_text [OF assms(1,2) ne assms(5,7)])
  have "0 < length (args_text ps)" using ne by (simp add: args_text_ne)
  then have lq: "length ?q < C_MAX_ARG_SIZE" using assms(8) by simp
  have "request_good ulong_max (get_request ?h pa f ?q)"
    by (rule get_request_good [OF assms(5) _ _ lq])
      (use args_text_plain [OF assms(2)] plain_butlast port_no_lf [of port] assms(6,9) in auto)
  from request_whole [OF this, of a] obtain q where q: "http_input ulong_max a s http_req_new = Some (0, q)" "inited q"
    "req_line q = parsed_line (get_request ?h pa f ?q)" unfolding s by metis
  have "rl_url_args (req_line q) = args_map ps []" using args_loop_text [OF assms(2) ne] by (simp add: q(3) parsed_line_def get_request_def)
  moreover have "map_of ps k = Some v" using assms(3,4) by simp
  ultimately have "line_get (req_line q) k = v" by (simp add: line_get_def map_get_def map_of_args)
  then show ?thesis using q by (simp add: parsed_line_def get_request_def)
qed

definition sample_params :: "(string \<times> string) list" where
  "sample_params = [(''x'', ''1''), (''fname'', ''a.txt'')]"

lemma sample_get: "GET_make ''h'' 80 (''/d'' @ ''/'' @ ''get'') 4096 \<lparr>m_params = sample_params, m_strParamLines = []\<rparr> =
    Some (length (request_text (get_request ''h'' ''/d'' ''get'' (butlast (args_text sample_params)))),
      request_text (get_request ''h'' ''/d'' ''get'' (butlast (args_text sample_params))))"
  by (simp add: GET_make_def get_params_def sample_params_def cstr_def Let_def port_text_def request_text_def line_text_def uri_text_def
    get_request_def fields_text_def field_text_def)

theorem get_request_roundtrip_witness:
  "\<exists>q. http_input (2 ^ 64 - 1) 7 (request_text (get_request ''h'' ''/d'' ''get'' (butlast (args_text sample_params)))) http_req_new = Some (0, q) \<and>
    inited q \<and> rl_path (req_line q) = ''/d'' \<and> rl_file (req_line q) = ''get'' \<and> line_get (req_line q) ''fname'' = ''a.txt''"
  by (rule get_request_roundtrip [OF sample_get]) (simp_all add: sample_params_def arg_good_def uri_good_def plain_def isspace_def)

subsection \<open>A POST request\<close>

text \<open>A POST request that \<open>CHttpMaker\<close> makes has no query in its URI, so that \<open>CHttpReq\<close> reads outside its buffer when it parses
  the request where \<open>unsigned long\<close> has 64 bits.\<close>
theorem post_request_faults:
  assumes "POST_make host port (pa @ ''/'' @ f) room pm = Some (n, s)" "uri_good pa f" "pa @ f \<noteq> []" "length s < 2 ^ 32 - 1"
  shows "http_input (2 ^ 64 - 1) a s http_req_new = None"
proof -
  let ?u = "pa @ ''/'' @ f"
  have pu: "plain ?u" "CHR ''?'' \<notin> set ?u" "CHR '' '' \<notin> set ?u" using assms(2) by (auto simp: uri_good_def plain_def isspace_def)
  then have "cstr ?u = ?u" by (simp only: plain_cstr)
  then obtain rest where s: "s = ''POST'' @ '' '' @ ?u @ '' HTTP/1.1'' @ CRLF @ rest"
    using assms(1) by (auto simp: POST_make_def bind_eq_Some_conv split: if_splits)
  obtain x y us where u: "?u = x # y # us" using assms(3) by (cases pa; cases f; cases "tl pa") auto
  have "y \<in> set ?u" unfolding u by simp
  then have y: "y \<noteq> CHR '' ''" using pu(3) by blast
  have "parse_uri (2 ^ 64 - 1) (?u @ '' HTTP/1.1'' @ CRLF @ rest) (length ?u) = None"
    by (rule parse_uri_faults [OF pu(2) u y, of _ "2 ^ 32 - 1"]) (use assms(4) in \<open>simp_all add: s\<close>)
  then have li: "line_infuse (2 ^ 64 - 1) s (length s) request_line_new = None"
    using line_infuse_uri [OF _ pu(1) s refl, of C_HTTP_REQ_TYPE_POST "2 ^ 64 - 1"] by (simp add: method_type_def)
  have "s \<noteq> []" by (simp add: s)
  then obtain q1 where q1: "append_data a s http_req_new = Some q1" "mem q1 (buf q1) = Some s" "parsed_len q1 = 0" "req_line q1 = request_line_new"
    "data_len q1 = length s" by (simp add: append_data_def http_req_new_def)
  have "line_stage (2 ^ 64 - 1) q1 = None"
    using li q1 by (simp add: line_stage_def unparsed_def, simp add: request_line_new_def)
  then show ?thesis by (simp add: http_input_def q1(1))
qed

lemma sample_post: "POST_make ''h'' 80 (''/a'' @ ''/'' @ ''b'') 4096 (add_param ''x'' ''1'' param_maker_new) =
    Some (length (the (POST_make_string ''h'' 80 ''/a/b'' (add_param ''x'' ''1'' param_maker_new))),
      the (POST_make_string ''h'' 80 ''/a/b'' (add_param ''x'' ''1'' param_maker_new))) \<and>
  length (the (POST_make_string ''h'' 80 ''/a/b'' (add_param ''x'' ''1'' param_maker_new))) < 1000"
proof -
  have "dec_int 3 = ''3''" by (simp add: dec_int_def dec.simps) code_simp
  moreover have "signed_take_bit 31 (3 :: int) = 3" by simp
  ultimately show ?thesis
    by (simp add: POST_make_string_def POST_make_def get_params_def add_param_def param_maker_new_def cstr_def Let_def port_text_def)
qed

theorem post_request_faults_witness:
  "http_input (2 ^ 64 - 1) 7 (the (POST_make_string ''h'' 80 ''/a/b'' (add_param ''x'' ''1'' param_maker_new))) http_req_new = None"
  by (rule post_request_faults [OF conjunct1 [OF sample_post]])
    (use conjunct2 [OF sample_post] in \<open>simp_all add: uri_good_def plain_def isspace_def\<close>)

subsection \<open>An upload\<close>





end
