(* ===== verification/Cgi_Conn.thy ===== *)
theory Cgi_Conn
  imports Prelude "HOL-Library.Sublist"
begin

text \<open>
  \<open>src/ProcessPool/process_pool/cgin_conn.cpp\<close>: a connection of the CGI server. It reads until the first \<open>\r\n\<close> and
  runs the program that is named before it. \<open>access\<close> says whether a file exists and \<open>fork\<close> is the result of \<open>fork\<close>;
  \<open>recv\<close> results are given as a list, which ends where no data is available.
\<close>

subsection \<open>The connection\<close>

abbreviation (input) LF :: char where "LF \<equiv> CHR 0x0A"
abbreviation (input) CR :: char where "CR \<equiv> CHR 0x0D"
abbreviation (input) ZERO :: char where "ZERO \<equiv> CHR 0x00"

definition BUFFER_SIZE :: nat where "BUFFER_SIZE = 1024"

record cgi_conn =
  m_sockfd :: int
  m_buf :: string
  m_read_idx :: nat

definition cgi_init :: "int \<Rightarrow> cgi_conn" where
  "cgi_init sockfd = \<lparr>m_sockfd = sockfd, m_buf = replicate BUFFER_SIZE ZERO, m_read_idx = 0\<rparr>"

text \<open>What is there to receive: data, or an error other than \<open>EAGAIN\<close>. No bytes mean that the peer has closed.\<close>

datatype recv = Data string | Error

text \<open>How \<open>process\<close> ends: it waits for more data, it has removed and closed the descriptor, or it is the child that runs a program.\<close>

datatype outcome = Waits | Removed | Runs string

fun scan_crlf :: "string \<Rightarrow> nat \<Rightarrow> nat \<Rightarrow> nat" where
  "scan_crlf buf idx 0 = idx"
| "scan_crlf buf idx (Suc n) = (if idx \<ge> 1 \<and> buf ! (idx - 1) = CR \<and> buf ! idx = LF then idx else scan_crlf buf (idx + 1) n)"

definition file_name :: "string \<Rightarrow> string" where
  "file_name buf = takeWhile (\<lambda>c. c \<noteq> ZERO) buf"

text \<open>\<open>process\<close>; the buffer keeps its last byte zero, so that it is a C string. Once it is full, \<open>recv\<close> is called for no byte
  at all and gives 0 when more data is there. \<open>cgi_chunk\<close> is the body of the loop for a \<open>recv\<close> that does not fail; \<open>None\<close> goes on reading.\<close>

definition cgi_chunk :: "(string \<Rightarrow> bool) \<Rightarrow> int \<Rightarrow> string \<Rightarrow> cgi_conn \<Rightarrow> outcome option \<times> cgi_conn" where
  "cgi_chunk access fork s c =
     (let idx = m_read_idx c; d = take (BUFFER_SIZE - 1 - idx) s in
      if d = [] then (Some Removed, c)
      else
        let end = idx + length d;
            c = c\<lparr>m_buf := take idx (m_buf c) @ d @ drop end (m_buf c), m_read_idx := end\<rparr>;
            idx = scan_crlf (m_buf c) idx (end - idx) in
        if idx = end then
          (if length d < length s then Some Removed else None, c)
        else
          let c = c\<lparr>m_buf := (m_buf c)[idx - 1 := ZERO]\<rparr>; f = file_name (m_buf c) in
          if \<not> access f then (Some Removed, c)
          else if fork = 0 then (Some (Runs f), c)
          else (Some Removed, c))"

fun cgi_process :: "(string \<Rightarrow> bool) \<Rightarrow> int \<Rightarrow> recv list \<Rightarrow> cgi_conn \<Rightarrow> outcome \<times> cgi_conn" where
  "cgi_process access fork [] c = (Waits, c)"
| "cgi_process access fork (Error # rs) c = (Removed, c)"
| "cgi_process access fork (Data s # rs) c =
     (case cgi_chunk access fork s c of
        (Some out, c) \<Rightarrow> (out, c)
      | (None, c) \<Rightarrow> cgi_process access fork rs c)"

subsection \<open>A request in chunks\<close>

text \<open>No \<open>\r\n\<close> ends before position \<open>n\<close>.\<close>

definition no_crlf :: "string \<Rightarrow> nat \<Rightarrow> bool" where
  "no_crlf s n \<longleftrightarrow> (\<forall>i < n. \<not> (i \<ge> 1 \<and> s ! (i - 1) = CR \<and> s ! i = LF))"

lemma scan_none: "(\<And>i. idx \<le> i \<Longrightarrow> i < idx + n \<Longrightarrow> \<not> (i \<ge> 1 \<and> buf ! (i - 1) = CR \<and> buf ! i = LF)) \<Longrightarrow> scan_crlf buf idx n = idx + n"
proof (induction n arbitrary: idx)
  case (Suc n)
  have "scan_crlf buf (idx + 1) n = (idx + 1) + n" by (rule Suc.IH) (use Suc.prems in auto)
  then show ?case using Suc.prems [of idx] by simp
qed simp

lemma scan_found:
  "idx \<le> j \<Longrightarrow> j < idx + n \<Longrightarrow> j \<ge> 1 \<Longrightarrow> buf ! (j - 1) = CR \<Longrightarrow> buf ! j = LF \<Longrightarrow>
   (\<And>i. idx \<le> i \<Longrightarrow> i < j \<Longrightarrow> \<not> (i \<ge> 1 \<and> buf ! (i - 1) = CR \<and> buf ! i = LF)) \<Longrightarrow> scan_crlf buf idx n = j"
proof (induction n arbitrary: idx)
  case (Suc n)
  show ?case
  proof (cases "idx = j")
    case False
    have "scan_crlf buf (idx + 1) n = j" by (rule Suc.IH) (use Suc.prems False in auto)
    then show ?thesis using Suc.prems(6) [of idx] Suc.prems(1) False by simp
  qed (use Suc.prems in simp)
qed simp

definition holds :: "string \<Rightarrow> int \<Rightarrow> cgi_conn \<Rightarrow> bool" where
  "holds P fd c \<longleftrightarrow> c = \<lparr>m_sockfd = fd, m_buf = P @ replicate (BUFFER_SIZE - length P) ZERO, m_read_idx = length P\<rparr>"

lemma holds_init: "holds [] fd (cgi_init fd)"
  by (simp add: holds_def cgi_init_def)

lemma holds_append:
  assumes "holds P fd c" "length P + length d \<le> BUFFER_SIZE"
  shows "holds (P @ d) fd (c\<lparr>m_buf := take (m_read_idx c) (m_buf c) @ d @ drop (m_read_idx c + length d) (m_buf c), m_read_idx := m_read_idx c + length d\<rparr>)"
  using assms by (simp add: holds_def)

text \<open>The request \<open>name\<close>, \<open>\r\n\<close> and what follows; the name has no \<open>\r\n\<close> and no zero.\<close>

definition name_good :: "string \<Rightarrow> bool" where
  "name_good name \<longleftrightarrow> no_crlf name (length name) \<and> ZERO \<notin> set name \<and> length name + 2 < BUFFER_SIZE"

definition answer :: "(string \<Rightarrow> bool) \<Rightarrow> int \<Rightarrow> string \<Rightarrow> outcome" where
  "answer access fork name = (if access name \<and> fork = 0 then Runs name else Removed)"

lemma name_positions:
  assumes "name_good name" "prefix P (name @ [CR, LF] @ rest)"
  shows "length P \<le> length name + 1 \<Longrightarrow> no_crlf P (length P)"
    and "no_crlf (name @ [CR, LF] @ rest) (length name + 1)"
proof -
  let ?s = "name @ [CR, LF] @ rest"
  show all: "no_crlf ?s (length name + 1)"
    unfolding no_crlf_def
  proof (intro allI impI notI)
    fix i assume i: "i < length name + 1" "i \<ge> 1 \<and> ?s ! (i - 1) = CR \<and> ?s ! i = LF"
    show False
    proof (cases "i < length name")
      case True
      then have "?s ! i = name ! i" "?s ! (i - 1) = name ! (i - 1)" by (simp_all add: nth_append less_imp_diff_less)
      then show ?thesis using i True assms(1) unfolding name_good_def no_crlf_def by metis
    next
      case False
      then show ?thesis using i by (auto simp: nth_append)
    qed
  qed
  show "no_crlf P (length P)" if "length P \<le> length name + 1"
    unfolding no_crlf_def
  proof (intro allI impI notI)
    fix i assume i: "i < length P" "i \<ge> 1 \<and> P ! (i - 1) = CR \<and> P ! i = LF"
    obtain z where "?s = P @ z" using assms(2) by (auto simp: prefix_def)
    then have "?s ! i = P ! i" "?s ! (i - 1) = P ! (i - 1)" using i by (simp_all add: nth_append less_imp_diff_less)
    then show False using all i that unfolding no_crlf_def by (metis less_le_trans)
  qed
qed

lemma cgi_step:
  assumes "name_good name" "holds P fd c" "d \<noteq> []" "P @ d @ R = name @ [CR, LF] @ rest" "length P \<le> length name + 1"
  shows "length P + length d \<le> length name + 1 \<Longrightarrow>
      \<exists>c'. holds (P @ d) fd c' \<and> cgi_process access fork (Data d # rs) c = cgi_process access fork rs c'"
    and "length name + 1 < length P + length d \<Longrightarrow> fst (cgi_process access fork (Data d # rs) c) = answer access fork name"
proof -
  let ?s = "name @ [CR, LF] @ rest" and ?n = "length name + 1"
  have len: "?n < BUFFER_SIZE - 1 + 1" "length name + 2 < BUFFER_SIZE" using assms(1) by (simp_all add: name_good_def)
  have ri: "m_read_idx c = length P" "length (m_buf c) = BUFFER_SIZE" using assms(2,5) len by (simp_all add: holds_def)
  define t where "t = take (BUFFER_SIZE - 1 - length P) d"
  define c1 where "c1 = c\<lparr>m_buf := take (length P) (m_buf c) @ t @ drop (length P + length t) (m_buf c), m_read_idx := length P + length t\<rparr>"
  have tl: "length P + length t \<le> BUFFER_SIZE - 1" using assms(5) len by (auto simp: t_def)
  have h1: "holds (P @ t) fd c1" using holds_append [OF assms(2), of t] tl ri by (simp add: c1_def)
  have tne: "t \<noteq> []" using assms(3,5) len by (auto simp: t_def)
  have pre: "prefix (P @ t) ?s"
  proof -
    have "?s = (P @ t) @ drop (BUFFER_SIZE - 1 - length P) d @ R" using assms(4) unfolding t_def by (metis append.assoc append_take_drop_id)
    then show ?thesis by (metis prefixI)
  qed
  have buf: "m_buf c1 ! i = ?s ! i" if "i < length P + length t" for i
  proof -
    obtain z where "?s = (P @ t) @ z" using pre by (auto simp: prefix_def)
    moreover have "m_buf c1 = (P @ t) @ replicate (BUFFER_SIZE - length (P @ t)) ZERO" using h1 by (simp add: holds_def)
    moreover have "i < length (P @ t)" using that by simp
    ultimately show ?thesis by (metis nth_append)
  qed
  have noc: "\<not> (i \<ge> 1 \<and> m_buf c1 ! (i - 1) = CR \<and> m_buf c1 ! i = LF)" if "i < length P + length t" "i < ?n" for i
    using name_positions(2) [OF assms(1) pre] buf [of i] buf [of "i - 1"] that by (auto simp: no_crlf_def)
  let ?i = "scan_crlf (m_buf c1) (length P) (length t)"
  have eq: "cgi_process access fork (Data d # rs) c =
      (if ?i = length P + length t then (if length t < length d then (Removed, c1) else cgi_process access fork rs c1)
       else if \<not> access (file_name ((m_buf c1)[?i - 1 := ZERO])) then (Removed, c1\<lparr>m_buf := (m_buf c1)[?i - 1 := ZERO]\<rparr>)
       else if fork = 0 then (Runs (file_name ((m_buf c1)[?i - 1 := ZERO])), c1\<lparr>m_buf := (m_buf c1)[?i - 1 := ZERO]\<rparr>)
       else (Removed, c1\<lparr>m_buf := (m_buf c1)[?i - 1 := ZERO]\<rparr>))"
    using tne unfolding cgi_process.simps cgi_chunk_def ri(1) t_def [symmetric] Let_def c1_def [symmetric] by (simp add: c1_def)
  {
    assume le: "length P + length d \<le> ?n"
    then have td: "t = d" using len by (auto simp: t_def)
    have "scan_crlf (m_buf c1) (length P) (length d) = length P + length d"
      by (rule scan_none) (use noc le td in auto)
    then have "cgi_process access fork (Data d # rs) c = cgi_process access fork rs c1"
      unfolding eq by (simp add: td)
    then show "\<exists>c'. holds (P @ d) fd c' \<and> cgi_process access fork (Data d # rs) c = cgi_process access fork rs c'" using h1 td by auto
  }
  {
    assume gt: "?n < length P + length d"
    have gt': "?n < length P + length t" using gt len assms(5) by (auto simp: t_def)
    have at_n: "m_buf c1 ! (?n - 1) = CR" "m_buf c1 ! ?n = LF" using buf [of ?n] buf [of "?n - 1"] gt' by (simp_all add: nth_append)
    have sc: "scan_crlf (m_buf c1) (length P) (length t) = ?n"
    proof (rule scan_found)
      show "\<not> (i \<ge> 1 \<and> m_buf c1 ! (i - 1) = CR \<and> m_buf c1 ! i = LF)" if "length P \<le> i" "i < ?n" for i
        by (rule noc) (use that gt' in auto)
    qed (use assms(5) gt' at_n in auto)
    have tk: "take (length name) (m_buf c1) = name"
    proof -
      have "length name \<le> length P + length t" using gt' by simp
      obtain z where "?s = (P @ t) @ z" using pre by (auto simp: prefix_def)
      then have "take (length name) (P @ t) = name" using \<open>length name \<le> length P + length t\<close>
        by (metis append_eq_conv_conj length_append take_append diff_is_0_eq take_0 append_Nil2)
      then show ?thesis using h1 \<open>length name \<le> length P + length t\<close> by (simp add: holds_def)
    qed
    have lb: "length (m_buf c1) = BUFFER_SIZE" using h1 tl by (simp add: holds_def)
    have "m_buf c1 = name @ drop (length name) (m_buf c1)" using tk by (metis append_take_drop_id)
    then have "(m_buf c1)[length name := ZERO] = name @ ZERO # drop (length name + 1) (m_buf c1)"
      using lb len by (metis tk upd_conv_take_nth_drop Suc_eq_plus1 add_lessD1)
    then have fn: "file_name ((m_buf c1)[length name := ZERO]) = name"
      using assms(1) by (simp add: file_name_def name_good_def takeWhile_append)
    have c1r: "length P + length t \<noteq> ?n" using gt' by simp
    show "fst (cgi_process access fork (Data d # rs) c) = answer access fork name"
      unfolding eq sc using c1r fn by (simp add: answer_def)
  }
qed

text \<open>C38. A CGI request is found in the stream however it is cut into chunks: the connection runs exactly the program that the client
  named before the first \<open>\r\n\<close>, in the child, and is closed in the parent, or if there is no such file.\<close>
theorem cgi_request:
  assumes "name_good name" "concat ds = name @ [CR, LF] @ rest" "[] \<notin> set ds"
  shows "fst (cgi_process access fork (map Data ds) (cgi_init fd)) = answer access fork name"
proof -
  have "fst (cgi_process access fork (map Data ds) c) = answer access fork name"
    if "holds P fd c" "P @ concat ds = name @ [CR, LF] @ rest" "length P \<le> length name + 1" "[] \<notin> set ds" for P c
    using that
  proof (induction ds arbitrary: P c)
    case Nil
    have "length P = length (name @ [CR, LF] @ rest)" using Nil.prems(2) by simp
    then show ?case using Nil.prems(3) by simp
  next
    case (Cons d ds)
    have d: "d \<noteq> []" "P @ d @ concat ds = name @ [CR, LF] @ rest" using Cons.prems by auto
    note step = cgi_step [OF assms(1) Cons.prems(1) d Cons.prems(3), of access fork "map Data ds"]
    show ?case
    proof (cases "length P + length d \<le> length name + 1")
      case True
      then obtain c' where c': "holds (P @ d) fd c'" "cgi_process access fork (Data d # map Data ds) c = cgi_process access fork (map Data ds) c'"
        using step(1) by blast
      have "fst (cgi_process access fork (map Data ds) c') = answer access fork name"
        by (rule Cons.IH [OF c'(1)]) (use Cons.prems True in auto)
      then show ?thesis by (simp only: list.map c'(2))
    next
      case False
      then show ?thesis using step(2) by (simp only: list.map not_le)
    qed
  qed
  from this [OF holds_init] show ?thesis using assms(2,3) by simp
qed

theorem cgi_request_witness:
  "fst (cgi_process (\<lambda>f. f = ''a.cgi'') 0 (map Data [''a.cg'', ''i'' @ [CR], [LF]]) (cgi_init 5)) = Runs ''a.cgi''"
  using cgi_request [of "''a.cgi''" "[''a.cg'', ''i'' @ [CR], [LF]]" "[]" "\<lambda>f. f = ''a.cgi''" 0 5]
  by (simp add: answer_def name_good_def no_crlf_def BUFFER_SIZE_def less_Suc_eq)

end
