(* ===== verification/Process_Pool.thy ===== *)
theory Process_Pool
  imports Cgi_Conn
begin

text \<open>
  \<open>src/ProcessPool/process_pool/processpool.h\<close>: the pool of processes with the handler \<open>cgi_conn\<close>. The results of
  system calls are arguments; the calls with an effect on other processes or on descriptors are recorded in \<open>acts\<close> in
  their order. A failed assertion or an access outside an array is \<open>None\<close>.
\<close>

subsection \<open>The pool\<close>

record process_s =
  m_pid :: int
  m_pipefd :: "int \<times> int"

datatype act = Close int | Send int | Kill int | Accept | Add_fd int

definition MAX_PROCESS_NUMBER :: nat where "MAX_PROCESS_NUMBER = 16"
definition USER_PER_PROCESS :: nat where "USER_PER_PROCESS = 65536"

record processpool =
  m_process_number :: nat
  m_idx :: int
  m_stop :: bool
  m_sub_process :: "process_s list"
  acts :: "act list"

definition act :: "act \<Rightarrow> processpool \<Rightarrow> processpool" where
  "act a p = p\<lparr>acts := acts p @ [a]\<rparr>"

text \<open>The constructor's loop: for each child the pipe of \<open>socketpair\<close> and the result of \<open>fork\<close>, which is 0 in the child.\<close>

fun create_loop :: "nat \<Rightarrow> ((int \<times> int) \<times> int) list \<Rightarrow> processpool \<Rightarrow> processpool option" where
  "create_loop i [] p = Some p"
| "create_loop i (((a, b), pid) # rs) p =
     (if pid < 0 then None
      else let p = p\<lparr>m_sub_process := (m_sub_process p)[i := \<lparr>m_pid = pid, m_pipefd = (a, b)\<rparr>]\<rparr> in
        if pid > 0 then create_loop (i + 1) rs (act (Close b) p)
        else Some ((act (Close a) p)\<lparr>m_idx := int i\<rparr>))"

definition processpool_new :: "nat \<Rightarrow> ((int \<times> int) \<times> int) list \<Rightarrow> processpool option" where
  "processpool_new n rs =
     (if \<not> (0 < n \<and> n \<le> MAX_PROCESS_NUMBER) then None
      else create_loop 0 (take n rs)
        \<lparr>m_process_number = n, m_idx = -1, m_stop = False, m_sub_process = replicate n \<lparr>m_pid = -1, m_pipefd = (-1, -1)\<rparr>, acts = []\<rparr>)"

subsection \<open>The parent\<close>

text \<open>The loop that looks for a child from the counter \<open>c\<close> on; after \<open>n\<close> steps it is back at \<open>c\<close>.\<close>

fun pick_loop :: "nat \<Rightarrow> process_s list \<Rightarrow> nat \<Rightarrow> nat \<Rightarrow> nat \<Rightarrow> nat option" where
  "pick_loop 0 ps n c i = None"
| "pick_loop (Suc k) ps n c i =
     (if i \<ge> length ps then None
      else if m_pid (ps ! i) \<noteq> -1 then Some i
      else let i = (i + 1) mod n in if i \<noteq> c then pick_loop k ps n c i else Some i)"

text \<open>A connection: the new counter, and whether the loop over the events goes on.\<close>

definition on_listen :: "nat \<Rightarrow> processpool \<Rightarrow> (bool \<times> nat \<times> processpool) option" where
  "on_listen c p = do {
     i \<leftarrow> pick_loop (m_process_number p) (m_sub_process p) (m_process_number p) c c;
     if m_pid (m_sub_process p ! i) = -1 then Some (False, c, p\<lparr>m_stop := True\<rparr>)
     else Some (True, (i + 1) mod m_process_number p, act (Send (fst (m_pipefd (m_sub_process p ! i)))) p)
   }"

text \<open>A child that has ended: \<open>k\<close> children are left to compare.\<close>

fun join_loop :: "nat \<Rightarrow> int \<Rightarrow> nat \<Rightarrow> processpool \<Rightarrow> processpool" where
  "join_loop 0 pid i p = p"
| "join_loop (Suc k) pid i p =
     join_loop k pid (i + 1)
       (if m_pid (m_sub_process p ! i) = pid
        then (act (Close (fst (m_pipefd (m_sub_process p ! i)))) p)\<lparr>m_sub_process := (m_sub_process p)[i := (m_sub_process p ! i)\<lparr>m_pid := -1\<rparr>]\<rparr>
        else p)"

definition on_sigchld :: "int list \<Rightarrow> processpool \<Rightarrow> processpool" where
  "on_sigchld pids p =
     (let p = fold (\<lambda>pid p. join_loop (m_process_number p) pid 0 p) (takeWhile (\<lambda>pid. pid > 0) pids) p in
      p\<lparr>m_stop := \<not> list_ex (\<lambda>s. m_pid s \<noteq> -1) (m_sub_process p)\<rparr>)"

definition on_sigterm :: "processpool \<Rightarrow> processpool" where
  "on_sigterm p = fold (\<lambda>s p. if m_pid s \<noteq> -1 then act (Kill (m_pid s)) p else p) (m_sub_process p) p"

text \<open>The signals that are read from the pipe; with \<open>SIGCHLD\<close> the results of \<open>waitpid\<close>.\<close>

datatype signal = SIGCHLD "int list" | SIGTERM | SIGINT | Other_signal

fun on_signal :: "signal \<Rightarrow> processpool \<Rightarrow> processpool" where
  "on_signal (SIGCHLD pids) p = on_sigchld pids p"
| "on_signal SIGTERM p = on_sigterm p"
| "on_signal SIGINT p = on_sigterm p"
| "on_signal Other_signal p = p"

datatype event = Listen | Signals "signal list" | Other_event

fun parent_events :: "event list \<Rightarrow> nat \<Rightarrow> processpool \<Rightarrow> (nat \<times> processpool) option" where
  "parent_events [] c p = Some (c, p)"
| "parent_events (Listen # es) c p = do {
     (ok, c, p) \<leftarrow> on_listen c p;
     if ok then parent_events es c p else Some (c, p)
   }"
| "parent_events (Signals ss # es) c p = parent_events es c (fold on_signal ss p)"
| "parent_events (Other_event # es) c p = parent_events es c p"

text \<open>\<open>run_parent\<close> with the results of \<open>epoll_wait\<close>, where \<open>None\<close> is a failure other than \<open>EINTR\<close>; after the last one it waits. The
  result says whether it has returned.\<close>

fun parent_loop :: "event list option list \<Rightarrow> nat \<Rightarrow> processpool \<Rightarrow> (bool \<times> nat \<times> processpool) option" where
  "parent_loop bs c p =
     (if m_stop p then Some (True, c, p)
      else case bs of [] \<Rightarrow> Some (False, c, p)
      | None # bs \<Rightarrow> Some (True, c, p)
      | Some es # bs \<Rightarrow> do { (c, p) \<leftarrow> parent_events es c p; parent_loop bs c p })"

definition run_parent :: "int \<Rightarrow> event list option list \<Rightarrow> processpool \<Rightarrow> (bool \<times> processpool) option" where
  "run_parent epollfd bs p = do { (ended, c, p) \<leftarrow> parent_loop bs 0 p; Some (ended, if ended then act (Close epollfd) p else p) }"

subsection \<open>A child\<close>

text \<open>The events of a child: the pipe to the parent with the result of \<open>recv\<close>, whether \<open>errno\<close> is \<open>EAGAIN\<close>, and the result of
  \<open>accept\<close>; its signals; a connection with the data it has. \<open>us\<close> is the array of users. \<open>fork\<close> is the result of a
  \<open>fork\<close> in the child itself, a process id or -1.\<close>

datatype child_event = Pipe int bool int | Child_signals "signal list" | Conn int "recv list" | Other_child_event

fun child_signal :: "signal \<Rightarrow> processpool \<Rightarrow> processpool" where
  "child_signal SIGTERM p = p\<lparr>m_stop := True\<rparr>"
| "child_signal SIGINT p = p\<lparr>m_stop := True\<rparr>"
| "child_signal s p = p"

type_synonym users = "nat \<rightharpoonup> cgi_conn"

fun child_event_step :: "(string \<Rightarrow> bool) \<Rightarrow> int \<Rightarrow> child_event \<Rightarrow> processpool \<times> users \<Rightarrow> (processpool \<times> users) option" where
  "child_event_step access fork (Pipe ret again connfd) (p, us) =
     (if ret < 0 \<and> \<not> again \<or> ret = 0 then Some (p, us)
      else if connfd < 0 then Some (act Accept p, us)
      else if nat connfd \<ge> USER_PER_PROCESS then None
      else Some (act (Add_fd connfd) (act Accept p), us(nat connfd \<mapsto> cgi_init connfd)))"
| "child_event_step access fork (Child_signals ss) (p, us) = Some (fold child_signal ss p, us)"
| "child_event_step access fork (Conn fd rs) (p, us) =
     (if fd < 0 \<or> nat fd \<ge> USER_PER_PROCESS then None
      else do {
        c \<leftarrow> us (nat fd);
        (r, c) \<leftarrow> Some (cgi_process access fork rs c);
        Some (if r = Removed then act (Close fd) p else p, us(nat fd \<mapsto> c))
      })"
| "child_event_step access fork Other_child_event (p, us) = Some (p, us)"

fun child_events :: "(string \<Rightarrow> bool) \<Rightarrow> int \<Rightarrow> child_event list \<Rightarrow> processpool \<times> users \<Rightarrow> (processpool \<times> users) option" where
  "child_events access fork [] s = Some s"
| "child_events access fork (e # es) s = do { s \<leftarrow> child_event_step access fork e s; child_events access fork es s }"

fun child_loop :: "(string \<Rightarrow> bool) \<Rightarrow> int \<Rightarrow> child_event list option list \<Rightarrow> processpool \<times> users \<Rightarrow> (bool \<times> processpool \<times> users) option" where
  "child_loop access fork bs s =
     (if m_stop (fst s) then Some (True, s)
      else case bs of [] \<Rightarrow> Some (False, s)
      | None # bs \<Rightarrow> Some (True, s)
      | Some es # bs \<Rightarrow> do { s \<leftarrow> child_events access fork es s; child_loop access fork bs s })"

definition run_child :: "(string \<Rightarrow> bool) \<Rightarrow> int \<Rightarrow> int \<Rightarrow> child_event list option list \<Rightarrow> processpool \<Rightarrow> (bool \<times> processpool) option" where
  "run_child access fork epollfd bs p =
     (if m_idx p < 0 \<or> nat (m_idx p) \<ge> length (m_sub_process p) then None
      else do {
        (ended, p, us) \<leftarrow> child_loop access fork bs (p, Map.empty);
        Some (ended, if ended then act (Close epollfd) (act (Close (snd (m_pipefd (m_sub_process p ! nat (m_idx p))))) p) else p)
      })"

end
