(* ===== verification/Process_Pool_Correct.thy ===== *)
theory Process_Pool_Correct
  imports Process_Pool
begin

text \<open>
  The parent of the process pool: which child gets a connection, and that it uses no pipe it has closed.
\<close>

subsection \<open>The choice of a child\<close>






subsection \<open>Descriptors\<close>

definition closed :: "act list \<Rightarrow> int set" where
  "closed as = {a. Close a \<in> set as}"

fun fd_of :: "act \<Rightarrow> int option" where
  "fd_of (Close a) = Some a"
| "fd_of (Send a) = Some a"
| "fd_of _ = None"

text \<open>No descriptor is closed or written to after it was closed.\<close>

definition safe_acts :: "act list \<Rightarrow> bool" where
  "safe_acts as \<longleftrightarrow> (\<forall>i < length as. \<forall>a. fd_of (as ! i) = Some a \<longrightarrow> a \<notin> closed (take i as))"

lemma safe_Nil [simp]: "safe_acts []"
  by (simp add: safe_acts_def)

lemma safe_snoc [simp]: "safe_acts (as @ [x]) \<longleftrightarrow> safe_acts as \<and> (\<forall>a. fd_of x = Some a \<longrightarrow> a \<notin> closed as)"
  by (auto simp: safe_acts_def nth_append less_Suc_eq)

lemma closed_snoc [simp]: "closed (as @ [x]) = (case x of Close a \<Rightarrow> insert a (closed as) | _ \<Rightarrow> closed as)"
  by (auto simp: closed_def split: act.splits)

lemma act_sel [simp]: "m_process_number (act a p) = m_process_number p" "m_stop (act a p) = m_stop p"
  "m_sub_process (act a p) = m_sub_process p" "acts (act a p) = acts p @ [a]" "m_idx (act a p) = m_idx p"
  by (simp_all add: act_def)





lemma join_loop_keeps [simp]: "m_process_number (join_loop k pid i p) = m_process_number p" "m_stop (join_loop k pid i p) = m_stop p"
  by (induction k arbitrary: i p) auto








subsection \<open>A pool\<close>











end
