(* ===== verification/Pool_Cpp.thy ===== *)
theory Pool_Cpp
  imports Prelude "HOL-Library.Multiset"
begin

text \<open>
  \<open>src/threadpool/ThreadPool(C++)/threadpool.h\<close>: the pool with a queue under a mutex and a semaphore that counts its
  requests. A section between \<open>lock\<close> and \<open>unlock\<close> is one step, and so is each operation of the semaphore; a request is a
  number and 0 is the null pointer. The destructor is not a step: it frees the object that the detached workers go on using,
  so \<open>m_stop\<close> is never set while a worker may read it.
\<close>

subsection \<open>The operations\<close>








subsection \<open>Threads\<close>




subsection \<open>The invariant\<close>















end
