(* ===== verification/Timer_Class.thy ===== *)
theory Timer_Class
  imports Prelude
begin

text \<open>
  The class \<open>Timer\<close> of the C++ timers under \<open>src/timer\<close>, which hands out numbers for timers, keeps a stack of
  numbers to use again, and runs \<open>tick\<close> in a thread. There is one copy of it over the time wheel and one over the time heap;
  here it is over any store of timers with \<open>add\<close>, \<open>del\<close> and \<open>tick\<close>. The class has no lock: the model takes each
  call and each round of the thread as one step.
\<close>

subsection \<open>The class\<close>

text \<open>An entry of \<open>timers\<close> (here \<open>table\<close>) or \<open>stack\<close> that was never written is \<open>None\<close>.\<close>

record 's timer =
  store_of :: 's
  table :: "int \<rightharpoonup> ptr"
  timer_count :: int
  isStart :: bool
  stack :: "int \<rightharpoonup> int"
  stack_index :: int

definition TABLE_SIZE :: int where
  "TABLE_SIZE = 65536"

definition table_get :: "(int \<rightharpoonup> 'a) \<Rightarrow> int \<Rightarrow> 'a option" where
  "table_get m i = (if 0 \<le> i \<and> i < TABLE_SIZE then m i else None)"

definition table_set :: "(int \<rightharpoonup> 'a) \<Rightarrow> int \<Rightarrow> 'a \<Rightarrow> (int \<rightharpoonup> 'a) option" where
  "table_set m i x = (if 0 \<le> i \<and> i < TABLE_SIZE then Some (m(i \<mapsto> x)) else None)"

definition timer_new :: "'s \<Rightarrow> 's timer" where
  "timer_new s = \<lparr>store_of = s, table = Map.empty, timer_count = 0, isStart = False, stack = Map.empty, stack_index = 0\<rparr>"

definition timer_start :: "'s timer \<Rightarrow> 's timer" where
  "timer_start t = t\<lparr>isStart := True\<rparr>"

definition timer_stop :: "'s timer \<Rightarrow> 's timer" where
  "timer_stop t = t\<lparr>isStart := False\<rparr>"

definition addTimer :: "('s \<Rightarrow> (ptr \<times> 's) option) \<Rightarrow> 's timer \<Rightarrow> (int \<times> 's timer) option" where
  "addTimer add t =
     (if stack_index t \<le> 0 then do {
        (p, s) \<leftarrow> add (store_of t);
        m \<leftarrow> table_set (table t) (timer_count t) p;
        Some (timer_count t, t\<lparr>store_of := s, table := m, timer_count := timer_count t + 1\<rparr>)
      } else do {
        i \<leftarrow> table_get (stack t) (stack_index t - 1);
        (p, s) \<leftarrow> add (store_of t);
        m \<leftarrow> table_set (table t) i p;
        Some (i, t\<lparr>store_of := s, table := m, stack_index := stack_index t - 1\<rparr>)
      })"

definition deleteTimer :: "(ptr \<Rightarrow> 's \<Rightarrow> 's option) \<Rightarrow> int \<Rightarrow> 's timer \<Rightarrow> (int \<times> 's timer) option" where
  "deleteTimer del n t = do {
     p \<leftarrow> table_get (table t) n;
     if p \<noteq> NULL then do {
       s \<leftarrow> del p (store_of t);
       st \<leftarrow> table_set (stack t) (stack_index t) n;
       Some (0, t\<lparr>store_of := s, stack := st, stack_index := stack_index t + 1\<rparr>)
     } else Some (-1, t)
   }"

text \<open>The thread: it spins until \<open>isStart\<close>, tests the flag before each round, sleeps and ticks.\<close>

datatype run_state = Spins | Tests | Sleeps | Returned

definition run_step :: "('s \<Rightarrow> ('o \<times> 's) option) \<Rightarrow> run_state \<Rightarrow> 's timer \<Rightarrow> (run_state \<times> 's timer) option" where
  "run_step tick r t =
     (case r of
        Spins \<Rightarrow> Some (if isStart t then Tests else Spins, t)
      | Tests \<Rightarrow> Some (if isStart t then Sleeps else Returned, t)
      | Sleeps \<Rightarrow> do { (out, s) \<leftarrow> tick (store_of t); Some (Tests, t\<lparr>store_of := s\<rparr>) }
      | Returned \<Rightarrow> Some (Returned, t))"

subsection \<open>A client and the thread\<close>

text \<open>\<open>owned\<close> are the numbers a client may use: it got them from \<open>addTimer\<close>, has not deleted them, and the timer is still in the
  store. \<open>fits\<close> says which requests may be made: the allocator returns a fresh address, the handler is an object, and so on.\<close>

record 's timer_state =
  object :: "'s timer"
  thread :: run_state
  owned :: "int set"

inductive timer_step :: "('r \<Rightarrow> 's \<Rightarrow> (ptr \<times> 's) option) \<Rightarrow> (ptr \<Rightarrow> 's \<Rightarrow> 's option) \<Rightarrow> ('c \<Rightarrow> 's \<Rightarrow> ('o \<times> 's) option) \<Rightarrow>
    ('s \<Rightarrow> ptr set) \<Rightarrow> ('r \<Rightarrow> 's \<Rightarrow> bool) \<Rightarrow> 's timer_state \<Rightarrow> 's timer_state \<Rightarrow> bool"
  for add del tick pending fits where
  adds: "fits r (store_of (object s)) \<Longrightarrow> addTimer (add r) (object s) = Some (i, t) \<Longrightarrow>
    timer_step add del tick pending fits s (s\<lparr>object := t, owned := insert i (owned s)\<rparr>)"
| deletes: "i \<in> owned s \<Longrightarrow> deleteTimer del i (object s) = Some (r', t) \<Longrightarrow>
    timer_step add del tick pending fits s (s\<lparr>object := t, owned := owned s - {i}\<rparr>)"
| starts: "timer_step add del tick pending fits s (s\<lparr>object := timer_start (object s)\<rparr>)"
| stops: "timer_step add del tick pending fits s (s\<lparr>object := timer_stop (object s)\<rparr>)"
| runs: "run_step (tick c) (thread s) (object s) = Some (r, t) \<Longrightarrow>
    timer_step add del tick pending fits s (s\<lparr>object := t, thread := r, owned := {i \<in> owned s. the (table t i) \<in> pending (store_of t)}\<rparr>)"

definition timer_begin :: "'s \<Rightarrow> 's timer_state" where
  "timer_begin s = \<lparr>object = timer_new s, thread = Spins, owned = {}\<rparr>"

subsection \<open>The interface of the store\<close>

text \<open>\<open>pending\<close> are the timers in the store that will run.\<close>

locale timer_store =
  fixes add :: "'r \<Rightarrow> 's \<Rightarrow> (ptr \<times> 's) option" and del :: "ptr \<Rightarrow> 's \<Rightarrow> 's option" and tick :: "'c \<Rightarrow> 's \<Rightarrow> ('o \<times> 's) option"
    and pending :: "'s \<Rightarrow> ptr set" and fits :: "'r \<Rightarrow> 's \<Rightarrow> bool" and good :: "'s \<Rightarrow> bool" and fresh :: "'s \<Rightarrow> bool"
  assumes fresh_law: "fresh s \<Longrightarrow> good s \<and> pending s = {}"
    and null_law: "good s \<Longrightarrow> NULL \<notin> pending s"
    and add_law: "good s \<Longrightarrow> fits r s \<Longrightarrow> wp (add r s) (\<lambda>(p, s'). good s' \<and> p \<notin> pending s \<and> pending s' = insert p (pending s))"
    and del_law: "good s \<Longrightarrow> p \<in> pending s \<Longrightarrow> wp (del p s) (\<lambda>s'. good s' \<and> pending s' = pending s - {p})"
    and tick_law: "good s \<Longrightarrow> wp (tick c s) (\<lambda>(out, s'). good s' \<and> pending s' \<subseteq> pending s)"

text \<open>The numbers on the stack from the bottom on.\<close>

definition stack_holds :: "'s timer \<Rightarrow> int list \<Rightarrow> bool" where
  "stack_holds t st \<longleftrightarrow> stack_index t = int (length st) \<and> (\<forall>k < length st. stack t (int k) = Some (st ! k))"

text \<open>Numbers below the count are in a client's hand, on the stack, or of a timer that has run; the first name the pending
  timers one to one.\<close>

definition ids_ok :: "'s timer \<Rightarrow> int set \<Rightarrow> ptr set \<Rightarrow> bool" where
  "ids_ok t L P \<longleftrightarrow> 0 \<le> timer_count t \<and> timer_count t \<le> TABLE_SIZE \<and> L \<subseteq> {0..<timer_count t} \<and>
     (\<exists>st. stack_holds t st \<and> distinct st \<and> set st \<subseteq> {0..<timer_count t} - L) \<and>
     (\<forall>i \<in> L. table t i \<noteq> None) \<and> bij_betw (\<lambda>i. the (table t i)) L P"

text \<open>Whether \<open>addTimer\<close> has a number left.\<close>

definition id_left :: "'s timer \<Rightarrow> bool" where
  "id_left t \<longleftrightarrow> 0 < stack_index t \<or> timer_count t < TABLE_SIZE"

lemma stack_holds_push: "stack_holds t st \<Longrightarrow> stack_holds (t\<lparr>store_of := s, stack := (stack t)(stack_index t \<mapsto> n), stack_index := stack_index t + 1\<rparr>) (st @ [n])"
  by (auto simp: stack_holds_def nth_append less_Suc_eq)

lemma stack_holds_pop:
  assumes "stack_holds t st" "0 < stack_index t"
  shows "st \<noteq> []" "stack t (stack_index t - 1) = Some (last st)"
    and "stack_holds (t\<lparr>store_of := s, table := m, stack_index := stack_index t - 1\<rparr>) (butlast st)"
proof -
  show st: "st \<noteq> []" using assms by (auto simp: stack_holds_def)
  then have k: "stack_index t - 1 = int (length st - 1)" "length st - 1 < length st" using assms(1) by (cases st; simp add: stack_holds_def)+
  show "stack t (stack_index t - 1) = Some (last st)"
    unfolding k(1) using assms(1) k(2) st by (simp add: stack_holds_def last_conv_nth)
  show "stack_holds (t\<lparr>store_of := s, table := m, stack_index := stack_index t - 1\<rparr>) (butlast st)"
    using assms(1) k by (simp add: stack_holds_def nth_butlast)
qed

lemma bij_insert:
  assumes "bij_betw (\<lambda>i. the (m i)) L P" "i \<notin> L" "p \<notin> P"
  shows "bij_betw (\<lambda>j. the ((m(i \<mapsto> p)) j)) (insert i L) (insert p P)"
proof -
  have "bij_betw (\<lambda>j. the ((m(i \<mapsto> p)) j)) L P" using assms(1,2) by (auto intro: iffD1 [OF bij_betw_cong, rotated])
  then show ?thesis using assms(2,3) by (simp add: bij_betw_def)
qed

lemma bij_filter:
  assumes "bij_betw f L P" "Q \<subseteq> P"
  shows "bij_betw f {i \<in> L. f i \<in> Q} Q"
  using assms unfolding bij_betw_def by (auto intro: inj_on_subset)

lemma bij_remove:
  assumes "bij_betw f L P" "i \<in> L"
  shows "bij_betw f (L - {i}) (P - {f i})"
  using assms by (auto simp: bij_betw_def inj_on_def)

lemma ids_pushable:
  assumes "ids_ok t L P" "i \<in> L"
  shows "0 \<le> stack_index t \<and> stack_index t < TABLE_SIZE"
proof -
  obtain st where st: "stack_holds t st" "distinct st" "set st \<subseteq> {0..<timer_count t} - L" using assms(1) by (auto simp: ids_ok_def)
  have "set st \<subseteq> {0..<timer_count t} - {i}" using st(3) assms(2) by blast
  then have "length st \<le> card ({0..<timer_count t} - {i})" using st(2) by (metis distinct_card card_mono finite_Diff finite_atLeastLessThan_int)
  moreover have "i \<in> {0..<timer_count t}" using assms by (auto simp: ids_ok_def)
  ultimately have "length st \<le> nat (timer_count t) - 1" "0 < timer_count t" by auto
  then show ?thesis using st(1) assms(1) by (auto simp: stack_holds_def ids_ok_def)
qed

lemma ids_set:
  assumes "ids_ok t L P" "i \<notin> L" "p \<notin> P" "0 \<le> i" "i < c" "timer_count t \<le> c" "c \<le> TABLE_SIZE"
    and "stack_holds t' st" "distinct st" "set st \<subseteq> {0..<c} - insert i L" "timer_count t' = c" "table t' = (table t)(i \<mapsto> p)"
  shows "ids_ok t' (insert i L) (insert p P)"
  unfolding ids_ok_def assms(11,12)
proof (intro conjI exI [of _ st])
  show "bij_betw (\<lambda>j. the (((table t)(i \<mapsto> p)) j)) (insert i L) (insert p P)"
    by (rule bij_insert) (use assms in \<open>simp_all add: ids_ok_def\<close>)
qed (use assms in \<open>auto simp: ids_ok_def\<close>)

context timer_store
begin

lemma add_ids:
  assumes "ids_ok t L (pending (store_of t))" "good (store_of t)" "fits r (store_of t)" "id_left t"
  shows "wp (addTimer (add r) t) (\<lambda>(i, t'). i \<notin> L \<and> good (store_of t') \<and> ids_ok t' (insert i L) (pending (store_of t')))"
proof -
  obtain p s where ps: "add r (store_of t) = Some (p, s)" "good s" "p \<notin> pending (store_of t)" "pending s = insert p (pending (store_of t))"
    using add_law [OF assms(2,3)] by (auto elim!: wpE)
  obtain st where st: "stack_holds t st" "distinct st" "set st \<subseteq> {0..<timer_count t} - L" using assms(1) by (auto simp: ids_ok_def)
  have c: "0 \<le> timer_count t" "timer_count t \<le> TABLE_SIZE" "L \<subseteq> {0..<timer_count t}" using assms(1) by (auto simp: ids_ok_def)
  show ?thesis
  proof (cases "stack_index t \<le> 0")
    case True
    let ?t = "t\<lparr>store_of := s, table := (table t)(timer_count t \<mapsto> p), timer_count := timer_count t + 1\<rparr>"
    have lt: "timer_count t < TABLE_SIZE" using assms(4) True by (simp add: id_left_def)
    have "ids_ok ?t (insert (timer_count t) L) (insert p (pending (store_of t)))"
      by (rule ids_set [OF assms(1) _ ps(3), where c = "timer_count t + 1" and st = st]) (use st c lt in \<open>auto simp: stack_holds_def\<close>)
    moreover have "timer_count t \<notin> L" using c by auto
    ultimately show ?thesis using True ps lt c by (simp add: addTimer_def table_set_def)
  next
    case False
    let ?t = "t\<lparr>store_of := s, table := (table t)(last st \<mapsto> p), stack_index := stack_index t - 1\<rparr>"
    have pop: "st \<noteq> []" "stack t (stack_index t - 1) = Some (last st)"
      "stack_holds ?t (butlast st)"
      using stack_holds_pop [OF st(1)] False by auto
    have l: "last st \<in> set st" "last st \<notin> set (butlast st)" "distinct (butlast st)" "set (butlast st) \<subseteq> set st"
      using pop(1) st(2) by (auto simp: distinct_butlast dest: in_set_butlastD) (metis append_butlast_last_id distinct_append disjoint_iff list.set_intros(1))
    have rg: "0 \<le> last st" "last st < timer_count t" "last st \<notin> L" using l(1) st(3) by auto
    have si: "stack_index t - 1 < TABLE_SIZE"
    proof -
      have "card (set st) \<le> card {0..<timer_count t}" by (rule card_mono) (use st(3) in auto)
      then show ?thesis using st(1,2) c by (simp add: stack_holds_def distinct_card)
    qed
    have "ids_ok ?t (insert (last st) L) (insert p (pending (store_of t)))"
      by (rule ids_set [OF assms(1) _ ps(3), where c = "timer_count t" and st = "butlast st"]) (use st c rg l pop in auto)
    then show ?thesis using False ps rg si c pop(2) by (simp add: addTimer_def table_set_def table_get_def)
  qed
qed

lemma delete_ids:
  assumes "ids_ok t L (pending (store_of t))" "good (store_of t)" "i \<in> L"
  shows "wp (deleteTimer del i t) (\<lambda>(r, t'). r = 0 \<and> good (store_of t') \<and> ids_ok t' (L - {i}) (pending (store_of t')))"
proof -
  have c: "0 \<le> i" "i < timer_count t" "timer_count t \<le> TABLE_SIZE" using assms(1,3) by (auto simp: ids_ok_def)
  obtain p where p: "table t i = Some p" "p \<in> pending (store_of t)"
    using assms(1,3) by (force simp: ids_ok_def bij_betw_def)
  obtain s where s: "del p (store_of t) = Some s" "good s" "pending s = pending (store_of t) - {p}"
    using del_law [OF assms(2) p(2)] by (auto elim!: wpE)
  obtain st where st: "stack_holds t st" "distinct st" "set st \<subseteq> {0..<timer_count t} - L" using assms(1) by (auto simp: ids_ok_def)
  let ?t = "t\<lparr>store_of := s, stack := (stack t)(stack_index t \<mapsto> i), stack_index := stack_index t + 1\<rparr>"
  have "stack_holds ?t (st @ [i])" by (rule stack_holds_push [OF st(1)])
  moreover have "bij_betw (\<lambda>j. the (table t j)) (L - {i}) (pending (store_of t) - {p})"
    using bij_remove [of "\<lambda>j. the (table t j)", OF _ assms(3)] assms(1) p(1) by (force simp: ids_ok_def)
  ultimately have "ids_ok ?t (L - {i}) (pending s)"
    using assms(1,3) st c s(3) unfolding ids_ok_def by (auto intro!: exI [of _ "st @ [i]"])
  moreover have "p \<noteq> NULL" using p(2) null_law [OF assms(2)] by metis
  ultimately show ?thesis using ids_pushable [OF assms(1,3)] p(1) s c by (simp add: deleteTimer_def table_set_def table_get_def)
qed

lemma run_ids:
  assumes "ids_ok t L (pending (store_of t))" "good (store_of t)"
  shows "wp (run_step (tick c) r t) (\<lambda>(r', t'). good (store_of t') \<and>
    ids_ok t' {i \<in> L. the (table t' i) \<in> pending (store_of t')} (pending (store_of t')))"
proof -
  have smaller: "ids_ok (t\<lparr>store_of := s\<rparr>) {i \<in> L. the (table t i) \<in> pending s} (pending s)" if "pending s \<subseteq> pending (store_of t)" for s
  proof -
    have "bij_betw (\<lambda>i. the (table t i)) {i \<in> L. the (table t i) \<in> pending s} (pending s)"
      using assms(1) that by (intro bij_filter) (auto simp: ids_ok_def)
    moreover obtain st where "stack_holds t st" "distinct st" "set st \<subseteq> {0..<timer_count t} - L" using assms(1) by (auto simp: ids_ok_def)
    ultimately show ?thesis using assms(1) unfolding ids_ok_def by (auto simp: stack_holds_def intro!: exI [of _ st])
  qed
  have same: "ids_ok t {i \<in> L. the (table t i) \<in> pending (store_of t)} (pending (store_of t))" using smaller [of "store_of t"] by simp
  show ?thesis
  proof (cases r)
    case Sleeps
    then show ?thesis using tick_law [OF assms(2), of c] smaller by (auto simp: run_step_def wp_bind elim!: wp_mono)
  qed (use same assms(2) in \<open>simp_all add: run_step_def\<close>)
qed

definition timers_ok :: "'s timer_state \<Rightarrow> bool" where
  "timers_ok s \<longleftrightarrow> good (store_of (object s)) \<and> ids_ok (object s) (owned s) (pending (store_of (object s)))"

lemma flag_ids: "ids_ok (t\<lparr>isStart := b\<rparr>) L P = ids_ok t L P"
  by (simp add: ids_ok_def stack_holds_def)

lemma added_has_id: "addTimer f t = Some (i, t') \<Longrightarrow> id_left t"
  by (auto simp: addTimer_def id_left_def table_set_def Option.bind_eq_Some_conv split: if_splits)

lemma timers_ok_step:
  assumes "timers_ok s" "timer_step add del tick pending fits s s'"
  shows "timers_ok s'"
  using assms(2)
proof (cases rule: timer_step.cases)
  case (adds r i t)
  then show ?thesis using add_ids [OF _ _ adds(2) added_has_id [OF adds(3)], of "owned s"] assms(1) by (simp add: timers_ok_def)
next
  case (deletes i r t)
  then show ?thesis using delete_ids [of "object s", OF _ _ deletes(2)] assms(1) by (simp add: timers_ok_def)
next
  case (runs c r t)
  then show ?thesis using run_ids [of "object s" "owned s" c "thread s"] assms(1) by (simp add: timers_ok_def)
qed (use assms(1) in \<open>simp_all add: timers_ok_def timer_start_def timer_stop_def flag_ids\<close>)

lemma timers_ok_start: "fresh x \<Longrightarrow> timers_ok (timer_begin x)"
  using fresh_law [of x] by (simp add: timers_ok_def timer_begin_def timer_new_def ids_ok_def stack_holds_def TABLE_SIZE_def bij_betw_def)

end

sublocale timer_store \<subseteq> ids: invariant_machine "\<lambda>s. \<exists>x. fresh x \<and> s = timer_begin x" "timer_step add del tick pending fits" timers_ok
  by unfold_locales (auto intro: timers_ok_start timers_ok_step)

context timer_store
begin

text \<open>What a client can rely on.\<close>

lemma timer_promises:
  assumes "fresh x" "(timer_step add del tick pending fits)\<^sup>*\<^sup>* (timer_begin x) s"
  shows "bij_betw (\<lambda>i. the (table (object s) i)) (owned s) (pending (store_of (object s)))"
    and "fits r (store_of (object s)) \<Longrightarrow> id_left (object s) \<Longrightarrow> wp (addTimer (add r) (object s)) (\<lambda>(i, t). i \<notin> owned s)"
    and "i \<in> owned s \<Longrightarrow> wp (deleteTimer del i (object s)) (\<lambda>(r, t). r = 0)"
    and "wp (run_step (tick c) (thread s) (object s)) (\<lambda>_. True)"
proof -
  have ok: "timers_ok s" using ids.inv_reachable assms by blast
  then show "bij_betw (\<lambda>i. the (table (object s) i)) (owned s) (pending (store_of (object s)))" by (simp add: timers_ok_def ids_ok_def)
  show "fits r (store_of (object s)) \<Longrightarrow> id_left (object s) \<Longrightarrow> wp (addTimer (add r) (object s)) (\<lambda>(i, t). i \<notin> owned s)"
    using add_ids ok by (fastforce simp: timers_ok_def elim!: wp_mono)
  show "i \<in> owned s \<Longrightarrow> wp (deleteTimer del i (object s)) (\<lambda>(r, t). r = 0)"
    using delete_ids ok by (fastforce simp: timers_ok_def elim!: wp_mono)
  show "wp (run_step (tick c) (thread s) (object s)) (\<lambda>_. True)"
    using run_ids ok by (fastforce simp: timers_ok_def elim!: wp_mono)
qed

end

end
