(* ===== verification/Timer_Objects.thy ===== *)
theory Timer_Objects
  imports Timer_Class Time_Wheel_Correct Time_Heap_Correct
begin

text \<open>
  The two classes \<open>Timer\<close>: \<open>Timer.cpp\<close> over the time wheel and \<open>Timer.cpp\<close> over the time heap. The C++ headers
  \<open>TimeWheel.h\<close> and \<open>TimeHeap.h\<close> have a handler object in place of the callback and its data and are otherwise those of
  \<open>Time_Wheel\<close> and \<open>Time_Heap\<close>, whose operations are used with the handler as the callback.
\<close>

definition handler_cb :: "ptr \<Rightarrow> nat option" where
  "handler_cb handler = (if handler = NULL then None else Some handler)"

subsection \<open>Over the time wheel\<close>

text \<open>A request is a timeout, a handler and the address that \<open>new\<close> returns.\<close>

type_synonym wheel_request = "int \<times> ptr \<times> ptr"

fun wheel_add :: "wheel_request \<Rightarrow> time_wheel \<Rightarrow> (ptr \<times> time_wheel) option" where
  "wheel_add (timeout, handler, a) w = Time_Wheel.add_timer timeout (handler_cb handler) NULL a w"



definition wheel_addTimer :: "wheel_request \<Rightarrow> time_wheel timer \<Rightarrow> (int \<times> time_wheel timer) option" where
  "wheel_addTimer r t = addTimer (wheel_add r) t"

definition wheel_deleteTimer :: "int \<Rightarrow> time_wheel timer \<Rightarrow> (int \<times> time_wheel timer) option" where
  "wheel_deleteTimer n t = deleteTimer Time_Wheel.del_timer n t"










subsection \<open>Over the time heap\<close>

text \<open>A request is the time, a delay, a handler and the address that \<open>new\<close> returns.\<close>

type_synonym heap_request = "int \<times> int \<times> ptr \<times> ptr"

fun heap_add :: "heap_request \<Rightarrow> time_heap \<Rightarrow> (ptr \<times> time_heap) option" where
  "heap_add (now, delay, handler, a) h = do {
     m \<leftarrow> Some ((timers h)(a \<mapsto> \<lparr>expire = now + delay, cb_func = handler_cb handler, timer_user_data = NULL\<rparr>));
     h \<leftarrow> Time_Heap.add_timer a (h\<lparr>timers := m\<rparr>);
     Some (a, h)
   }"

text \<open>\<open>deleteTimer\<close> clears the handler a second time.\<close>

definition heap_del :: "ptr \<Rightarrow> time_heap \<Rightarrow> time_heap option" where
  "heap_del p h = do {
     h \<leftarrow> Time_Heap.del_timer p h;
     m \<leftarrow> store (timers h) p (Time_Heap.heap_timer.cb_func_update (\<lambda>_. None));
     Some (h\<lparr>timers := m\<rparr>)
   }"

text \<open>The constructor makes a heap for \<open>cnt\<close> timers and then replaces it.\<close>

definition heap_timer_new :: "int \<Rightarrow> time_heap timer option" where
  "heap_timer_new cnt = do { _ \<leftarrow> time_heap_new cnt Map.empty; h \<leftarrow> time_heap_new 10 Map.empty; Some (timer_new h) }"

definition heap_addTimer :: "heap_request \<Rightarrow> time_heap timer \<Rightarrow> (int \<times> time_heap timer) option" where
  "heap_addTimer r t = addTimer (heap_add r) t"

definition heap_deleteTimer :: "int \<Rightarrow> time_heap timer \<Rightarrow> (int \<times> time_heap timer) option" where
  "heap_deleteTimer n t = deleteTimer heap_del n t"

definition heap_run_step :: "int \<Rightarrow> run_state \<Rightarrow> time_heap timer \<Rightarrow> (run_state \<times> time_heap timer) option" where
  "heap_run_step now r t = run_step (Time_Heap.tick now) r t"

definition heap_pending :: "time_heap \<Rightarrow> ptr set" where
  "heap_pending h = {p \<in> set (elems h). Time_Heap.heap_timer.cb_func (the (timers h p)) \<noteq> None}"

fun heap_fits :: "heap_request \<Rightarrow> time_heap \<Rightarrow> bool" where
  "heap_fits (now, delay, handler, a) h \<longleftrightarrow> handler \<noteq> NULL \<and> a \<noteq> NULL \<and> timers h a = None \<and> (cur_size h < capacity h \<or> capacity h < 2 ^ 30)"

abbreviation heap_step :: "time_heap timer_state \<Rightarrow> time_heap timer_state \<Rightarrow> bool" where
  "heap_step \<equiv> timer_step heap_add heap_del Time_Heap.tick heap_pending heap_fits"

lemma heap_inv_frame:
  assumes "heap_inv h" "timers h a = None"
  shows "heap_inv (h\<lparr>timers := (timers h)(a \<mapsto> t)\<rparr>)"
proof -
  have "heap_ord (key ((timers h)(a \<mapsto> t))) 0 (nat (cur_size h)) (harray h) = heap_ord (key (timers h)) 0 (nat (cur_size h)) (harray h)"
  proof (intro heap_ord_cong allI impI key_upd)
    fix i assume "i < nat (cur_size h)"
    then have "harray h ! i \<in> set (elems h)" using assms(1) by (intro elems_nth [of i "nat (cur_size h)"]) (auto simp: heap_inv_def)
    then show "harray h ! i \<noteq> a" using assms by (auto simp: heap_inv_def)
  qed
  then show ?thesis using assms(1) by (auto simp: heap_inv_def elems_def)
qed

lemma heap_add_law:
  assumes "heap_inv h" "heap_fits r h"
  shows "wp (heap_add r h) (\<lambda>(p, h'). heap_inv h' \<and> p \<notin> heap_pending h \<and> heap_pending h' = insert p (heap_pending h))"
proof -
  obtain now delay handler a where r: "r = (now, delay, handler, a)" by (cases r)
  define t where "t = \<lparr>expire = now + delay, Time_Heap.heap_timer.cb_func = Some handler, timer_user_data = NULL\<rparr>"
  define g where "g = h\<lparr>timers := (timers h)(a \<mapsto> t)\<rparr>"
  have a: "a \<noteq> NULL" "timers h a = None" "handler \<noteq> NULL" using assms(2) r by auto
  have an: "a \<notin> set (elems h)" using assms(1) a by (auto simp: heap_inv_def)
  have g: "heap_inv g" "elems g = elems h" using heap_inv_frame [OF assms(1) a(2)] by (simp_all add: g_def elems_def)
  have "wp (Time_Heap.add_timer a g) (\<lambda>h'. heap_inv h' \<and> timers h' = timers g \<and> mset (elems h') = add_mset a (mset (elems g)) \<and>
      (capacity h' = capacity g \<or> capacity h' = 2 * cur_size g) \<and> cur_size h' = cur_size g + 1)"
    by (rule add_ok [OF g(1) a(1)]) (use assms(2) r an g(2) in \<open>auto simp: g_def\<close>)
  then obtain h' where h': "Time_Heap.add_timer a g = Some h'" "heap_inv h'" "timers h' = timers g" "mset (elems h') = add_mset a (mset (elems h))"
    using g(2) by (auto elim!: wpE)
  have "set (elems h') = insert a (set (elems h))" using arg_cong [OF h'(4), of set_mset] by simp
  then have "heap_pending h' = insert a (heap_pending h)"
    using h'(3) an by (auto simp: heap_pending_def g_def t_def)
  moreover have "heap_add r h = Some (a, h')" using h'(1) a(3) by (simp add: r handler_cb_def g_def t_def)
  ultimately show ?thesis using h'(2) an by (auto simp: heap_pending_def)
qed

lemma heap_del_eq:
  assumes "p \<noteq> NULL" "p \<in> dom (timers h)"
  shows "heap_del p h = Some (h\<lparr>timers := no_cb [p] (timers h)\<rparr>)"
proof -
  obtain t where t: "timers h p = Some t" using assms(2) by auto
  then have "no_cb [p] (timers h) = (timers h)(p \<mapsto> Time_Heap.heap_timer.cb_func_update (\<lambda>_. None) t)" by (auto simp: no_cb_def)
  then show ?thesis using t assms(1) by (simp add: heap_del_def Time_Heap.del_timer_def)
qed

lemma heap_del_pending: "set (elems h) \<subseteq> dom (timers h) \<Longrightarrow> heap_pending (h\<lparr>timers := no_cb [p] (timers h)\<rparr>) = heap_pending h - {p}"
  by (auto simp: heap_pending_def elems_def no_cb_def)

lemma heap_tick_law:
  assumes "heap_inv h"
  shows "wp (Time_Heap.tick c h) (\<lambda>(out, h'). heap_inv h' \<and> heap_pending h' \<subseteq> heap_pending h)"
proof -
  have "0 < length (harray h)" using assms by (simp add: heap_inv_def)
  then have "Time_Heap.tick c h = Time_Heap.tick_loop c (harray h ! 0) h" by (simp add: Time_Heap.tick_def aget_def)
  then obtain out h' ps where t: "Time_Heap.tick c h = Some (out, h')" "heap_inv h'" "mset (elems h) = mset ps + mset (elems h')" "timers h' = timers h |` (- set ps)"
    using tick_loop_ok [OF assms, of "harray h ! 0" c] by (auto elim!: wpE)
  have "set (elems h') \<subseteq> set (elems h)" using arg_cong [OF t(3), of set_mset] by auto
  moreover have "set ps \<inter> set (elems h') = {}"
  proof -
    have "distinct (elems h)" using assms by (simp add: heap_inv_def)
    then have "distinct (ps @ elems h')" using mset_eq_imp_distinct_iff [of "elems h" "ps @ elems h'"] t(3) by simp
    then show ?thesis by simp
  qed
  ultimately show ?thesis using t by (auto simp: heap_pending_def restrict_map_def)
qed

interpretation heap_timers: timer_store heap_add heap_del Time_Heap.tick heap_pending heap_fits heap_inv "\<lambda>h. time_heap_new 10 Map.empty = Some h"
proof unfold_locales
  show "time_heap_new 10 Map.empty = Some h \<Longrightarrow> heap_inv h \<and> heap_pending h = {}" for h
    by (auto simp: time_heap_new_def heap_inv_def heap_pending_def elems_def heap_ord_def)
  show "heap_inv h \<Longrightarrow> NULL \<notin> heap_pending h" for h by (auto simp: heap_inv_def heap_pending_def)
  show "heap_inv h \<Longrightarrow> heap_fits r h \<Longrightarrow> wp (heap_add r h) (\<lambda>(p, h'). heap_inv h' \<and> p \<notin> heap_pending h \<and> heap_pending h' = insert p (heap_pending h))" for h r
    by (rule heap_add_law)
  show "wp (heap_del p h) (\<lambda>h'. heap_inv h' \<and> heap_pending h' = heap_pending h - {p})" if h: "heap_inv h" "p \<in> heap_pending h" for h p
  proof -
    have "p \<in> set (elems h)" "NULL \<notin> set (elems h)" "set (elems h) \<subseteq> dom (timers h)" using h by (auto simp: heap_inv_def heap_pending_def)
    then have "p \<noteq> NULL" "p \<in> dom (timers h)" "set (elems h) \<subseteq> dom (timers h)" by (metis, blast+)
    then show ?thesis using del_keeps_inv [OF h(1), of "[p]"] by (simp add: heap_del_eq heap_del_pending)
  qed
  show "heap_inv h \<Longrightarrow> wp (Time_Heap.tick c h) (\<lambda>(out, h'). heap_inv h' \<and> heap_pending h' \<subseteq> heap_pending h)" for h c
    by (rule heap_tick_law)
qed

subsection \<open>Numbers and timers\<close>




text \<open>The same for the heap.\<close>

lemma heap_timer_ids:
  assumes "heap_timer_new cnt = Some t" "heap_step\<^sup>*\<^sup>* \<lparr>object = t, thread = Spins, owned = {}\<rparr> s"
  shows "bij_betw (\<lambda>i. the (table (object s) i)) (owned s) (heap_pending (store_of (object s)))"
    and "heap_fits r (store_of (object s)) \<Longrightarrow> id_left (object s) \<Longrightarrow> wp (heap_addTimer r (object s)) (\<lambda>(i, t). i \<notin> owned s)"
    and "i \<in> owned s \<Longrightarrow> wp (heap_deleteTimer i (object s)) (\<lambda>(r, t). r = 0)"
    and "wp (heap_run_step now (thread s) (object s)) (\<lambda>_. True)"
proof -
  obtain h where h: "time_heap_new 10 Map.empty = Some h" "t = timer_new h" using assms(1) by (auto simp: heap_timer_new_def Option.bind_eq_Some_conv)
  have st: "heap_step\<^sup>*\<^sup>* (timer_begin h) s" using assms(2) h(2) by (simp add: timer_begin_def)
  note p = heap_timers.timer_promises [OF h(1) st, folded heap_addTimer_def heap_deleteTimer_def heap_run_step_def]
  show "bij_betw (\<lambda>i. the (table (object s) i)) (owned s) (heap_pending (store_of (object s)))" by (rule p(1))
  show "heap_fits r (store_of (object s)) \<Longrightarrow> id_left (object s) \<Longrightarrow> wp (heap_addTimer r (object s)) (\<lambda>(i, t). i \<notin> owned s)" by (rule p(2))
  show "i \<in> owned s \<Longrightarrow> wp (heap_deleteTimer i (object s)) (\<lambda>(r, t). r = 0)" by (rule p(3))
  show "wp (heap_run_step now (thread s) (object s)) (\<lambda>_. True)" by (rule p(4))
qed

subsection \<open>Misuse that the code does not notice\<close>

text \<open>A timer that has run is deleted from memory, but its number keeps the address: the wheel reads it.\<close>

lemma wheel_delete_dead: "table t i = Some p \<Longrightarrow> p \<noteq> NULL \<Longrightarrow> nodes (store_of t) p = None \<Longrightarrow> wheel_deleteTimer i t = None"
  by (simp add: wheel_deleteTimer_def deleteTimer_def table_get_def Time_Wheel.del_timer_def)

text \<open>A negative timeout adds nothing, and is given a number.\<close>

lemma wheel_add_negative:
  "timeout < 0 \<Longrightarrow> stack_index t \<le> 0 \<Longrightarrow> 0 \<le> timer_count t \<Longrightarrow> timer_count t < TABLE_SIZE \<Longrightarrow>
   wp (wheel_addTimer (timeout, handler, a) t) (\<lambda>(i, t'). i = timer_count t \<and> store_of t' = store_of t)"
  by (simp add: wheel_addTimer_def addTimer_def Time_Wheel.add_timer_def table_set_def)

text \<open>\<open>deleteTimer\<close> clears a local copy of the entry, so deleting a timer of the heap twice puts its number on the stack twice.\<close>

lemma heap_delete_twice:
  assumes "table t i = Some p" "p \<noteq> NULL" "p \<in> dom (timers (store_of t))" "0 \<le> i" "i < TABLE_SIZE" "0 \<le> stack_index t" "stack_index t + 1 < TABLE_SIZE"
  shows "wp (do { (r1, t) \<leftarrow> heap_deleteTimer i t; (r2, t) \<leftarrow> heap_deleteTimer i t; Some (r1, r2, t) })
    (\<lambda>(r1, r2, t'). r1 = 0 \<and> r2 = 0 \<and> stack_index t' = stack_index t + 2 \<and> stack t' (stack_index t) = Some i \<and> stack t' (stack_index t + 1) = Some i)"
  using assms by (simp add: heap_deleteTimer_def deleteTimer_def table_get_def table_set_def heap_del_eq)

text \<open>The next two timers then have the same number.\<close>

lemma heap_number_twice:
  assumes "stack_index t = k + 2" "stack t k = Some i" "stack t (1 + k) = Some i" "0 \<le> k" "k + 1 < TABLE_SIZE"
    and "heap_addTimer q1 t = Some (j1, t1)" "heap_addTimer q2 t1 = Some (j2, t2)"
  shows "j1 = i \<and> j2 = i"
  using assms by (auto simp: heap_addTimer_def addTimer_def table_get_def Option.bind_eq_Some_conv split: if_splits)

end
