(* ===== verification/Spec2Isabelle.thy ===== *)
theory Spec2Isabelle
  imports Conhash_Correct Server_Correct Thread_Pool_Correct Work_Queue Time_Heap_Correct Time_Wheel_Correct Radix_Correct Http_Wf Http_Codec_Trip Process_Pool_Correct Pool_Cpp Timer_Objects
begin

text \<open>
  A verification development for \<open>c-model\<close>, a collection of server components in C and C++: consistent hashing,
  a multi-process TCP server, a pool of processes, thread pools, timers, a radix tree and an HTTP codec. The
  components are libraries and servers of their own; the development has one group of theories for each.

  \<^bold>\<open>Conventions.\<close> A definition has the name of the C or C++ function, class or macro it translates; a loop
  is a function \<open>..._loop\<close>, a part of a long function has a name that says which part. \<open>None\<close> is undefined
  behaviour or a failed assertion: a read or write outside a buffer or array, of freed memory or of a null pointer. So a theorem
  with the result \<open>Some\<close> also says that the code does none of this. Results of system calls, of the allocator, the
  clock and other threads' moves are arguments, lists of results or steps of a relation. Error codes are values. Machine
  words have their width where the code depends on it; \<open>int\<close> is used where the source has a signed count that
  is bounded by the sizes involved. Shared vocabulary is in \<open>Prelude\<close>: a typed memory with loads and
  stores, \<open>wp\<close> for computations that may fault, and the locale \<open>invariant_machine\<close>, the contract of a step
  relation with an invariant, interpreted for the server, the thread pools, the work queue and the numbered timers.

  \<^bold>\<open>Consistent hashing\<close> (\<open>src/libconhash\<close>).
  \<^item> \<open>Util_Rbtree\<close>: \<open>util_rbtree.c\<close>, a red-black tree of heap nodes. \<open>RB_Tree\<close> has the trees as values, with zippers for the
    loops that move up; \<open>Rbtree_Layout\<close>, \<open>Rbtree_Insert\<close>, \<open>Rbtree_Delete\<close> and \<open>Rbtree_Query\<close> show that each operation on the heap computes
    its counterpart on values; \<open>Rbtree_Contract\<close> states the component's contract over the list of its
    elements, total and with a frame, and interprets \<open>cell_store\<close> with it.
  \<^item> \<open>Cell_Store\<close>: the locale of an ordered store of cells, all that consistent hashing needs of the tree.
  \<^item> \<open>Md5\<close>, \<open>Md5_Correct\<close>: \<open>md5.c\<close>. The streaming interface is related to the message consumed so far, the
    compression function with its unrolled rounds to RFC 1321, written independently.
  \<^item> \<open>Conhash\<close>: \<open>conhash.c\<close>, \<open>conhash_inter.c\<close>, \<open>conhash_util.c\<close> with allocation failures. \<open>Hash_Ring\<close> is the abstract ring of points;
    \<open>Conhash_Ring\<close> and \<open>Conhash_Correct\<close> show that adding and deleting a server refine it, that objects only move to or from
    the server concerned, that deleting undoes adding, and that \<open>conhash_fini\<close> frees everything.

  \<^bold>\<open>Multi-process server\<close> (\<open>src/mult_process_server\<close>).
  \<^item> \<open>Context_Pool\<close>: \<open>context.c\<close>, the array of contexts with its free list, and its contract \<open>slot_pool\<close>.
  \<^item> \<open>Conn_Server\<close>: \<open>conn_process.c\<close>, \<open>web_server.c\<close>, \<open>proxy_server.c\<close>, the handlers of a connection as steps over a trace of system calls.
  \<^item> \<open>Server\<close>: \<open>server.c\<close>, command line, listeners, workers and the event loop.
  \<^item> \<open>Server_Inv\<close> counts the descriptors, \<open>Server_Safe\<close> makes a worker an \<open>invariant_machine\<close>, \<open>Server_Correct\<close> has the properties: no
    descriptor is leaked or closed twice, no assertion fails, a proxied request and reply pass unchanged,
    and the ways in which the event loop goes wrong.

  \<^bold>\<open>Process pool\<close> (\<open>src/ProcessPool/process_pool\<close>).
  \<^item> \<open>Cgi_Conn\<close>: \<open>cgin_conn.cpp\<close>, a connection that reads the name of a program, independent of how the stream is cut.
  \<^item> \<open>Process_Pool\<close>: \<open>processpool.h\<close>, constructor, parent and children. \<open>Process_Pool_Correct\<close>: the parent never uses a
    closed pipe, returns when all children are reaped, and deals connections round robin. The search for a
    child has the number of processes as its fuel, after which it is back at its start.

  \<^bold>\<open>Thread pools\<close> (\<open>src/threadpool\<close>, \<open>src/mult_thread_server\<close>).
  \<^item> \<open>Task_Queue\<close>: the linked list and the ring of tasks, two interpretations of the locale \<open>task_queue\<close>.
  \<^item> \<open>Thread_Pool\<close>, \<open>Thread_Pool_Correct\<close>: the pool in C with workers, callers and the destroyer as threads of a step relation. A critical
    section is one step; waiting and waking are states. Every accepted task runs once and in order, a completed destroy has
    run them all, and some thread can move while there is work.
  \<^item> \<open>Work_Queue\<close>: \<open>workqueue.c\<close>; after the first worker has left, the mutex stays locked.
  \<^item> \<open>Pool_Cpp\<close>: the pool in C++ over a semaphore, with the same kind of relation.

  \<^bold>\<open>Timers\<close> (\<open>src/timer\<close>), over \<open>C_Array\<close>, arrays with \<open>int\<close> indices.
  \<^item> \<open>Time_Heap\<close>, \<open>Time_Heap_Correct\<close>: the binary heap of timers; a tick runs exactly the expired timers in order. Doubling the capacity
    is modelled without overflow of \<open>int\<close>.
  \<^item> \<open>Time_Wheel\<close>, \<open>Time_Wheel_Correct\<close>: the wheel of 60 slots refines a map from timers to the ticks left.
  \<^item> \<open>Timer_Class\<close>: the class \<open>Timer\<close> of the C++ timers, which numbers timers and ticks in a thread, over the locale \<open>timer_store\<close>.
    \<open>Timer_Objects\<close> interprets it with the wheel and with the heap: numbers in use and pending timers correspond one to one.

  \<^bold>\<open>Radix tree\<close> (\<open>src/tree/radix-tree\<close>). \<open>Radix_Tree\<close>, \<open>Radix_Correct\<close>: insertion and lookup refine a map for indices up to 511, the bound of the
  table of maximal indices; deletion damages the tree.

  \<^bold>\<open>HTTP codec\<close> (\<open>src/http_codec/http\<close> and \<open>api\<close>).
  \<^item> \<open>Http_Func\<close>, \<open>Http_Req\<close>: \<open>http_func.cpp\<close>, \<open>http_head.cpp\<close>, \<open>http_req.cpp\<close>, the incremental parser with its receive buffer in a memory
    from which \<open>append_data\<close> frees. \<open>ULONG_MAX\<close> is an argument, since the code depends on it. The header loop has
    the code's bound of 8192 lines per call.
  \<^item> \<open>Http_Correct\<close> is about a line and the header, \<open>Http_Parse\<close> about a request over any sequence of chunks: after each prefix the state
    is known (\<open>after\<close>), so every well-formed request is parsed to its fields. \<open>Http_Wf\<close> is the
    invariant for arbitrary bytes.
  \<^item> \<open>Http_Reply\<close>, \<open>Http_Util\<close>, \<open>Http_Codec\<close>: \<open>http_respond.cpp\<close>, \<open>http_rsp.cpp\<close>, \<open>http_util.cpp\<close>, \<open>http_server_codec.cpp\<close>. \<open>Http_Codec_Correct\<close> and \<open>Http_Codec_Trip\<close> relate what
    one part writes to what another reads: lengths, the end of a message in a stream, query parameters, an upload; and
    where this fails. The loop that may not end is a \<open>partial_function\<close>, for which \<open>None\<close> is not
    returning. The text of a JSON object with one member is a parameter.

  \<^bold>\<open>Not modelled\<close>, with the reason.
  \<^item> Third-party code that the repository carries: JsonCpp (\<open>http_codec/json\<close>), the Linux red-black tree (\<open>tree/rbtree\<close>),
    the socket and error helpers of The Linux Programming Interface (\<open>socket_lib\<close>, \<open>errno\<close>).
  \<^item> Code that is only system or library calls: the semaphore wrappers, the demos and \<open>main\<close> programs, the libevent echo server, set-up of
    signals and descriptors in the process pool, cancelling threads in the second C pool, the
    wrapper that forks a task that prints.
  \<^item> Throughout: output to the terminal, time spent, and the memory model of threads below the level of
    critical sections.
\<close>

end
